(* ===== verification/Prelude.thy ===== *)
theory Prelude
  imports Main "HOL-Library.Word" "HOL-Library.Sublist"
begin

text \<open>
  Shared vocabulary of the development.

  C text is a \<^typ>\<open>string\<close>: the bytes of a buffer as a list of 8-bit characters.  A pointer into
  a NUL-terminated buffer is the suffix of the buffer it points at, so that \<open>*p\<close> is
  \<open>cur p\<close> (NUL at the end), \<open>p + 1\<close> is \<open>tl p\<close>, \<open>p == q\<close> is equality of suffixes and
  \<open>q > p\<close> says that the suffix \<open>q\<close> is shorter.  Heap objects live at addresses of type
  \<open>addr\<close> and a pointer field is an \<open>addr option\<close>, \<open>None\<close> being \<open>NULL\<close>.
  The theory also holds the interface locales that several components share: a keyed store
  (provided by the splay tree), an interning table (provided by the symbol table)
  and a byte codec (provided by the SMTP body encoders and decoders).
\<close>

named_theorems cstr_simps \<open>reading characters through a pointer\<close>

type_synonym addr = nat
type_synonym ptr = "addr option"
type_synonym ulong = "64 word"

section \<open>Characters and C strings\<close>

abbreviation NUL :: char where "NUL \<equiv> CHR 0x00"
abbreviation HT :: char where "HT \<equiv> CHR 0x09"
abbreviation LF :: char where "LF \<equiv> CHR 0x0A"
abbreviation CR :: char where "CR \<equiv> CHR 0x0D"
abbreviation SPC :: char where "SPC \<equiv> CHR 0x20"
abbreviation DQUOTE :: char where "DQUOTE \<equiv> CHR 0x22"
abbreviation BSLASH :: char where "BSLASH \<equiv> CHR 0x5C"

text \<open>The byte value of a character, and the character a pointer points at.\<close>

definition ord :: "char \<Rightarrow> nat" where
  "ord c = of_char c"

definition cur :: "string \<Rightarrow> char" where
  "cur s = (case s of [] \<Rightarrow> NUL | c # _ \<Rightarrow> c)"

lemma cur_Nil [simp]: "cur [] = NUL"
  by (simp add: cur_def)

lemma cur_Cons [simp]: "cur (c # s) = c"
  by (simp add: cur_def)

lemma cur_not_NUL: "cur s \<noteq> NUL \<Longrightarrow> \<exists>t. s = cur s # t"
  by (cases s) auto

lemma cur_append: "s \<noteq> [] \<Longrightarrow> cur (s @ t) = cur s"
  by (cases s) auto

lemma ord_less_256 [simp]: "ord c < 256"
  by (simp add: ord_def)

lemma ord_inject [simp]: "ord a = ord b \<longleftrightarrow> a = b"
  by (simp add: ord_def)

lemma ord_char_of [simp]: "ord (char_of n) = n mod 256"
  by (simp add: ord_def)

lemma char_of_ord [simp]: "char_of (ord c) = c"
  by (simp add: ord_def)

text \<open>\<open>isspace\<close> of the C library, in the C locale.\<close>

definition isspace :: "char \<Rightarrow> bool" where
  "isspace c \<longleftrightarrow> c \<in> {SPC, HT, LF, CHR 0x0B, CHR 0x0C, CR}"

section \<open>Suffixes as pointers\<close>

lemma suffix_tl [simp, intro]: "suffix (tl s) s"
  by (cases s) (auto simp: suffix_Cons)

lemma suffix_length_less: "suffix t s \<Longrightarrow> t \<noteq> s \<Longrightarrow> length t < length s"
  by (auto simp: suffix_def)

lemma suffix_same_length: "suffix t s \<Longrightarrow> length t = length s \<Longrightarrow> t = s"
  by (auto simp: suffix_def)

lemma suffix_tl_trans: "suffix t s \<Longrightarrow> suffix (tl t) s"
  using suffix_order.trans suffix_tl by blast

section \<open>Association lists sorted by key\<close>

text \<open>The in-order listing of a search tree is sorted strictly by key.\<close>

definition sorted_keys :: "('k::linorder \<times> 'v) list \<Rightarrow> bool" where
  "sorted_keys xs \<longleftrightarrow> sorted_wrt (<) (map fst xs)"

lemma sorted_keys_Nil [simp]: "sorted_keys []"
  by (simp add: sorted_keys_def)

lemma sorted_keys_Cons [simp]:
  "sorted_keys (x # xs) \<longleftrightarrow> (\<forall>y\<in>set xs. fst x < fst y) \<and> sorted_keys xs"
  by (auto simp: sorted_keys_def)

lemma sorted_keys_append [simp]:
  "sorted_keys (xs @ ys) \<longleftrightarrow>
     sorted_keys xs \<and> sorted_keys ys \<and> (\<forall>x\<in>set xs. \<forall>y\<in>set ys. fst x < fst y)"
  by (auto simp: sorted_keys_def sorted_wrt_append)

lemma sorted_keys_distinct: "sorted_keys xs \<Longrightarrow> distinct (map fst xs)"
  by (simp add: sorted_keys_def strict_sorted_iff)

lemma map_of_None_less: "(\<And>x. x \<in> set xs \<Longrightarrow> fst x < k) \<Longrightarrow> map_of xs (k::'k::linorder) = None"
  by (auto simp: map_of_eq_None_iff)

lemma map_of_None_greater: "(\<And>x. x \<in> set xs \<Longrightarrow> k < fst x) \<Longrightarrow> map_of xs (k::'k::linorder) = None"
  by (auto simp: map_of_eq_None_iff)

section \<open>Interface: a keyed store\<close>

text \<open>
  The contract a client of the splay tree relies on.  A store has an abstraction to a finite map;
  looking a key up returns what the map holds and leaves the map alone (though the store is free to
  reorganise itself), installing overwrites one key, deleting removes one.
\<close>

locale keyed_store =
  fixes lookup :: "'k \<Rightarrow> 'q \<Rightarrow> 'v option \<times> 'q"
    and install :: "'k \<Rightarrow> 'v \<Rightarrow> 'q \<Rightarrow> 'q"
    and delete :: "'k \<Rightarrow> 'q \<Rightarrow> 'q option"
    and contents :: "'q \<Rightarrow> 'k \<rightharpoonup> 'v"
    and invar :: "'q \<Rightarrow> bool"
  assumes lookup_result: "invar q \<Longrightarrow> fst (lookup k q) = contents q k"
    and lookup_contents: "invar q \<Longrightarrow> contents (snd (lookup k q)) = contents q"
    and lookup_invar: "invar q \<Longrightarrow> invar (snd (lookup k q))"
    and install_contents: "invar q \<Longrightarrow> contents (install k v q) = (contents q)(k \<mapsto> v)"
    and install_invar: "invar q \<Longrightarrow> invar (install k v q)"
    and delete_defined: "invar q \<Longrightarrow> delete k q = None \<longleftrightarrow> contents q k = None"
    and delete_contents: "invar q \<Longrightarrow> delete k q = Some q' \<Longrightarrow> contents q' = (contents q)(k := None)"
    and delete_invar: "invar q \<Longrightarrow> delete k q = Some q' \<Longrightarrow> invar q'"
begin

lemma lookup_after_install:
  "invar q \<Longrightarrow> fst (lookup k (install k' v q)) = (if k = k' then Some v else fst (lookup k q))"
  by (simp add: lookup_result install_contents install_invar)

lemma lookup_after_delete:
  "invar q \<Longrightarrow> delete k' q = Some q' \<Longrightarrow>
     fst (lookup k q') = (if k = k' then None else fst (lookup k q))"
  by (simp add: lookup_result delete_contents delete_invar)

lemma delete_present:
  "invar q \<Longrightarrow> fst (lookup k q) = Some v \<Longrightarrow> \<exists>q'. delete k (snd (lookup k q)) = Some q'"
  using delete_defined [of "snd (lookup k q)" k]
  by (simp add: lookup_result lookup_contents lookup_invar)

lemma lookup_twice:
  "invar q \<Longrightarrow> fst (lookup k (snd (lookup k' q))) = fst (lookup k q)"
  by (simp add: lookup_result lookup_contents lookup_invar)

end

section \<open>Interface: interning\<close>

text \<open>
  The contract of a symbol table: names are mapped to nonzero keys, injectively.  A new key is chosen
  by the caller's allocator and has to be unused.
\<close>

locale interning =
  fixes intern :: "addr \<Rightarrow> 's \<Rightarrow> 'q \<Rightarrow> addr \<times> 'q"
    and lookup :: "'s \<Rightarrow> 'q \<Rightarrow> addr \<times> 'q"
    and free :: "'s \<Rightarrow> 'q \<Rightarrow> 'q option"
    and table :: "'q \<Rightarrow> 's \<rightharpoonup> addr"
    and invar :: "'q \<Rightarrow> bool"
  assumes intern_law: "invar q \<Longrightarrow> new \<noteq> 0 \<Longrightarrow> new \<notin> ran (table q) \<Longrightarrow> intern new s q = (a, q') \<Longrightarrow>
      a = (case table q s of None \<Rightarrow> new | Some a \<Rightarrow> a) \<and> table q' = (table q)(s \<mapsto> a) \<and> invar q'"
    and lookup_law: "invar q \<Longrightarrow> lookup s q = (a, q') \<Longrightarrow>
      a = (case table q s of None \<Rightarrow> 0 | Some a \<Rightarrow> a) \<and> table q' = table q \<and> invar q'"
    and free_law: "invar q \<Longrightarrow> \<exists>q'. free s q = Some q' \<and> table q' = (table q)(s := None) \<and> invar q'"
    and table_inj: "invar q \<Longrightarrow> inj_on (table q) (dom (table q))"
    and table_nonzero: "invar q \<Longrightarrow> table q s = Some a \<Longrightarrow> a \<noteq> 0"
begin

lemma lookup_fst: "invar q \<Longrightarrow> fst (lookup s q) = (case table q s of None \<Rightarrow> 0 | Some a \<Rightarrow> a)"
  using lookup_law [of q s "fst (lookup s q)" "snd (lookup s q)"] by simp

lemma lookup_zero_iff: "invar q \<Longrightarrow> fst (lookup s q) = 0 \<longleftrightarrow> table q s = None"
  by (auto simp: lookup_fst table_nonzero split: option.split)

lemma intern_lookup:
  assumes "invar q" "new \<noteq> 0" "new \<notin> ran (table q)" "intern new s q = (a, q')"
  shows "a \<noteq> 0 \<and> fst (lookup t q') = (if t = s then a else fst (lookup t q))"
proof -
  have "table q' = (table q)(s \<mapsto> a)" "invar q'" using intern_law [OF assms] by auto
  then show ?thesis using assms(1) table_nonzero [of q' s a] by (simp add: lookup_fst)
qed

lemma intern_again:
  assumes "invar q" "new \<noteq> 0" "new \<notin> ran (table q)" "intern new s q = (a, q')"
    and "new' \<noteq> 0" "new' \<notin> ran (table q')" "intern new' s q' = (b, q'')"
  shows "b = a \<and> table q'' = table q'"
proof -
  have 1: "table q' = (table q)(s \<mapsto> a)" "invar q'" using intern_law [OF assms(1-4)] by auto
  show ?thesis using 1(1) intern_law [OF 1(2) assms(5-7)] by (simp add: fun_upd_idem)
qed

lemma intern_injective:
  assumes "invar q" "new \<noteq> 0" "new \<notin> ran (table q)" "intern new s q = (a, q')"
    and "new' \<noteq> 0" "new' \<notin> ran (table q')" "intern new' t q' = (b, q'')"
  shows "a = b \<longleftrightarrow> s = t"
proof (cases "s = t")
  case True
  then show ?thesis using intern_again [OF assms(1-6)] assms(7) by simp
next
  case False
  have 1: "table q' = (table q)(s \<mapsto> a)" "invar q'" using intern_law [OF assms(1-4)] by auto
  have 2: "table q'' = (table q')(t \<mapsto> b)" "invar q''" using intern_law [OF 1(2) assms(5-7)] by auto
  have "table q'' s = Some a" "table q'' t = Some b" using False 1 2 by auto
  then show ?thesis using table_inj [OF 2(2)] False by (metis domI inj_on_def)
qed

lemma free_lookup:
  assumes "invar q" "free s q = Some q'"
  shows "fst (lookup t q') = (if t = s then 0 else fst (lookup t q))"
  using free_law [OF assms(1), of s] assms by (auto simp: lookup_fst)

end

section \<open>Interface: a byte codec\<close>

text \<open>
  An encoder and a decoder that work a byte at a time.  Running them over a string collects their
  output; a decoder may stop (\<open>None\<close>).
\<close>

fun enc_run :: "('e \<Rightarrow> char \<Rightarrow> 'e \<times> string) \<Rightarrow> 'e \<Rightarrow> string \<Rightarrow> 'e \<times> string" where
  "enc_run enc e [] = (e, [])"
| "enc_run enc e (c # cs) =
     (case enc e c of (e1, w1) \<Rightarrow> case enc_run enc e1 cs of (e2, w2) \<Rightarrow> (e2, w1 @ w2))"

fun dec_run :: "('d \<Rightarrow> char \<Rightarrow> ('d \<times> string) option) \<Rightarrow> 'd \<Rightarrow> string \<Rightarrow> ('d \<times> string) option" where
  "dec_run dec d [] = Some (d, [])"
| "dec_run dec d (c # cs) =
     (case dec d c of
        None \<Rightarrow> None
      | Some (d1, o1) \<Rightarrow> map_option (\<lambda>(d2, o2). (d2, o1 @ o2)) (dec_run dec d1 cs))"

lemma enc_run_append:
  "enc_run enc e (s @ t) =
     (case enc_run enc e s of (e1, w1) \<Rightarrow> case enc_run enc e1 t of (e2, w2) \<Rightarrow> (e2, w1 @ w2))"
  by (induction s arbitrary: e) (auto split: prod.splits)

lemma dec_run_append:
  "dec_run dec d (s @ t) =
     (case dec_run dec d s of
        None \<Rightarrow> None
      | Some (d1, o1) \<Rightarrow> map_option (\<lambda>(d2, o2). (d2, o1 @ o2)) (dec_run dec d1 t))"
  by (induction s arbitrary: d) (auto simp: map_option_case split: prod.splits option.splits)

text \<open>
  The contract: a relation between the two states and the bytes the decoder still holds back is
  kept by every byte, and what the decoder has put out, followed by what it holds back, is what went in.
\<close>

locale byte_codec =
  fixes enc :: "'e \<Rightarrow> char \<Rightarrow> 'e \<times> string"
    and dec :: "'d \<Rightarrow> char \<Rightarrow> ('d \<times> string) option"
    and R :: "'e \<Rightarrow> 'd \<Rightarrow> string \<Rightarrow> bool"
    and ok :: "char \<Rightarrow> bool"
  assumes codec_step: "R e d p \<Longrightarrow> ok c \<Longrightarrow> enc e c = (e', w) \<Longrightarrow>
      \<exists>d' out p'. dec_run dec d w = Some (d', out) \<and> p @ [c] = out @ p' \<and> R e' d' p'"
begin

lemma codec_run:
  "R e d p \<Longrightarrow> list_all ok m \<Longrightarrow> enc_run enc e m = (e', w) \<Longrightarrow>
     \<exists>d' out p'. dec_run dec d w = Some (d', out) \<and> p @ m = out @ p' \<and> R e' d' p'"
proof (induction m arbitrary: e d p w)
  case (Cons c m)
  obtain e1 w1 w2 where s: "enc e c = (e1, w1)" "enc_run enc e1 m = (e', w2)" "w = w1 @ w2"
    using Cons.prems(3) by (auto split: prod.splits)
  from codec_step [OF Cons.prems(1) _ s(1)] Cons.prems(2) obtain d1 o1 p1
    where 1: "dec_run dec d w1 = Some (d1, o1)" "p @ [c] = o1 @ p1" "R e1 d1 p1" by auto
  from Cons.IH [OF 1(3) _ s(2)] Cons.prems(2) obtain d2 o2 p2
    where 2: "dec_run dec d1 w2 = Some (d2, o2)" "p1 @ m = o2 @ p2" "R e' d2 p2" by auto
  have "p @ c # m = (o1 @ o2) @ p2" using 1(2) 2(2) by (metis append.assoc append_Cons append_Nil)
  then show ?case using 1 2 s(3) by (auto simp: dec_run_append)
qed auto

end

end
