(* ===== verification/Splay.thy ===== *)
theory Splay
  imports Prelude
begin

text \<open>
  The splay trees of \<^verbatim>\<open>lib/splay.c\<close>, the dictionary under almost every table of the mailer.

  A tree is the algebraic reading of the \<open>leftlink\<close>/\<open>rightlink\<close> pointers of \<open>struct spblk\<close>.
  The \<open>uplink\<close> pointers are the frames between a node and the root: a node together with the frames
  above it (innermost first) is what a \<open>struct spblk *\<close> denotes.  A block of the tree is named by its
  key, which is unique because \<open>sp_install\<close> looks a key up before it enters a block.  The free
  chain of blocks is kept as its length.
  The theorems show that every operation implements an update of the map held by the tree, that the
  order, the element count and the block accounting are invariant, that a looked-up block ends at the
  root, and that a scan visits every block once in ascending order.
\<close>

section \<open>Data\<close>

datatype ('k, 'a) spt =
    Null
  | Blk (leftlink: "('k, 'a) spt") (spkey: 'k) (spdata: 'a) (spmark: int) (rightlink: "('k, 'a) spt")

text \<open>
  A frame is the block above the current one: \<open>UpR\<close> when the current block is its left child (the
  frame lies to the right of it), \<open>UpL\<close> when it is the right child.
\<close>

datatype ('k, 'a) spframe =
    UpR 'k 'a int "('k, 'a) spt"
  | UpL "('k, 'a) spt" 'k 'a int

type_synonym ('k, 'a) sploc = "('k, 'a) spt \<times> ('k, 'a) spframe list"

record ('k, 'a) sptree =
  root :: "('k, 'a) spt"
  free :: nat
  eltscnt :: int
  lookups :: int
  lkpcmps :: int
  enqs :: int
  enqcmps :: int
  splays :: int
  splayloops :: int

section \<open>Operations\<close>

definition sp_init :: "('k, 'a) sptree" where
  "sp_init = \<lparr>root = Null, free = 0, eltscnt = 0, lookups = 0, lkpcmps = 0,
              enqs = 0, enqcmps = 0, splays = 0, splayloops = 0\<rparr>"

text \<open>Taking a block from the free chain, which is refilled with 1000 blocks when it is empty.\<close>

definition sp_alloc :: "('k, 'a) sptree \<Rightarrow> ('k, 'a) sptree" where
  "sp_alloc q = q\<lparr>free := (if free q = 0 then 1000 else free q) - 1\<rparr>"

text \<open>
  The loop of \<open>_splay\<close>: it walks up from a node, hanging every frame to the right of the node below
  the growing right tree and every frame to the left below the growing left tree; two frames in a row
  on the same side are rotated first.  The counter is \<open>splayloops\<close>.
\<close>

fun splay_up :: "('k, 'a) spframe list \<Rightarrow> ('k, 'a) spt \<Rightarrow> ('k, 'a) spt \<Rightarrow> int \<Rightarrow> ('k, 'a) spt \<times> ('k, 'a) spt \<times> int" where
  "splay_up [] left right c = (left, right, c)"
| "splay_up (UpR k d m r # UpR k2 d2 m2 r2 # fs) left right c =
     splay_up fs left (Blk right k d m (Blk r k2 d2 m2 r2)) (c + 1)"
| "splay_up (UpR k d m r # fs) left right c =
     splay_up fs left (Blk right k d m r) (c + 1)"
| "splay_up (UpL l k d m # UpL l2 k2 d2 m2 # fs) left right c =
     splay_up fs (Blk (Blk l2 k2 d2 m2 l) k d m left) right (c + 1)"
| "splay_up (UpL l k d m # fs) left right c =
     splay_up fs (Blk l k d m left) right (c + 1)"

fun splay :: "('k, 'a) sploc \<Rightarrow> ('k, 'a) sptree \<Rightarrow> ('k, 'a) sptree" where
  "splay (Null, fs) q = q"
| "splay (Blk l k d m r, fs) q =
     (let (left, right, c) = splay_up fs l r (splayloops q)
      in q\<lparr>root := Blk left k d m right, splays := splays q + 1, splayloops := c\<rparr>)"

text \<open>The search loop of \<open>sp_lookup\<close>; the counter is \<open>lkpcmps\<close>.\<close>

fun sp_find :: "'k::linorder \<Rightarrow> ('k, 'a) spt \<Rightarrow> ('k, 'a) spframe list \<Rightarrow> int \<Rightarrow> ('k, 'a) sploc option \<times> int" where
  "sp_find key Null fs c = (None, c)"
| "sp_find key (Blk l k d m r) fs c =
     (if key = k then (Some (Blk l k d m r, fs), c)
      else if key < k then sp_find key l (UpR k d m r # fs) (c + 1)
      else sp_find key r (UpL l k d m # fs) (c + 1))"

definition sp_lookup :: "'k::linorder \<Rightarrow> ('k, 'a) sptree \<Rightarrow> ('a \<times> int) option \<times> ('k, 'a) sptree" where
  "sp_lookup key q =
     (let (n, c) = sp_find key (root q) [] (lkpcmps q + 1);
          q = q\<lparr>lookups := lookups q + 1, lkpcmps := c\<rparr>
      in case n of
           None \<Rightarrow> (None, q)
         | Some (t, fs) \<Rightarrow> (Some (spdata t, spmark t), splay (t, fs) q))"

text \<open>
  \<open>_sp_enq\<close> splits the tree top-down on the key of the new block.  The left tree under construction is
  its right spine, the right tree its left spine, both innermost first; \<open>plug_left\<close> and
  \<open>plug_right\<close> close them with the subtree that ends the spine.
\<close>

fun plug_left :: "(('k, 'a) spt \<times> 'k \<times> 'a \<times> int) list \<Rightarrow> ('k, 'a) spt \<Rightarrow> ('k, 'a) spt" where
  "plug_left [] t = t"
| "plug_left ((l, k, d, m) # ls) t = plug_left ls (Blk l k d m t)"

fun plug_right :: "('k \<times> 'a \<times> int \<times> ('k, 'a) spt) list \<Rightarrow> ('k, 'a) spt \<Rightarrow> ('k, 'a) spt" where
  "plug_right [] t = t"
| "plug_right ((k, d, m, r) # rs) t = plug_right rs (Blk t k d m r)"

function (sequential)
  enq_one :: "'k::linorder \<Rightarrow> ('k, 'a) spt \<Rightarrow> (('k, 'a) spt \<times> 'k \<times> 'a \<times> int) list \<Rightarrow>
     ('k \<times> 'a \<times> int \<times> ('k, 'a) spt) list \<Rightarrow> int \<Rightarrow> ('k, 'a) spt \<times> ('k, 'a) spt \<times> int"
and
  enq_two :: "'k::linorder \<Rightarrow> ('k, 'a) spt \<Rightarrow> (('k, 'a) spt \<times> 'k \<times> 'a \<times> int) list \<Rightarrow>
     ('k \<times> 'a \<times> int \<times> ('k, 'a) spt) list \<Rightarrow> int \<Rightarrow> ('k, 'a) spt \<times> ('k, 'a) spt \<times> int" where
  "enq_one key (Blk nl nk nd nm (Blk a tk td tm b)) ls rs c =
     (if \<not> tk < key then enq_two key (Blk a tk td tm b) ((nl, nk, nd, nm) # ls) rs (c + 1)
      else
        let ls' = (Blk nl nk nd nm a, tk, td, tm) # ls
        in if b = Null then (plug_left ls' Null, plug_right rs Null, c + 1)
           else if spkey b < key then enq_one key b ls' rs (c + 2)
           else enq_two key b ls' rs (c + 2))"
| "enq_one key next ls rs c = (plug_left ls next, plug_right rs Null, c)"
| "enq_two key (Blk (Blk a tk td tm b) nk nd nm nr) ls rs c =
     (if tk < key then enq_one key (Blk a tk td tm b) ls ((nk, nd, nm, nr) # rs) (c + 1)
      else
        let rs' = (tk, td, tm, Blk b nk nd nm nr) # rs
        in if a = Null then (plug_left ls Null, plug_right rs' Null, c + 1)
           else if \<not> spkey a < key then enq_two key a ls rs' (c + 2)
           else enq_one key a ls rs' (c + 2))"
| "enq_two key next ls rs c = (plug_left ls Null, plug_right rs next, c)"
  by pat_completeness auto
termination
  by (relation "measure (\<lambda>x. case x of Inl (_, t, _, _, _) \<Rightarrow> size t | Inr (_, t, _, _, _) \<Rightarrow> size t)")
     auto

definition sp_enq :: "'k::linorder \<Rightarrow> 'a \<Rightarrow> int \<Rightarrow> ('k, 'a) sptree \<Rightarrow> ('k, 'a) sptree" where
  "sp_enq key d m q =
     (let q = q\<lparr>enqs := enqs q + 1\<rparr>
      in if root q = Null then q\<lparr>root := Blk Null key d m Null\<rparr>
         else
           let c = enqcmps q + 1;
               (l, r, c) = (if \<not> spkey (root q) < key then enq_two key (root q) [] [] c
                            else enq_one key (root q) [] [] c)
           in q\<lparr>root := Blk l key d m r, enqcmps := c\<rparr>)"

text \<open>Overwriting the contents of the block at the root, which is where \<open>sp_lookup\<close> leaves it.\<close>

fun set_root :: "'a \<Rightarrow> int \<Rightarrow> ('k, 'a) spt \<Rightarrow> ('k, 'a) spt" where
  "set_root d m Null = Null"
| "set_root d m (Blk l k _ _ r) = Blk l k d m r"

definition sp_install :: "'k::linorder \<Rightarrow> 'a \<Rightarrow> int \<Rightarrow> ('k, 'a) sptree \<Rightarrow> ('k, 'a) sptree" where
  "sp_install key d m q =
     (case sp_lookup key q of
        (None, q) \<Rightarrow> sp_enq key d m ((sp_alloc q)\<lparr>eltscnt := eltscnt q + 1\<rparr>)
      | (Some _, q) \<Rightarrow> q\<lparr>root := set_root d m (root q)\<rparr>)"

text \<open>
  The loop of \<open>_sp_deq\<close> from a block whose left child is not empty: the leftmost block and the tree
  without it, the left branch shortened by rotations.
\<close>

fun sp_deq_loop :: "('k, 'a) spt \<Rightarrow> ('k \<times> 'a \<times> int) option \<times> ('k, 'a) spt" where
  "sp_deq_loop (Blk (Blk Null lk ld lm lr) nk nd nm nr) =
     (Some (lk, ld, lm), Blk lr nk nd nm nr)"
| "sp_deq_loop (Blk (Blk (Blk Null fk fd fm fr) lk ld lm lr) nk nd nm nr) =
     (Some (fk, fd, fm), Blk (Blk fr lk ld lm lr) nk nd nm nr)"
| "sp_deq_loop (Blk (Blk (Blk ffl fk fd fm fr) lk ld lm lr) nk nd nm nr) =
     (let (x, t) = sp_deq_loop (Blk ffl fk fd fm (Blk fr lk ld lm lr))
      in (x, Blk t nk nd nm nr))"
| "sp_deq_loop t = (None, t)"

fun sp_deq :: "('k, 'a) spt \<Rightarrow> ('k \<times> 'a \<times> int) option \<times> ('k, 'a) spt" where
  "sp_deq Null = (None, Null)"
| "sp_deq (Blk Null k d m r) = (Some (k, d, m), r)"
| "sp_deq t = sp_deq_loop t"

text \<open>
  \<open>sp_delete n q\<close> for the block with the given key; \<open>None\<close> when no such block is in the tree, where
  the code's behaviour is not defined.
\<close>

definition sp_delete :: "'k::linorder \<Rightarrow> ('k, 'a) sptree \<Rightarrow> ('k, 'a) sptree option" where
  "sp_delete key q =
     (case sp_find key (root q) [] 0 of
        (None, _) \<Rightarrow> None
      | (Some n, _) \<Rightarrow>
          (let q = splay n q;
               t = (case sp_deq (rightlink (root q)) of
                      (None, _) \<Rightarrow> leftlink (root q)
                    | (Some (k, d, m), r) \<Rightarrow> Blk (leftlink (root q)) k d m r)
           in Some (q\<lparr>root := t, free := free q + 1, eltscnt := eltscnt q - 1\<rparr>)))"

text \<open>\<open>_sp_chop\<close> returns every block of a subtree to the free chain; \<open>sp_null\<close> empties the tree.\<close>

fun sp_chop :: "('k, 'a) spt \<Rightarrow> nat \<Rightarrow> nat" where
  "sp_chop Null fr = fr"
| "sp_chop (Blk l k d m r) fr = Suc (sp_chop l (sp_chop r fr))"

definition sp_null :: "('k, 'a) sptree \<Rightarrow> ('k, 'a) sptree" where
  "sp_null q =
     (if root q = Null then q
      else \<lparr>root = Null, free = sp_chop (root q) (free q), eltscnt = 0, lookups = 0, lkpcmps = 0,
            enqs = 0, enqcmps = 0, splays = 0, splayloops = 0\<rparr>)"

text \<open>The first block, the successor of a block, and the scan that visits a block after the other.\<close>

fun sp_leftmost :: "('k, 'a) spt \<Rightarrow> ('k, 'a) spframe list \<Rightarrow> ('k, 'a) sploc option" where
  "sp_leftmost Null fs = None"
| "sp_leftmost (Blk Null k d m r) fs = Some (Blk Null k d m r, fs)"
| "sp_leftmost (Blk l k d m r) fs = sp_leftmost l (UpR k d m r # fs)"

definition sp_fhead :: "('k, 'a) sptree \<Rightarrow> ('k, 'a) sploc option" where
  "sp_fhead q = sp_leftmost (root q) []"

fun sp_climb :: "('k, 'a) spt \<Rightarrow> ('k, 'a) spframe list \<Rightarrow> ('k, 'a) sploc option" where
  "sp_climb t [] = None"
| "sp_climb t (UpR k d m r # fs) = Some (Blk t k d m r, fs)"
| "sp_climb t (UpL l k d m # fs) = sp_climb (Blk l k d m t) fs"

fun sp_fnext :: "('k, 'a) sploc \<Rightarrow> ('k, 'a) sploc option" where
  "sp_fnext (Null, fs) = None"
| "sp_fnext (Blk l k d m r, fs) =
     (if r \<noteq> Null then sp_leftmost r (UpL l k d m # fs) else sp_climb (Blk l k d m r) fs)"

text \<open>
  The remaining blocks of a scan, the current one first: the measure by which a scan ends.
\<close>

fun inorder :: "('k, 'a) spt \<Rightarrow> ('k \<times> 'a \<times> int) list" where
  "inorder Null = []"
| "inorder (Blk l k d m r) = inorder l @ (k, d, m) # inorder r"

fun frames_after :: "('k, 'a) spframe list \<Rightarrow> ('k \<times> 'a \<times> int) list" where
  "frames_after [] = []"
| "frames_after (UpR k d m r # fs) = (k, d, m) # inorder r @ frames_after fs"
| "frames_after (UpL l k d m # fs) = frames_after fs"

fun sp_remaining :: "('k, 'a) sploc option \<Rightarrow> ('k \<times> 'a \<times> int) list" where
  "sp_remaining None = []"
| "sp_remaining (Some (Null, fs)) = []"
| "sp_remaining (Some (Blk l k d m r, fs)) = (k, d, m) # inorder r @ frames_after fs"

lemma sp_remaining_leftmost:
  "t \<noteq> Null \<Longrightarrow> sp_remaining (sp_leftmost t fs) = inorder t @ frames_after fs"
  by (induction t fs rule: sp_leftmost.induct) auto

lemma sp_remaining_climb: "sp_remaining (sp_climb t fs) = frames_after fs"
  by (induction t fs rule: sp_climb.induct) auto

lemma sp_remaining_fnext:
  "sp_remaining (sp_fnext (Blk l k d m r, fs)) = inorder r @ frames_after fs"
  by (simp add: sp_remaining_leftmost sp_remaining_climb)

function sp_scan :: "('k \<Rightarrow> 'a \<Rightarrow> int \<Rightarrow> 's \<Rightarrow> 's) \<Rightarrow> ('k, 'a) sploc option \<Rightarrow> 's \<Rightarrow> 's" where
  "sp_scan f None s = s"
| "sp_scan f (Some (Null, fs)) s = s"
| "sp_scan f (Some (Blk l k d m r, fs)) s = sp_scan f (sp_fnext (Blk l k d m r, fs)) (f k d m s)"
  by pat_completeness auto
termination
  by (relation "measure (\<lambda>(f, n, s). length (sp_remaining n))")
     (auto simp del: sp_fnext.simps simp: sp_remaining_fnext)

section \<open>Reading a tree as a map\<close>

definition sp_contents :: "('k::linorder, 'a) sptree \<Rightarrow> 'k \<rightharpoonup> ('a \<times> int)" where
  "sp_contents q = map_of (inorder (root q))"

definition sp_invar :: "('k::linorder, 'a) sptree \<Rightarrow> bool" where
  "sp_invar q \<longleftrightarrow> sorted_keys (inorder (root q)) \<and> eltscnt q = int (length (inorder (root q)))
     \<and> (length (inorder (root q)) + free q) mod 1000 = 0"

fun frames_inorder :: "('k, 'a) spframe list \<Rightarrow> ('k \<times> 'a \<times> int) list \<Rightarrow> ('k \<times> 'a \<times> int) list" where
  "frames_inorder [] xs = xs"
| "frames_inorder (UpR k d m r # fs) xs = frames_inorder fs (xs @ (k, d, m) # inorder r)"
| "frames_inorder (UpL l k d m # fs) xs = frames_inorder fs (inorder l @ (k, d, m) # xs)"

fun spine_left :: "(('k, 'a) spt \<times> 'k \<times> 'a \<times> int) list \<Rightarrow> ('k \<times> 'a \<times> int) list" where
  "spine_left [] = []"
| "spine_left ((l, k, d, m) # ls) = spine_left ls @ inorder l @ [(k, d, m)]"

fun spine_right :: "('k \<times> 'a \<times> int \<times> ('k, 'a) spt) list \<Rightarrow> ('k \<times> 'a \<times> int) list" where
  "spine_right [] = []"
| "spine_right ((k, d, m, r) # rs) = (k, d, m) # inorder r @ spine_right rs"

lemma inorder_Nil_iff [simp]: "inorder t = [] \<longleftrightarrow> t = Null"
  by (cases t) auto

lemma inorder_plug_left [simp]: "inorder (plug_left ls t) = spine_left ls @ inorder t"
  by (induction ls t rule: plug_left.induct) auto

lemma inorder_plug_right [simp]: "inorder (plug_right rs t) = inorder t @ spine_right rs"
  by (induction rs t rule: plug_right.induct) auto

section \<open>Splaying and searching\<close>

lemma splay_up_inorder:
  "splay_up fs left right c = (l, r, c') \<Longrightarrow>
     inorder l @ x # inorder r = frames_inorder fs (inorder left @ x # inorder right)"
  by (induction fs left right c rule: splay_up.induct) auto

lemma inorder_splay:
  "t \<noteq> Null \<Longrightarrow> inorder (root (splay (t, fs) q)) = frames_inorder fs (inorder t)"
  by (cases t) (auto simp: splay_up_inorder split: prod.split)

lemma splay_root:
  "t \<noteq> Null \<Longrightarrow> \<exists>l r. root (splay (t, fs) q) = Blk l (spkey t) (spdata t) (spmark t) r"
  by (cases t) (auto split: prod.split)

lemma splay_fields [simp]:
  "free (splay n q) = free q" "eltscnt (splay n q) = eltscnt q"
  by (induction n q rule: splay.induct) (auto split: prod.split)

lemma sp_find_Some:
  "sp_find key t fs c = (Some (t', fs'), c') \<Longrightarrow>
     t' \<noteq> Null \<and> spkey t' = key \<and> frames_inorder fs' (inorder t') = frames_inorder fs (inorder t)"
  by (induction key t fs c rule: sp_find.induct) (auto split: if_splits)

lemma sp_find_map_of:
  assumes "sorted_keys (inorder t)"
  shows "map_of (inorder t) key =
     (case fst (sp_find key t fs c) of None \<Rightarrow> None | Some (t', _) \<Rightarrow> Some (spdata t', spmark t'))"
  using assms
proof (induction key t fs c rule: sp_find.induct)
  case (2 key l k d m r fs c)
  have "map_of (inorder l) key = None" if "k \<le> key"
    using that "2.prems" by (intro map_of_None_less) force
  moreover have "map_of (inorder r) key = None" if "key \<le> k"
    using that "2.prems" by (intro map_of_None_greater) force
  ultimately show ?case
    using "2.IH" "2.prems" by (auto simp: map_add_def split: option.split)
qed simp

lemma sp_lookup_cases:
  assumes "sp_invar q"
  obtains (miss) q' where "sp_lookup key q = (None, q')" "sp_contents q key = None"
      "root q' = root q" "free q' = free q" "eltscnt q' = eltscnt q"
  | (hit) d m q' l r where "sp_lookup key q = (Some (d, m), q')" "sp_contents q key = Some (d, m)"
      "root q' = Blk l key d m r" "inorder (root q') = inorder (root q)"
      "free q' = free q" "eltscnt q' = eltscnt q"
proof -
  obtain n c where f: "sp_find key (root q) [] (lkpcmps q + 1) = (n, c)"
    by (cases "sp_find key (root q) [] (lkpcmps q + 1)")
  have m: "sp_contents q key = (case n of None \<Rightarrow> None | Some (t', _) \<Rightarrow> Some (spdata t', spmark t'))"
    using assms sp_find_map_of [of "root q" key "[]" "lkpcmps q + 1"] f
    by (simp add: sp_contents_def sp_invar_def)
  show thesis
  proof (cases n)
    case None
    with f m show ?thesis
      by (intro miss [of "q\<lparr>lookups := lookups q + 1, lkpcmps := c\<rparr>"]) (auto simp: sp_lookup_def)
  next
    case (Some a)
    obtain t fs where "a = (t, fs)" by (cases a)
    with f Some have t: "t \<noteq> Null" "spkey t = key" "frames_inorder fs (inorder t) = inorder (root q)"
      using sp_find_Some by fastforce+
    let ?q = "splay (t, fs) (q\<lparr>lookups := lookups q + 1, lkpcmps := c\<rparr>)"
    obtain l r where rt: "root ?q = Blk l key (spdata t) (spmark t) r"
      using splay_root [OF t(1)] t(2) by blast
    have "inorder (root ?q) = inorder (root q)"
      using inorder_splay [OF t(1), of fs] t(3) by simp
    with f m Some \<open>a = (t, fs)\<close> t rt show ?thesis
      by (intro hit [of "spdata t" "spmark t" ?q l r]) (auto simp: sp_lookup_def)
  qed
qed

section \<open>Entering a block\<close>

lemma enq_inorder:
  "enq_one key t ls rs c = (l, r, c') \<Longrightarrow>
     inorder l @ inorder r = spine_left ls @ inorder t @ spine_right rs"
  "enq_two key t ls rs c = (l, r, c') \<Longrightarrow>
     inorder l @ inorder r = spine_left ls @ inorder t @ spine_right rs"
  by (induction key t ls rs c and key t ls rs c rule: enq_one_enq_two.induct)
     (auto simp: Let_def split: if_splits)

definition keys_below :: "'k::linorder \<Rightarrow> ('k \<times> 'a \<times> int) list \<Rightarrow> bool" where
  "keys_below key xs \<longleftrightarrow> (\<forall>x\<in>set xs. fst x < key)"

definition keys_above :: "'k::linorder \<Rightarrow> ('k \<times> 'a \<times> int) list \<Rightarrow> bool" where
  "keys_above key xs \<longleftrightarrow> (\<forall>x\<in>set xs. key \<le> fst x)"

lemma keys_below_simps [simp]:
  "keys_below key []"
  "keys_below key (x # xs) \<longleftrightarrow> fst x < key \<and> keys_below key xs"
  "keys_below key (xs @ ys) \<longleftrightarrow> keys_below key xs \<and> keys_below key ys"
  by (auto simp: keys_below_def)

lemma keys_above_simps [simp]:
  "keys_above key []"
  "keys_above key (x # xs) \<longleftrightarrow> key \<le> fst x \<and> keys_above key xs"
  "keys_above key (xs @ ys) \<longleftrightarrow> keys_above key xs \<and> keys_above key ys"
  by (auto simp: keys_above_def)

lemma keys_below_sorted: "sorted_keys (xs @ x # ys) \<Longrightarrow> fst x < key \<Longrightarrow> keys_below key xs"
  by (fastforce simp: keys_below_def)

lemma keys_above_sorted: "sorted_keys (xs @ x # ys) \<Longrightarrow> key \<le> fst x \<Longrightarrow> keys_above key ys"
  by (fastforce simp: keys_above_def)

text \<open>
  The two halves of the split: everything that ends in the left tree is below the key, everything in
  the right tree is not.  \<open>enq_one\<close> runs with the root of the unsplit part below the key,
  \<open>enq_two\<close> with it at or above the key.
\<close>

lemma enq_split:
  "enq_one key t ls rs c = (l, r, c') \<Longrightarrow> sorted_keys (inorder t) \<Longrightarrow> t \<noteq> Null \<Longrightarrow> spkey t < key \<Longrightarrow>
     keys_below key (spine_left ls) \<Longrightarrow> keys_above key (spine_right rs) \<Longrightarrow>
     keys_below key (inorder l) \<and> keys_above key (inorder r)"
  "enq_two key t ls rs c = (l, r, c') \<Longrightarrow> sorted_keys (inorder t) \<Longrightarrow> t \<noteq> Null \<Longrightarrow> key \<le> spkey t \<Longrightarrow>
     keys_below key (spine_left ls) \<Longrightarrow> keys_above key (spine_right rs) \<Longrightarrow>
     keys_below key (inorder l) \<and> keys_above key (inorder r)"
proof (induction key t ls rs c and key t ls rs c rule: enq_one_enq_two.induct
    [case_names one one_Null one_end two two_Null two_end])
  case (one key nl nk nd nm a tk td tm b ls rs c)
  have nl: "keys_below key (inorder nl)"
    using one.prems by (intro keys_below_sorted [of _ "(nk, nd, nm)"]) auto
  have a: "keys_below key (inorder a)" if "tk < key"
    using one.prems that by (intro keys_below_sorted [of _ "(tk, td, tm)"]) auto
  show ?case
    using one.prems one.IH nl a by (auto simp: Let_def not_less split: if_splits)
next
  case (one_end key nl nk nd nm ls rs c)
  then show ?case using keys_below_sorted [of "inorder nl" "(nk, nd, nm)" "[]"] by auto
next
  case (two key a tk td tm b nk nd nm nr ls rs c)
  have nr: "keys_above key (inorder nr)"
    using two.prems by (intro keys_above_sorted [of "inorder (Blk a tk td tm b)" "(nk, nd, nm)"]) auto
  have b: "keys_above key (inorder b)" if "key \<le> tk"
    using two.prems that by (intro keys_above_sorted [of "inorder a" "(tk, td, tm)"]) auto
  show ?case
    using two.prems two.IH nr b by (auto simp: Let_def not_less split: if_splits)
next
  case (two_end key nk nd nm nr ls rs c)
  then show ?case using keys_above_sorted [of "[]" "(nk, nd, nm)" "inorder nr"] by auto
qed auto

lemma sp_enq_inorder:
  assumes sorted: "sorted_keys (inorder (root q))" and absent: "map_of (inorder (root q)) key = None"
  shows "\<exists>xs ys. inorder (root q) = xs @ ys \<and> inorder (root (sp_enq key d m q)) = xs @ (key, d, m) # ys
    \<and> (\<forall>x\<in>set xs. fst x < key) \<and> (\<forall>y\<in>set ys. key < fst y)"
proof (cases "root q = Null")
  case True
  then show ?thesis by (simp add: sp_enq_def)
next
  case False
  let ?c = "enqcmps q + 1"
  obtain l r c where e: "(if \<not> spkey (root q) < key then enq_two key (root q) [] [] ?c
      else enq_one key (root q) [] [] ?c) = (l, r, c)"
    by (metis prod_cases3)
  have i: "inorder (root q) = inorder l @ inorder r"
    using e enq_inorder [of key "root q" "[]" "[]" ?c l r c] by (auto split: if_splits)
  have s: "keys_below key (inorder l) \<and> keys_above key (inorder r)"
    using e enq_split [of key "root q" "[]" "[]" ?c l r c] sorted False
    by (auto simp: not_less split: if_splits)
  have "\<forall>y\<in>set (inorder r). key \<noteq> fst y"
    using absent i by (force simp: map_of_eq_None_iff)
  with s have "\<forall>y\<in>set (inorder r). key < fst y"
    by (force simp: keys_above_def)
  moreover have "inorder (root (sp_enq key d m q)) = inorder l @ (key, d, m) # inorder r"
    using e False by (auto simp: sp_enq_def Let_def split: if_splits)
  ultimately show ?thesis using i s by (auto simp: keys_below_def)
qed

lemma sp_enq_fields [simp]: "free (sp_enq key d m q) = free q" "eltscnt (sp_enq key d m q) = eltscnt q"
  by (auto simp: sp_enq_def Let_def split: prod.split)

lemma sp_alloc_fields [simp]: "root (sp_alloc q) = root q" "eltscnt (sp_alloc q) = eltscnt q"
  by (simp_all add: sp_alloc_def)

lemma inorder_set_root:
  "inorder t = xs @ (k, d0, m0) # ys \<Longrightarrow> t = Blk l k d0 m0 r \<Longrightarrow> xs = inorder l \<Longrightarrow>
     inorder (set_root d m t) = xs @ (k, d, m) # ys"
  by auto

lemma map_of_insert:
  "\<forall>x\<in>set xs. fst x < key \<Longrightarrow> \<forall>y\<in>set ys. (key::'k::linorder) < fst y \<Longrightarrow>
     map_of (xs @ (key, v) # ys) = (map_of (xs @ ys))(key \<mapsto> v)"
  by (auto simp: fun_eq_iff map_add_def map_of_None_less split: option.split)

lemma map_of_remove:
  "sorted_keys (xs @ (key, v) # ys) \<Longrightarrow> map_of (xs @ ys) = (map_of (xs @ (key, v) # ys))(key := None)"
  by (auto simp: fun_eq_iff map_add_def map_of_None_less map_of_None_greater split: option.split)

lemma sp_install_spec:
  assumes q: "sp_invar q"
  shows "sp_contents (sp_install key d m q) = (sp_contents q)(key \<mapsto> (d, m)) \<and> sp_invar (sp_install key d m q)"
proof (cases rule: sp_lookup_cases [OF q, of key, case_names miss hit])
  case (miss q')
  let ?q = "(sp_alloc q')\<lparr>eltscnt := eltscnt q' + 1\<rparr>"
  have r: "root ?q = root q" using miss by simp
  have "sorted_keys (inorder (root ?q))" "map_of (inorder (root ?q)) key = None"
    using q miss r by (auto simp: sp_invar_def sp_contents_def)
  from sp_enq_inorder [OF this, of d m] obtain xs ys where xy: "inorder (root q) = xs @ ys"
      "inorder (root (sp_enq key d m ?q)) = xs @ (key, d, m) # ys"
      "\<forall>x\<in>set xs. fst x < key" "\<forall>y\<in>set ys. key < fst y"
    unfolding r by blast
  have i: "sp_install key d m q = sp_enq key d m ?q"
    using miss by (simp add: sp_install_def)
  have "sp_contents (sp_install key d m q) = (sp_contents q)(key \<mapsto> (d, m))"
    unfolding i sp_contents_def xy(1,2) by (rule map_of_insert [OF xy(3,4)])
  moreover have "sp_invar (sp_install key d m q)"
  proof -
    have "(Suc (length (xs @ ys)) + ((if free q = 0 then 1000 else free q) - 1)) mod 1000 = 0"
      using q xy(1) by (auto simp: sp_invar_def)
    moreover have "free (sp_enq key d m ?q) = (if free q = 0 then 1000 else free q) - 1"
      using miss by (simp add: sp_alloc_def)
    ultimately show ?thesis
      using q xy miss unfolding i sp_invar_def by fastforce
  qed
  ultimately show ?thesis by simp
next
  case (hit d0 m0 q' l r)
  have i: "root (sp_install key d m q) = Blk l key d m r"
    using hit by (simp add: sp_install_def)
  have s: "sorted_keys (inorder l @ (key, d0, m0) # inorder r)"
    using q hit by (simp add: sp_invar_def)
  then have "sp_contents (sp_install key d m q) = (sp_contents q)(key \<mapsto> (d, m))"
    unfolding sp_contents_def i using hit map_of_insert [of "inorder l" key "inorder r"]
    by (auto simp flip: hit(4))
  moreover have "sp_invar (sp_install key d m q)"
    using q hit s unfolding sp_invar_def i by (simp add: sp_install_def flip: hit(4))
  ultimately show ?thesis by simp
qed

section \<open>Removing blocks\<close>

lemma sp_deq_loop_inorder:
  "leftlink t \<noteq> Null \<Longrightarrow> t \<noteq> Null \<Longrightarrow> \<exists>k d m t'. sp_deq_loop t = (Some (k, d, m), t') \<and>
     inorder t = (k, d, m) # inorder t'"
  by (induction t rule: sp_deq_loop.induct) (auto split: prod.split)

lemma sp_deq_inorder:
  "t \<noteq> Null \<Longrightarrow> \<exists>k d m t'. sp_deq t = (Some (k, d, m), t') \<and> inorder t = (k, d, m) # inorder t'"
proof (induction t rule: sp_deq.induct)
  case (3 l k d m r lk ld lm lr)
  then show ?case using sp_deq_loop_inorder [of "Blk (Blk l k d m r) lk ld lm lr"] by simp
qed auto

lemma sp_delete_spec:
  assumes q: "sp_invar q" and del: "sp_delete key q = Some q'"
  shows "sp_contents q' = (sp_contents q)(key := None) \<and> sp_invar q'"
proof -
  from del obtain t fs c where f: "sp_find key (root q) [] 0 = (Some (t, fs), c)"
    by (auto simp: sp_delete_def split: prod.splits option.splits)
  have t: "t \<noteq> Null" "spkey t = key" "frames_inorder fs (inorder t) = inorder (root q)"
    using sp_find_Some [OF f] by auto
  obtain l r where rt: "root (splay (t, fs) q) = Blk l key (spdata t) (spmark t) r"
    using splay_root [OF t(1)] t(2) by blast
  have i: "inorder (root q) = inorder l @ (key, spdata t, spmark t) # inorder r"
    using inorder_splay [OF t(1), of fs q] t(3) rt by simp
  have r': "inorder (root q') = inorder l @ inorder r \<and> free q' = free q + 1 \<and> eltscnt q' = eltscnt q - 1"
  proof (cases "r = Null")
    case True
    with del f rt show ?thesis by (auto simp: sp_delete_def Let_def)
  next
    case False
    from sp_deq_inorder [OF this] obtain k d m r2
      where "sp_deq r = (Some (k, d, m), r2)" "inorder r = (k, d, m) # inorder r2" by blast
    with del f rt show ?thesis by (auto simp: sp_delete_def Let_def)
  qed
  have s: "sorted_keys (inorder l @ (key, spdata t, spmark t) # inorder r)"
    using q i by (simp add: sp_invar_def)
  have "sp_contents q' = (sp_contents q)(key := None)"
    unfolding sp_contents_def using r' i map_of_remove [OF s] by simp
  moreover have "sp_invar q'"
    using q r' i s by (auto simp: sp_invar_def)
  ultimately show ?thesis by simp
qed

lemma sp_delete_defined:
  assumes "sp_invar q"
  shows "sp_delete key q = None \<longleftrightarrow> sp_contents q key = None"
  using assms sp_find_map_of [of "root q" key "[]" 0]
  by (auto simp: sp_delete_def sp_contents_def sp_invar_def Let_def split: prod.splits option.splits)

lemma sp_chop_length: "sp_chop t fr = length (inorder t) + fr"
  by (induction t fr rule: sp_chop.induct) auto

lemma sp_null_spec:
  assumes "sp_invar q"
  shows "sp_contents (sp_null q) = Map.empty \<and> sp_invar (sp_null q)"
  using assms by (auto simp: sp_null_def sp_contents_def sp_invar_def sp_chop_length)

lemma sp_init_spec: "sp_contents sp_init = Map.empty \<and> sp_invar sp_init"
  by (simp add: sp_init_def sp_contents_def sp_invar_def)

lemma sp_lookup_spec:
  assumes "sp_invar q"
  shows "fst (sp_lookup key q) = sp_contents q key \<and> sp_contents (snd (sp_lookup key q)) = sp_contents q
    \<and> sp_invar (snd (sp_lookup key q))"
  by (cases rule: sp_lookup_cases [OF assms, of key, case_names miss hit])
     (use assms in \<open>auto simp: sp_contents_def sp_invar_def\<close>)

text \<open>The splay tree provides the keyed store its clients rely on.\<close>

interpretation spstore: keyed_store sp_lookup "\<lambda>k (d, m). sp_install k d m" sp_delete sp_contents sp_invar
  by unfold_locales
     (auto simp: sp_lookup_spec sp_install_spec sp_delete_defined dest: sp_delete_spec)

section \<open>Scanning\<close>

lemma sp_scan_fold: "sp_scan f n s = fold (\<lambda>(k, d, m). f k d m) (sp_remaining n) s"
  by (induction f n s rule: sp_scan.induct)
     (auto simp del: sp_fnext.simps simp: sp_remaining_fnext)

lemma sp_fhead_remaining: "sp_remaining (sp_fhead q) = inorder (root q)"
  using sp_remaining_leftmost [of "root q" "[]"] by (cases "root q") (auto simp: sp_fhead_def)

section \<open>Properties\<close>

text \<open>A tree in use: every sequence of calls of the interface.\<close>

inductive sp_reachable :: "('k::linorder, 'a) sptree \<Rightarrow> bool" where
  sp_reach_init: "sp_reachable sp_init"
| sp_reach_lookup: "sp_reachable q \<Longrightarrow> sp_reachable (snd (sp_lookup k q))"
| sp_reach_install: "sp_reachable q \<Longrightarrow> sp_reachable (sp_install k d m q)"
| sp_reach_delete: "sp_reachable q \<Longrightarrow> sp_delete k q = Some q' \<Longrightarrow> sp_reachable q'"
| sp_reach_null: "sp_reachable q \<Longrightarrow> sp_reachable (sp_null q)"

lemma sp_reachable_invar: "sp_reachable q \<Longrightarrow> sp_invar q"
  by (induction rule: sp_reachable.induct)
     (auto simp: sp_init_spec sp_lookup_spec sp_install_spec sp_null_spec dest: sp_delete_spec)

text \<open>
  C6: The splay tree implements a map.  From every tree that the interface can build, a lookup returns
  the value stored under the key and changes no association, and a found block is at the root
  afterwards; an install changes exactly its key; a delete is possible exactly for the keys present and
  removes exactly its key; \<open>sp_null\<close> empties the tree.
\<close>

theorem splay_refines_map:
  assumes "sp_reachable q"
  shows "fst (sp_lookup k q) = sp_contents q k \<and>
    sp_contents (snd (sp_lookup k q)) = sp_contents q \<and>
    (sp_contents q k \<noteq> None \<longrightarrow> spkey (root (snd (sp_lookup k q))) = k) \<and>
    sp_contents (sp_install k d m q) = (sp_contents q)(k \<mapsto> (d, m)) \<and>
    (sp_delete k q = None \<longleftrightarrow> sp_contents q k = None) \<and>
    (\<forall>q'. sp_delete k q = Some q' \<longrightarrow> sp_contents q' = (sp_contents q)(k := None)) \<and>
    sp_contents (sp_null q) = Map.empty"
proof -
  from assms have q: "sp_invar q" by (rule sp_reachable_invar)
  have "sp_contents q k \<noteq> None \<longrightarrow> spkey (root (snd (sp_lookup k q))) = k"
    by (cases rule: sp_lookup_cases [OF q, of k, case_names miss hit]) auto
  then show ?thesis
    using sp_lookup_spec [OF q] sp_install_spec [OF q] sp_delete_defined [OF q]
      sp_delete_spec [OF q] sp_null_spec [OF q]
    by blast
qed

text \<open>A tree of three blocks, for the witnesses.\<close>

definition sp_example :: "(nat, string) sptree" where
  "sp_example = sp_install 7 ''seven'' 0 (sp_install 3 ''three'' 0 (sp_install 5 ''five'' 0 sp_init))"

lemma sp_example_reachable: "sp_reachable sp_example"
  unfolding sp_example_def by (intro sp_reachable.intros)

lemma sp_example_inorder:
  "inorder (root sp_example) = [(3, ''three'', 0), (5, ''five'', 0), (7, ''seven'', 0)]"
  by code_simp

theorem splay_refines_map_witness:
  "sp_reachable sp_example \<and> fst (sp_lookup 5 sp_example) = Some (''five'', 0) \<and>
   spkey (root (snd (sp_lookup 5 sp_example))) = 5"
  using sp_example_reachable splay_refines_map [OF sp_example_reachable, of 5]
  by (simp add: sp_contents_def sp_example_inorder)

text \<open>
  C16: Every tree that the interface can build is ordered strictly by key, \<open>eltscnt\<close> is the number of
  its blocks, and no block is lost: the blocks in the tree and on the free chain together are what
  \<open>_sp_alloc\<close> obtained, in lots of 1000.
\<close>

theorem splay_invariant:
  assumes "sp_reachable q"
  shows "sorted_keys (inorder (root q)) \<and> eltscnt q = int (length (inorder (root q))) \<and>
    (\<exists>lots. length (inorder (root q)) + free q = 1000 * lots)"
  using sp_reachable_invar [OF assms] by (auto simp: sp_invar_def)

theorem splay_invariant_witness:
  "sp_reachable sp_example \<and> eltscnt sp_example = 3"
  using sp_example_reachable splay_invariant [OF sp_example_reachable]
  by (simp add: sp_example_inorder)

text \<open>
  A scan calls its function once for every block, in ascending order of the keys: \<open>sp_scan\<close> from
  \<open>sp_fhead\<close> folds the function over a strictly sorted listing that represents the contents of the
  tree.
\<close>

lemma sp_scan_ascending:
  assumes "sp_reachable q"
  shows "\<exists>xs. sorted_keys xs \<and> map_of xs = sp_contents q \<and>
    (\<forall>f s. sp_scan f (sp_fhead q) s = fold (\<lambda>(k, d, m). f k d m) xs s)"
  using sp_reachable_invar [OF assms]
  by (intro exI [of _ "inorder (root q)"])
     (auto simp: sp_scan_fold sp_fhead_remaining sp_contents_def sp_invar_def)

lemma sp_scan_ascending_witness:
  "\<exists>xs. sorted_keys xs \<and> map_of xs = sp_contents sp_example \<and>
    sp_scan (\<lambda>k d m s. s @ [k]) (sp_fhead sp_example) [] = fold (\<lambda>(k, d, m) s. s @ [k]) xs []"
  using sp_scan_ascending [OF sp_example_reachable] by fastforce

end
