(* ===== verification/Hash.thy ===== *)
theory Hash
  imports Prelude
begin

unbundle bit_operations_syntax

text \<open>
  The two string hashes of the symbol tables: the table-driven 31-bit CRC of \<^verbatim>\<open>lib/crc32.c\<close> and the
  PJW hash of \<^verbatim>\<open>lib/pjwhash32.c\<close>.  The CRC is kept at the 64 bits of \<open>unsigned long\<close>; the PJW hash is
  written for any width of \<open>unsigned long\<close>, because its comment makes a claim about two of them.
  The theorems bound the CRC, show that it is linear over exclusive-or and blind to the eighth bit, and
  settle the comment of the PJW hash.
\<close>

section \<open>CRC\<close>

definition POLY :: ulong where
  "POLY = 0x48000000"

text \<open>The inner loop of \<open>crcinit\<close>, \<open>j\<close> running down from 6 to 0, and the table it fills.\<close>

definition crc_entry :: "nat \<Rightarrow> ulong" where
  "crc_entry i = fold (\<lambda>j sum. if bit i j then sum XOR drop_bit j POLY else sum) (rev [0..<7]) 0"

definition CrcTable :: "ulong list" where
  "CrcTable = map crc_entry [0..<128]"

definition crc_step :: "ulong \<Rightarrow> char \<Rightarrow> ulong" where
  "crc_step key c = drop_bit 7 key XOR (CrcTable ! unat ((key XOR of_nat (ord c)) AND 0x7f))"

text \<open>\<open>crc32n\<close> on a byte sequence with its length, \<open>crc32\<close> on a NUL-terminated string.\<close>

definition crc32n :: "string \<Rightarrow> ulong" where
  "crc32n s = foldl crc_step 0 s AND 0xFFFFFFFF"

definition crc32 :: "string \<Rightarrow> ulong" where
  "crc32 s = foldl crc_step 0 (takeWhile (\<lambda>c. c \<noteq> NUL) s) AND 0xFFFFFFFF"

section \<open>PJW\<close>

definition pjw_step :: "'w::len word \<Rightarrow> char \<Rightarrow> 'w word" where
  "pjw_step hash c =
     (let hash = push_bit 4 hash + of_nat (ord c);
          tmp = hash AND NOT 0xfffffff
      in if tmp \<noteq> 0 then (hash XOR drop_bit 24 tmp) XOR tmp else hash)"

definition pjwhash32n :: "string option \<Rightarrow> 'w::len word" where
  "pjwhash32n p = (case p of None \<Rightarrow> NOT 0 | Some s \<Rightarrow> foldl pjw_step 0 s)"

definition pjwhash32 :: "string option \<Rightarrow> 'w::len word" where
  "pjwhash32 p = (case p of None \<Rightarrow> NOT 0 | Some s \<Rightarrow> foldl pjw_step 0 (takeWhile (\<lambda>c. c \<noteq> NUL) s))"

section \<open>The CRC as a linear map\<close>

text \<open>What the table holds, as a function of the low seven bits of a word.\<close>

definition crc_low :: "ulong \<Rightarrow> ulong" where
  "crc_low x = fold (\<lambda>j sum. if bit x j then sum XOR drop_bit j POLY else sum) (rev [0..<7]) 0"

lemma fold_xor_linear:
  fixes g :: "nat \<Rightarrow> ulong"
  shows "fold (\<lambda>j sum. if P j \<noteq> Q j then sum XOR g j else sum) js (a XOR b) =
    fold (\<lambda>j sum. if P j then sum XOR g j else sum) js a XOR
    fold (\<lambda>j sum. if Q j then sum XOR g j else sum) js b"
proof (induction js arbitrary: a b)
  case (Cons j js)
  have 1: "(a XOR g j) XOR (b XOR g j) = a XOR b"
    by (simp add: ac_simps flip: xor.assoc [of "g j" "g j"])
  have 2: "(a XOR b) XOR g j = (a XOR g j) XOR b" "(a XOR b) XOR g j = a XOR (b XOR g j)"
    by (simp_all add: ac_simps)
  show ?case
    using Cons.IH [of "a XOR g j" "b XOR g j"] Cons.IH [of "a XOR g j" b]
      Cons.IH [of a "b XOR g j"] Cons.IH [of a b] 1 2
    by (cases "P j"; cases "Q j") simp_all
qed simp

lemma crc_low_xor: "crc_low (x XOR y) = crc_low x XOR crc_low y"
  using fold_xor_linear [of "bit x" "bit y" "\<lambda>j. drop_bit j POLY" "rev [0..<7]" 0 0]
  by (simp add: crc_low_def bit_xor_iff)

lemma crc_low_cong: "(\<And>j. j < 7 \<Longrightarrow> bit x j = bit y j) \<Longrightarrow> crc_low x = crc_low y"
  unfolding crc_low_def by (rule fold_cong) auto

lemma mask7: "(0x7f :: ulong) = mask 7"
  by (simp add: mask_eq_decr_exp)

lemma crc_low_and: "crc_low (x AND 0x7f) = crc_low x"
  by (rule crc_low_cong) (simp add: mask7 bit_and_iff bit_mask_iff)

lemma crc_entry_low: "crc_entry n = crc_low (of_nat n)"
  unfolding crc_low_def crc_entry_def by (rule fold_cong) (auto simp: bit_of_nat_iff)

lemma unat_and_7f: "unat ((x::ulong) AND 0x7f) < 128"
proof -
  have "x AND 0x7f \<le> 0x7f" by (rule word_and_le1)
  then have "unat (x AND 0x7f) \<le> unat (0x7f :: ulong)" by (simp only: word_le_nat_alt)
  then show ?thesis by simp
qed

lemma crc_step_low: "crc_step key c = drop_bit 7 key XOR crc_low (key XOR of_nat (ord c))"
  using unat_and_7f [of "key XOR of_nat (ord c)"]
  by (simp add: crc_step_def CrcTable_def crc_entry_low crc_low_and)

text \<open>Exclusive-or of two bytes.\<close>

definition xor_char :: "char \<Rightarrow> char \<Rightarrow> char" where
  "xor_char a b = char_of (ord a XOR ord b)"

lemma ord_xor_char: "ord (xor_char a b) = ord a XOR ord b"
proof -
  have "take_bit 8 (ord a XOR ord b) = ord a XOR ord b"
    by (simp add: take_bit_xor take_bit_nat_eq_self)
  then show ?thesis by (simp add: xor_char_def take_bit_eq_mod)
qed

lemma crc_step_xor: "crc_step (k XOR l) (xor_char a b) = crc_step k a XOR crc_step l b"
  by (simp add: crc_step_low ord_xor_char drop_bit_xor crc_low_xor of_nat_xor_eq ac_simps)

lemma crc_foldl_xor:
  "length xs = length ys \<Longrightarrow>
     foldl crc_step (k XOR l) (map2 xor_char xs ys) = foldl crc_step k xs XOR foldl crc_step l ys"
  by (induction xs ys arbitrary: k l rule: list_induct2) (simp_all add: crc_step_xor)

lemma crc_low_31: "drop_bit 31 (crc_low x) = 0"
proof -
  have "drop_bit 31 (fold (\<lambda>j sum. if bit x j then sum XOR drop_bit j POLY else sum) js a) = 0"
    if "drop_bit 31 a = 0" for js a
    using that
  proof (induction js arbitrary: a)
    case (Cons j js)
    have "drop_bit 31 (drop_bit j POLY) = drop_bit j (drop_bit 31 POLY)"
      by (simp add: drop_bit_drop_bit ac_simps)
    also have "\<dots> = 0" by (simp add: POLY_def)
    finally show ?case using Cons by (simp add: drop_bit_xor)
  qed simp
  then show ?thesis by (simp add: crc_low_def)
qed

lemma crc_foldl_31: "drop_bit 31 k = 0 \<Longrightarrow> drop_bit 31 (foldl crc_step k s) = 0"
proof (induction s arbitrary: k)
  case (Cons c s)
  have "drop_bit 31 (drop_bit 7 k) = drop_bit 7 (drop_bit 31 k)"
    by (simp add: drop_bit_drop_bit ac_simps)
  with Cons show ?case by (simp add: crc_step_low drop_bit_xor crc_low_31)
qed simp

lemma drop_bit_0_less: "drop_bit 31 (x::ulong) = 0 \<Longrightarrow> x < 2 ^ 31"
proof -
  assume "drop_bit 31 x = 0"
  then have "unat x div 2 ^ 31 = 0"
    by (metis drop_bit_eq_div unat_0 unat_drop_bit_eq)
  then show ?thesis by (simp add: word_less_nat_alt)
qed

lemma mask32: "(0xFFFFFFFF :: ulong) = mask 32"
  by (simp add: mask_eq_decr_exp)

lemma and_mask32: "drop_bit 31 (x::ulong) = 0 \<Longrightarrow> x AND 0xFFFFFFFF = x"
proof (rule bit_eqI)
  fix n assume "drop_bit 31 x = 0"
  then have "bit (drop_bit 31 x) (n - 31) = False" by simp
  then have "\<not> bit x (31 + (n - 31))" by (simp only: bit_drop_bit_eq comp_apply simp_thms)
  then have "bit x n \<Longrightarrow> n < 32" by (cases "n < 32") auto
  then show "bit (x AND 0xFFFFFFFF) n = bit x n"
    by (auto simp: mask32 bit_and_iff bit_mask_iff)
qed

lemma crc32n_foldl: "crc32n s = foldl crc_step 0 s"
  by (simp add: crc32n_def and_mask32 crc_foldl_31)


text \<open>
  the CRC of any byte sequence is a 31-bit number, so its final mask with \<open>0xFFFFFFFF\<close> never changes
  it; it is linear, the CRC of the byte-wise exclusive-or of two sequences of the same length being the
  exclusive-or of their CRCs; and \<open>crc32\<close> of a string without NUL bytes is \<open>crc32n\<close> of its bytes.
\<close>

lemma crc32n_linear_31_bit:
  "crc32n s < 2 ^ 31 \<and>
   (length s = length t \<longrightarrow> crc32n (map2 xor_char s t) = crc32n s XOR crc32n t) \<and>
   (NUL \<notin> set s \<longrightarrow> crc32 s = crc32n s)"
proof -
  have 1: "crc32n s < 2 ^ 31"
    unfolding crc32n_foldl by (rule drop_bit_0_less) (simp add: crc_foldl_31)
  have 2: "length s = length t \<longrightarrow> crc32n (map2 xor_char s t) = crc32n s XOR crc32n t"
    unfolding crc32n_foldl using crc_foldl_xor [of s t 0 0] by simp
  have "takeWhile (\<lambda>c. c \<noteq> NUL) s = s" if "NUL \<notin> set s"
    using that by (auto simp: takeWhile_eq_all_conv)
  then have 3: "NUL \<notin> set s \<longrightarrow> crc32 s = crc32n s"
    unfolding crc32_def crc32n_def by metis
  from 1 2 3 show ?thesis by blast
qed

lemma crc32n_linear_31_bit_witness:
  "crc32n (map2 xor_char ''ab'' ''cd'') = crc32n ''ab'' XOR crc32n ''cd'' \<and> crc32 ''ab'' = crc32n ''ab''"
  using crc32n_linear_31_bit [of "''ab''" "''cd''"] by simp

section \<open>The PJW hash at two widths\<close>

lemma mask28: "(0xfffffff :: 'w::len word) = mask 28"
  by (simp add: mask_eq_decr_exp)

text \<open>What a step does once the character is added: fold the bits above 28 back and clear them.\<close>

definition pjw_fold :: "'w::len word \<Rightarrow> 'w word" where
  "pjw_fold x = (x XOR drop_bit 24 (x AND NOT (mask 28))) XOR (x AND NOT (mask 28))"

lemma pjw_step_fold: "pjw_step h c = pjw_fold (push_bit 4 h + of_nat (ord c))"
proof -
  define x where "x = push_bit 4 h + of_nat (ord c)"
  define y where "y = x AND NOT (mask 28)"
  have "(if y \<noteq> 0 then (x XOR drop_bit 24 y) XOR y else x) = (x XOR drop_bit 24 y) XOR y" by simp
  then show ?thesis by (simp only: pjw_step_def pjw_fold_def Let_def mask28 x_def y_def)
qed

lemma ucast_pjw_fold: "ucast (pjw_fold (x :: 32 word)) = pjw_fold (ucast x :: ulong)"
  unfolding pjw_fold_def
  by (rule bit_word_eqI)
    (auto simp: bit_simps bit_ucast_iff dest: bit_imp_le_length)

lemma pjw_fold_28: "drop_bit 28 (pjw_fold (x :: 32 word)) = 0"
  unfolding pjw_fold_def
  by (rule bit_word_eqI) (auto simp: bit_simps dest: bit_imp_le_length)

lemma pjw_fold_less: "unat (pjw_fold (x :: 32 word)) < 2 ^ 28"
proof -
  have "unat (pjw_fold x) div 2 ^ 28 = 0"
    using pjw_fold_28 [of x] by (metis drop_bit_eq_div unat_0 unat_drop_bit_eq)
  then show ?thesis by (simp add: div_eq_0_iff)
qed

lemma unat_ucast_up: "unat (ucast (h :: 32 word) :: ulong) = unat h"
proof -
  have "unat h < 2 ^ 32" using unsigned_less [of h] by simp
  then show ?thesis by (simp add: unsigned_ucast_eq take_bit_nat_eq_self)
qed

text \<open>A step agrees at both widths as long as adding the character does not carry out of 32 bits.\<close>

lemma pjw_step_widths:
  assumes "16 * unat h + ord c < 2 ^ 32"
  shows "pjw_step (ucast h :: ulong) c = ucast (pjw_step (h :: 32 word) c)"
proof -
  have l: "unat (push_bit 4 h + of_nat (ord c)) = 16 * unat h + ord c"
    using assms ord_less_256 [of c]
    by (simp add: push_bit_eq_mult unat_word_ariths unat_of_nat mult.commute)
  have r: "unat (push_bit 4 (ucast h :: ulong) + of_nat (ord c)) = 16 * unat h + ord c"
    using assms ord_less_256 [of c]
    by (simp add: push_bit_eq_mult unat_word_ariths unat_of_nat unat_ucast_up mult.commute)
  have "push_bit 4 (ucast h :: ulong) + of_nat (ord c) = ucast (push_bit 4 h + of_nat (ord c))"
    by (simp add: word_unat_eq_iff r l unat_ucast_up)
  then show ?thesis by (simp add: pjw_step_fold ucast_pjw_fold)
qed

lemma pjw_fold_small: "unat (x :: 32 word) < 2 ^ 28 \<Longrightarrow> pjw_fold x = x"
proof -
  assume a: "unat x < 2 ^ 28"
  have "take_bit 28 x = x"
    using a by (simp add: word_unat_eq_iff unsigned_take_bit_eq take_bit_nat_eq_self)
  then have "x AND mask 28 = x" by (simp add: take_bit_eq_mask)
  then have "x AND NOT (mask 28) = 0" by (metis and.assoc bit.conj_cancel_right bit.conj_zero_right)
  then show ?thesis unfolding pjw_fold_def by simp
qed

lemma pjw_step_small: "16 * unat h + ord c < 2 ^ 28 \<Longrightarrow> unat (pjw_step (h :: 32 word) c) = 16 * unat h + ord c"
proof -
  assume a: "16 * unat h + ord c < 2 ^ 28"
  have "unat (push_bit 4 h + of_nat (ord c)) = 16 * unat h + ord c"
    using a ord_less_256 [of c]
    by (simp add: push_bit_eq_mult unat_word_ariths unat_of_nat mult.commute)
  then show ?thesis using a by (simp add: pjw_step_fold pjw_fold_small)
qed

text \<open>A string of at most five characters hashes to its base-16 value, which stays below \<open>17 * 16 ^ k\<close>.\<close>

lemma pjw_foldl_short:
  "length s \<le> 5 \<Longrightarrow>
     foldl pjw_step 0 s = (ucast (foldl pjw_step 0 s :: 32 word) :: ulong) \<and>
     unat (foldl pjw_step 0 s :: 32 word) + 17 \<le> 17 * 16 ^ length s"
proof (induction s rule: rev_induct)
  case (snoc c s)
  then have le: "unat (foldl pjw_step 0 s :: 32 word) + 17 \<le> 17 * 16 ^ length s"
    and eq: "foldl pjw_step 0 s = (ucast (foldl pjw_step 0 s :: 32 word) :: ulong)" by auto
  have "(16::nat) ^ length s \<le> 16 ^ 4" using snoc.prems by (intro power_increasing) auto
  then have "(16::nat) ^ length s \<le> 65536" by simp
  with le have "16 * unat (foldl pjw_step 0 s :: 32 word) + ord c < 268435456"
    using ord_less_256 [of c] by linarith
  moreover from le have "16 * unat (foldl pjw_step 0 s :: 32 word) + ord c + 17 \<le> 272 * 16 ^ length s"
    using ord_less_256 [of c] by linarith
  ultimately show ?case using eq by (simp add: pjw_step_small pjw_step_widths)
qed simp

lemma pjw_foldl_6: "length s \<le> 6 \<Longrightarrow> foldl pjw_step 0 s = (ucast (foldl pjw_step 0 s :: 32 word) :: ulong)"
proof (cases s rule: rev_cases)
  case (snoc t c)
  assume "length s \<le> 6"
  with snoc have l: "length t \<le> 5" by simp
  have "(16::nat) ^ length t \<le> 16 ^ 5" using l by (intro power_increasing) auto
  then have "(16::nat) ^ length t \<le> 1048576" by simp
  with pjw_foldl_short [OF l] have "16 * unat (foldl pjw_step 0 t :: 32 word) + ord c < 4294967296"
    using ord_less_256 [of c] by linarith
  with pjw_foldl_short [OF l] show ?thesis using snoc by (simp add: pjw_step_widths)
qed simp

lemma pjw_foldl_28: "unat (foldl pjw_step 0 s :: 32 word) < 2 ^ 28"
  by (cases s rule: rev_cases) (use pjw_fold_less in \<open>simp_all add: pjw_step_fold\<close>)

definition pjw_collide :: string where
  "pjw_collide = map char_of [0xf1::nat, 0xe0, 0xf0, 0xff, 0x0f, 0x0f, 0xfe]"

text \<open>
  the comment inside \<open>pjwhash32\<close> says that the code preserves exactly the same results on 64-bit
  systems as on 32-bit ones.  The 32-bit hash always fits in 28 bits and the two widths agree on every
  string of at most six characters; seven characters are enough for a carry out of bit 31, which the
  64-bit code folds back into the hash and the 32-bit code loses, so that the results differ.
\<close>

lemma pjwhash32_widths:
  "unat (pjwhash32n (Some s) :: 32 word) < 2 ^ 28 \<and>
   (length s \<le> 6 \<longrightarrow> pjwhash32n (Some s) = (ucast (pjwhash32n (Some s) :: 32 word) :: ulong)) \<and>
   pjwhash32 (Some pjw_collide) \<noteq> (ucast (pjwhash32 (Some pjw_collide) :: 32 word) :: ulong)"
proof -
  have "pjwhash32 (Some pjw_collide) = (0xee :: 32 word)" by code_simp
  moreover have "pjwhash32 (Some pjw_collide) = (0x1ee :: ulong)" by code_simp
  ultimately show ?thesis
    using pjw_foldl_28 pjw_foldl_6 by (simp add: pjwhash32n_def)
qed

lemma pjwhash32_widths_witness:
  "pjwhash32n (Some ''vipu'') = (ucast (pjwhash32n (Some ''vipu'') :: 32 word) :: ulong)"
  using pjwhash32_widths [of "''vipu''"] by simp

end
