(* ===== verification/Symbol.thy ===== *)
theory Symbol
  imports Splay Hash
begin

text \<open>
  The symbol table of \<^verbatim>\<open>lib/symbol.c\<close>: it maps a string to a unique key, the address of the
  \<open>struct syment\<close> that holds it, through a splay tree over the hash of the string.

  The block of a hash value carries the chain of its entries in \<open>next\<close> order; an entry is its address
  and its name, \<open>namelen\<close> being the length of the name.  The address that \<open>emalloc\<close> returns
  is an argument of the operations that allocate: the allocator promises an address that is not \<open>NULL\<close>
  and belongs to no live entry, and nothing else.
  The functions whose C name ends in an underscore and that take the choice of the hash as an argument
  are the ones ending in \<open>_u\<close>.
  The theorems show that the table is a partial injective map from names to addresses, that interning
  is idempotent, and what \<open>pname\<close>, \<open>symbol_free_db\<close> and \<open>symbol_null_db\<close> do to it.
\<close>

section \<open>Data\<close>

record syment =
  se_addr :: addr
  se_name :: string

type_synonym symtab = "(ulong, syment list) sptree"

section \<open>Operations\<close>

definition CRCorNOT :: bool where
  "CRCorNOT = True"

definition sym_hash :: "bool \<Rightarrow> string \<Rightarrow> ulong" where
  "sym_hash usecrc s = (if usecrc then crc32n s else pjwhash32n (Some s))"

text \<open>The loop over a collision chain.\<close>

fun chain_find :: "string \<Rightarrow> syment list \<Rightarrow> addr option" where
  "chain_find s [] = None"
| "chain_find s (se # next) =
     (if length (se_name se) = length s \<and> se_name se = s then Some (se_addr se) else chain_find s next)"

definition symbol_lookup_db_mem_u :: "string option \<Rightarrow> symtab \<Rightarrow> bool \<Rightarrow> addr \<times> symtab" where
  "symbol_lookup_db_mem_u sp spt usecrc =
     (case sp of
        None \<Rightarrow> (0, spt)
      | Some s \<Rightarrow>
          (case sp_lookup (sym_hash usecrc s) spt of
             (None, spt) \<Rightarrow> (0, spt)
           | (Some (chain, _), spt) \<Rightarrow>
               (case chain_find s chain of Some a \<Rightarrow> (a, spt) | None \<Rightarrow> (0, spt))))"

definition symbol_lookup_db_mem :: "string option \<Rightarrow> symtab \<Rightarrow> addr \<times> symtab" where
  "symbol_lookup_db_mem s spt = symbol_lookup_db_mem_u s spt CRCorNOT"

text \<open>
  \<open>spl->data = d\<close> for the block that the preceding \<open>sp_lookup\<close> returned, which is at the root.  The
  assignment \<open>pe->next = se\<close> to the last entry of a chain is the same update with the chain extended.
\<close>

definition sp_set_data :: "'a \<Rightarrow> ('k, 'a) sptree \<Rightarrow> ('k, 'a) sptree" where
  "sp_set_data d q = q\<lparr>root := set_root d (spmark (root q)) (root q)\<rparr>"

definition symbol_db_mem_u :: "addr \<Rightarrow> string option \<Rightarrow> symtab \<Rightarrow> bool \<Rightarrow> addr \<times> symtab" where
  "symbol_db_mem_u new sp spt usecrc =
     (case sp of
        None \<Rightarrow> (0, spt)
      | Some s \<Rightarrow>
          (let key = sym_hash usecrc s; se = \<lparr>se_addr = new, se_name = s\<rparr>
           in case sp_lookup key spt of
                (None, spt) \<Rightarrow> (new, sp_install key [se] 0 spt)
              | (Some (chain, _), spt) \<Rightarrow>
                  (case chain_find s chain of
                     Some a \<Rightarrow> (a, spt)
                   | None \<Rightarrow> (new, sp_set_data (chain @ [se]) spt))))"

definition symbol_db_mem :: "addr \<Rightarrow> string option \<Rightarrow> symtab \<Rightarrow> addr \<times> symtab" where
  "symbol_db_mem new s spt = symbol_db_mem_u new s spt CRCorNOT"

text \<open>Unlinking the first entry with the given name from a chain.\<close>

fun chain_free :: "string \<Rightarrow> syment list \<Rightarrow> syment list" where
  "chain_free s [] = []"
| "chain_free s (se # next) =
     (if length (se_name se) = length s \<and> se_name se = s then next else se # chain_free s next)"

definition symbol_free_db_mem_u :: "string option \<Rightarrow> symtab option \<Rightarrow> bool \<Rightarrow> symtab option" where
  "symbol_free_db_mem_u sp sptp usecrc =
     (case (sp, sptp) of
        (Some s, Some spt) \<Rightarrow>
          (let key = sym_hash usecrc s
           in case sp_lookup key spt of
                (None, spt) \<Rightarrow> Some spt
              | (Some (chain, _), spt) \<Rightarrow>
                  (let data = chain_free s chain; spt = sp_set_data data spt
                   in if data = [] then sp_delete key spt else Some spt))
      | _ \<Rightarrow> sptp)"

definition symbol_free_db_mem :: "string option \<Rightarrow> symtab option \<Rightarrow> symtab option" where
  "symbol_free_db_mem s spt = symbol_free_db_mem_u s spt CRCorNOT"

text \<open>The part of a C string before its NUL, whose length is \<open>strlen\<close>.\<close>

definition cstr :: "string \<Rightarrow> string" where
  "cstr s = takeWhile (\<lambda>c. c \<noteq> NUL) s"

definition symbol_free_db :: "string option \<Rightarrow> symtab option \<Rightarrow> symtab option" where
  "symbol_free_db s spt =
     (if s = None \<or> spt = None then spt else symbol_free_db_mem (map_option cstr s) spt)"

definition symbol_lookup_db :: "string option \<Rightarrow> symtab \<Rightarrow> addr \<times> symtab" where
  "symbol_lookup_db s spt =
     (if s = None then (0, spt) else symbol_lookup_db_mem (map_option cstr s) spt)"

definition symbol_db :: "addr \<Rightarrow> string option \<Rightarrow> symtab \<Rightarrow> addr \<times> symtab" where
  "symbol_db new s spt =
     (if s = None then (0, spt) else symbol_db_mem new (map_option cstr s) spt)"

text \<open>The default table \<open>spt_symtab\<close> is created on first use.\<close>

definition symbol :: "addr \<Rightarrow> string option \<Rightarrow> symtab option \<Rightarrow> addr \<times> symtab option" where
  "symbol new s spt_symtab =
     (let spt = (case spt_symtab of None \<Rightarrow> sp_init | Some spt \<Rightarrow> spt);
          (a, spt) = symbol_db new s spt
      in (a, Some spt))"

definition symbol_lookup :: "string option \<Rightarrow> symtab option \<Rightarrow> addr \<times> symtab option" where
  "symbol_lookup s spt_symtab =
     (let spt = (case spt_symtab of None \<Rightarrow> sp_init | Some spt \<Rightarrow> spt);
          (a, spt) = symbol_lookup_db s spt
      in (a, Some spt))"

text \<open>\<open>symbol_null\<close> frees the entries of one block; the addresses freed are collected in order.\<close>

definition symbol_null :: "ulong \<Rightarrow> syment list \<Rightarrow> int \<Rightarrow> addr list \<Rightarrow> addr list" where
  "symbol_null key chain mark freed = freed @ map se_addr chain"

text \<open>
  \<open>symbol_null_db\<close> on a table given by the caller, or on \<open>spt_symtab\<close> when the caller passes \<open>NULL\<close>:
  the addresses freed, the caller's table and \<open>spt_symtab\<close>.
\<close>

definition symbol_null_db :: "symtab option \<Rightarrow> symtab option \<Rightarrow> addr list \<times> symtab option \<times> symtab option" where
  "symbol_null_db sptp spt_symtab =
     (case (sptp, spt_symtab) of
        (None, None) \<Rightarrow> ([], None, None)
      | (None, Some spt) \<Rightarrow> (sp_scan symbol_null (sp_fhead spt) [], None, Some (sp_null spt))
      | (Some spt, _) \<Rightarrow> (sp_scan symbol_null (sp_fhead spt) [], Some (sp_null spt), spt_symtab))"

text \<open>
  \<open>pname\<close> reads the name at an address, \<open>None\<close> standing for an address that is no live entry of the
  table, where the C code reads released memory.
\<close>

definition sym_entries :: "symtab \<Rightarrow> syment list" where
  "sym_entries spt = concat (map (\<lambda>(k, chain, m). chain) (inorder (root spt)))"

definition pname :: "addr \<Rightarrow> symtab \<Rightarrow> string option" where
  "pname i spt = map_option (\<lambda>se. cstr (se_name se)) (find (\<lambda>se. se_addr se = i) (sym_entries spt))"


section \<open>The table as a map from names to addresses\<close>

definition sym_table :: "bool \<Rightarrow> symtab \<Rightarrow> string \<rightharpoonup> addr" where
  "sym_table u q s =
     (case sp_contents q (sym_hash u s) of None \<Rightarrow> None | Some (chain, m) \<Rightarrow> chain_find s chain)"

definition chain_ok :: "bool \<Rightarrow> ulong \<Rightarrow> syment list \<Rightarrow> bool" where
  "chain_ok u k chain \<longleftrightarrow> chain \<noteq> [] \<and> distinct (map se_name chain) \<and>
     (\<forall>se\<in>set chain. sym_hash u (se_name se) = k \<and> se_addr se \<noteq> 0)"

definition chains_ok :: "bool \<Rightarrow> (ulong \<rightharpoonup> syment list \<times> int) \<Rightarrow> bool" where
  "chains_ok u C \<longleftrightarrow> (\<forall>k chain m. C k = Some (chain, m) \<longrightarrow> chain_ok u k chain)"

text \<open>The addresses of the live entries are those the table maps names to.\<close>

definition sym_live :: "bool \<Rightarrow> symtab \<Rightarrow> addr set" where
  "sym_live u q = ran (sym_table u q)"

definition sym_invar :: "bool \<Rightarrow> symtab \<Rightarrow> bool" where
  "sym_invar u q \<longleftrightarrow> sp_invar q \<and> chains_ok u (sp_contents q) \<and>
     inj_on (sym_table u q) (dom (sym_table u q))"

lemma chain_find_None: "chain_find s chain = None \<longleftrightarrow> s \<notin> se_name ` set chain"
  by (induction chain) auto

lemma chain_find_mem: "chain_find s chain = Some a \<Longrightarrow> \<exists>se\<in>set chain. se_name se = s \<and> se_addr se = a"
  by (induction chain) (auto split: if_splits)

lemma chain_find_distinct:
  "distinct (map se_name chain) \<Longrightarrow> se \<in> set chain \<Longrightarrow> chain_find (se_name se) chain = Some (se_addr se)"
  by (induction chain) (auto simp: image_iff)

lemma chain_find_append:
  "chain_find s (chain @ [se]) =
     (case chain_find s chain of Some a \<Rightarrow> Some a | None \<Rightarrow> if se_name se = s then Some (se_addr se) else None)"
  by (induction chain) auto

lemma chain_find_free:
  "distinct (map se_name chain) \<Longrightarrow>
     chain_find t (chain_free s chain) = (if t = s then None else chain_find t chain)"
proof (induction chain)
  case (Cons se ses)
  then have "chain_find (se_name se) ses = None" by (simp add: chain_find_None)
  with Cons show ?case by auto
qed simp

lemma set_chain_free: "set (chain_free s chain) \<subseteq> set chain"
  by (induction chain) auto

lemma distinct_chain_free: "distinct (map se_name chain) \<Longrightarrow> distinct (map se_name (chain_free s chain))"
  using set_chain_free by (induction chain) fastforce+

lemma chain_free_same: "chain_find s chain = None \<Longrightarrow> chain_free s chain = chain"
  by (induction chain) auto

text \<open>Overwriting the data of the block just looked up is an install of its key.\<close>

lemma sp_set_data_install:
  assumes "sp_lookup key q = (Some (d0, m), q')" "sp_invar q"
  shows "sp_set_data d q' = sp_install key d m q"
proof (cases rule: sp_lookup_cases [OF assms(2), of key, case_names miss hit])
  case (hit d0' m0 q'' l r)
  with assms show ?thesis by (simp add: sp_set_data_def sp_install_def)
qed (use assms in simp)

lemma sym_table_upd:
  assumes "sp_contents q' = (sp_contents q)(sym_hash u s \<mapsto> (chain', m))"
    and "\<And>t. sym_hash u t = sym_hash u s \<Longrightarrow>
       chain_find t chain' = (if t = s then v else sym_table u q t)"
  shows "sym_table u q' = (sym_table u q)(s := v)"
proof
  fix t show "sym_table u q' t = ((sym_table u q)(s := v)) t"
    using assms by (cases "sym_hash u t = sym_hash u s") (auto simp: sym_table_def)
qed

lemma chains_ok_upd:
  "chains_ok u C \<Longrightarrow> chain_ok u k chain \<Longrightarrow> chains_ok u (C(k \<mapsto> (chain, m)))"
  by (auto simp: chains_ok_def)

lemma inj_map_upd:
  "inj_on T (dom T) \<Longrightarrow> a \<notin> ran T \<Longrightarrow> inj_on (T(s \<mapsto> a)) (dom (T(s \<mapsto> a)))"
  by (auto simp: inj_on_def dom_def ran_def)

lemma inj_map_del: "inj_on T (dom T) \<Longrightarrow> inj_on (T(s := None)) (dom (T(s := None)))"
  by (auto simp: inj_on_def dom_def)

lemma sym_table_addr: "sym_invar u q \<Longrightarrow> sym_table u q s = Some a \<Longrightarrow> a \<noteq> 0"
  by (auto simp: sym_invar_def sym_table_def chains_ok_def chain_ok_def split: option.splits
      dest!: chain_find_mem)

lemma sym_invar_contents:
  "sp_contents q' = sp_contents q \<Longrightarrow> sp_invar q' \<Longrightarrow> sym_invar u q \<Longrightarrow>
     sym_invar u q' \<and> sym_table u q' = sym_table u q"
proof -
  assume a: "sp_contents q' = sp_contents q" "sp_invar q'" "sym_invar u q"
  have "sym_table u q' = sym_table u q" unfolding sym_table_def a(1) ..
  with a show ?thesis by (simp add: sym_invar_def)
qed

section \<open>What the operations do to the map\<close>

lemma symbol_lookup_u_spec:
  assumes q: "sym_invar u q" and r: "symbol_lookup_db_mem_u (Some s) q u = (a, q')"
  shows "a = (case sym_table u q s of None \<Rightarrow> 0 | Some a \<Rightarrow> a) \<and> sym_table u q' = sym_table u q \<and> sym_invar u q'"
proof -
  have "sp_invar q" using q by (simp add: sym_invar_def)
  note l = sp_lookup_spec [OF this, of "sym_hash u s"]
  have "q' = snd (sp_lookup (sym_hash u s) q)"
    using r by (auto simp: symbol_lookup_db_mem_u_def split: option.splits prod.splits)
  moreover have "a = (case sym_table u q s of None \<Rightarrow> 0 | Some a \<Rightarrow> a)"
    using r l by (auto simp: symbol_lookup_db_mem_u_def sym_table_def split: option.splits prod.splits)
  ultimately show ?thesis using sym_invar_contents l q by blast
qed

lemma symbol_db_u_spec:
  assumes q: "sym_invar u q" and new: "new \<noteq> 0" "new \<notin> sym_live u q"
    and r: "symbol_db_mem_u new (Some s) q u = (a, q')"
  shows "a = (case sym_table u q s of None \<Rightarrow> new | Some a \<Rightarrow> a) \<and> sym_table u q' = (sym_table u q)(s \<mapsto> a) \<and>
    sym_invar u q'"
proof -
  let ?k = "sym_hash u s" and ?se = "\<lparr>se_addr = new, se_name = s\<rparr>"
  have inv: "sp_invar q" and ok: "chains_ok u (sp_contents q)" using q by (auto simp: sym_invar_def)
  note l = sp_lookup_spec [OF inv, of ?k]
  have fresh: "inj_on ((sym_table u q)(s \<mapsto> new)) (dom ((sym_table u q)(s \<mapsto> new)))"
    using inj_map_upd [of "sym_table u q" new s] q new(2) by (simp add: sym_invar_def sym_live_def)
  obtain v q1 where lk: "sp_lookup ?k q = (v, q1)" by fastforce
  show ?thesis
  proof (cases v)
    case None
    let ?q = "sp_install ?k [?se] 0 q1"
    have e: "(a, q') = (new, ?q)" using r lk None by (auto simp: symbol_db_mem_u_def Let_def)
    have c: "sp_contents ?q = (sp_contents q)(?k \<mapsto> ([?se], 0))" "sp_invar ?q"
      using sp_install_spec l lk by force+
    have n: "sp_contents q ?k = None" using l lk None by simp
    then have t: "sym_table u ?q = (sym_table u q)(s \<mapsto> new)"
      using sym_table_upd [OF c(1)] by (simp add: sym_table_def)
    have "chains_ok u (sp_contents ?q)"
      unfolding c(1) using ok new(1) by (intro chains_ok_upd) (auto simp: chain_ok_def)
    then show ?thesis using e t c(2) n fresh by (simp add: sym_invar_def sym_table_def)
  next
    case (Some cm)
    then obtain chain m where cm: "v = Some (chain, m)" by (cases cm) auto
    have n: "sp_contents q ?k = Some (chain, m)" using l lk cm by simp
    then have ck: "chain_ok u ?k chain" using ok by (simp add: chains_ok_def)
    have tf: "sym_table u q t = chain_find t chain" if "sym_hash u t = ?k" for t
      using n that by (simp add: sym_table_def)
    show ?thesis
    proof (cases "chain_find s chain")
      case None
      let ?q = "sp_install ?k (chain @ [?se]) m q"
      have e: "(a, q') = (new, ?q)"
        using r lk cm None sp_set_data_install [OF _ inv, of ?k chain m q1]
        by (auto simp: symbol_db_mem_u_def Let_def)
      have c: "sp_contents ?q = (sp_contents q)(?k \<mapsto> (chain @ [?se], m))" "sp_invar ?q"
        using sp_install_spec [OF inv] by auto
      have t: "sym_table u ?q = (sym_table u q)(s \<mapsto> new)"
        by (rule sym_table_upd [OF c(1)]) (auto simp: tf None chain_find_append split: option.split)
      have "chain_ok u ?k (chain @ [?se])"
        using ck None new(1) by (auto simp: chain_ok_def chain_find_None)
      then have "chains_ok u (sp_contents ?q)" unfolding c(1) using ok by (intro chains_ok_upd)
      then show ?thesis using e t c(2) None tf [of s] fresh by (simp add: sym_invar_def)
    next
      case (Some b)
      have e: "(a, q') = (b, q1)" using r lk cm Some by (simp add: symbol_db_mem_u_def Let_def)
      have "sym_invar u q1 \<and> sym_table u q1 = sym_table u q" using sym_invar_contents l lk q by simp
      then show ?thesis using e tf [of s] Some by (auto simp: fun_upd_idem)
    qed
  qed
qed

lemma symbol_free_u_spec:
  assumes q: "sym_invar u q"
  shows "\<exists>q'. symbol_free_db_mem_u (Some s) (Some q) u = Some q' \<and>
    sym_table u q' = (sym_table u q)(s := None) \<and> sym_invar u q'"
proof -
  let ?k = "sym_hash u s"
  have inv: "sp_invar q" and ok: "chains_ok u (sp_contents q)" using q by (auto simp: sym_invar_def)
  note l = sp_lookup_spec [OF inv, of ?k]
  obtain v q1 where lk: "sp_lookup ?k q = (v, q1)" by fastforce
  have inj: "inj_on ((sym_table u q)(s := None)) (dom ((sym_table u q)(s := None)))"
    using q unfolding sym_invar_def by (blast intro: inj_map_del)
  show ?thesis
  proof (cases v)
    case None
    have "sym_table u q s = None" using l lk None by (simp add: sym_table_def)
    then show ?thesis using lk None l q sym_invar_contents [of q1 q u]
      by (simp add: symbol_free_db_mem_u_def fun_upd_idem)
  next
    case (Some cm)
    then obtain chain m where cm: "v = Some (chain, m)" by (cases cm) auto
    have n: "sp_contents q ?k = Some (chain, m)" using l lk cm by simp
    then have ck: "chain_ok u ?k chain" using ok by (simp add: chains_ok_def)
    have tf: "sym_table u q t = chain_find t chain" if "sym_hash u t = ?k" for t
      using n that by (simp add: sym_table_def)
    let ?d = "chain_free s chain" and ?q = "sp_install ?k (chain_free s chain) m q"
    have c: "sp_contents ?q = (sp_contents q)(?k \<mapsto> (?d, m))" "sp_invar ?q"
      using sp_install_spec [OF inv] by auto
    have t: "sym_table u ?q = (sym_table u q)(s := None)"
      by (rule sym_table_upd [OF c(1)]) (use ck in \<open>auto simp: tf chain_find_free chain_ok_def\<close>)
    have set: "sp_set_data ?d q1 = ?q" using sp_set_data_install [OF _ inv, of ?k chain m q1] lk cm by simp
    show ?thesis
    proof (cases "?d = []")
      case True
      from c obtain q2 where q2: "sp_delete ?k ?q = Some q2"
        using sp_delete_defined [OF c(2), of ?k] by auto
      have c2: "sp_contents q2 = (sp_contents q)(?k := None)" "sp_invar q2"
        using sp_delete_spec [OF c(2) q2] c(1) by auto
      have "sym_table u q2 = sym_table u ?q" using c c2 True by (auto simp: sym_table_def fun_eq_iff)
      moreover have "chains_ok u (sp_contents q2)" using ok c2 by (auto simp: chains_ok_def)
      ultimately show ?thesis
        using q2 lk cm set True t c2(2) inj by (simp add: symbol_free_db_mem_u_def Let_def sym_invar_def)
    next
      case False
      have "chain_ok u ?k ?d"
        using ck False set_chain_free [of s chain] by (auto simp: chain_ok_def distinct_chain_free)
      then have "chains_ok u (sp_contents ?q)" unfolding c(1) using ok by (intro chains_ok_upd)
      then show ?thesis
        using lk cm set False t c(2) inj by (simp add: symbol_free_db_mem_u_def Let_def sym_invar_def)
    qed
  qed
qed


text \<open>The symbol table provides the interning its clients rely on.\<close>

interpretation symint: interning "\<lambda>new s q. symbol_db_mem_u new (Some s) q u"
    "\<lambda>s q. symbol_lookup_db_mem_u (Some s) q u" "\<lambda>s q. symbol_free_db_mem_u (Some s) (Some q) u"
    "sym_table u" "sym_invar u" for u
proof (unfold_locales, goal_cases)
  case (1 q new s a q')
  then show ?case using symbol_db_u_spec unfolding sym_live_def by blast
next
  case (2 q s a q')
  then show ?case using symbol_lookup_u_spec by blast
next
  case (3 q s)
  then show ?case by (rule symbol_free_u_spec)
next
  case (4 q)
  then show ?case by (simp add: sym_invar_def)
next
  case (5 q s a)
  then show ?case by (rule sym_table_addr)
qed

section \<open>Entries and their addresses\<close>

lemma sym_entries_contents:
  assumes "sp_invar q"
  shows "se \<in> set (sym_entries q) \<longleftrightarrow> (\<exists>k chain m. sp_contents q k = Some (chain, m) \<and> se \<in> set chain)"
proof -
  have "distinct (map fst (inorder (root q)))"
    using assms by (simp add: sp_invar_def sorted_keys_distinct)
  then have "(k, chain, m) \<in> set (inorder (root q)) \<longleftrightarrow> sp_contents q k = Some (chain, m)" for k chain m
    by (simp add: sp_contents_def)
  then show ?thesis unfolding sym_entries_def by fastforce
qed

lemma sym_entries_table:
  assumes q: "sym_invar u q"
  shows "se \<in> set (sym_entries q) \<longleftrightarrow> sym_table u q (se_name se) = Some (se_addr se)"
proof
  have ok: "chains_ok u (sp_contents q)" and inv: "sp_invar q" using q by (auto simp: sym_invar_def)
  show "sym_table u q (se_name se) = Some (se_addr se)" if "se \<in> set (sym_entries q)"
  proof -
    from that obtain k chain m where c: "sp_contents q k = Some (chain, m)" "se \<in> set chain"
      by (auto simp: sym_entries_contents [OF inv])
    then have "chain_ok u k chain" using ok unfolding chains_ok_def by blast
    then show ?thesis using c by (auto simp: sym_table_def chain_ok_def chain_find_distinct)
  qed
  show "se \<in> set (sym_entries q)" if "sym_table u q (se_name se) = Some (se_addr se)"
  proof -
    from that obtain chain m where c: "sp_contents q (sym_hash u (se_name se)) = Some (chain, m)"
      "chain_find (se_name se) chain = Some (se_addr se)"
      by (auto simp: sym_table_def split: option.splits)
    then obtain se' where "se' \<in> set chain" "se_name se' = se_name se" "se_addr se' = se_addr se"
      using chain_find_mem by blast
    moreover from this(2,3) have "se' = se" by simp
    ultimately show ?thesis using c by (auto simp: sym_entries_contents [OF inv])
  qed
qed

lemma distinct_chains:
  "distinct (map fst xs) \<Longrightarrow> (\<And>k chain m. (k, chain, m) \<in> set xs \<Longrightarrow> distinct chain \<and> (\<forall>se\<in>set chain. f se = k)) \<Longrightarrow>
     distinct (concat (map (\<lambda>(k, chain, m). chain) xs))"
proof (induction xs)
  case (Cons x xs)
  obtain k chain m where x: "x = (k, chain, m)" by (cases x)
  have "set chain \<inter> set (concat (map (\<lambda>(k, chain, m). chain) xs)) = {}"
    using Cons.prems x by (auto dest!: Cons.prems(2)) (metis Cons.prems(2) fst_conv imageI list.set_intros)
  then show ?case using Cons x by fastforce
qed simp

lemma sym_entries_distinct:
  assumes q: "sym_invar u q"
  shows "distinct (map se_addr (sym_entries q))"
proof -
  have d: "distinct (map fst (inorder (root q)))"
    using q by (simp add: sym_invar_def sp_invar_def sorted_keys_distinct)
  have "distinct (sym_entries q)"
    unfolding sym_entries_def
  proof (rule distinct_chains [OF d, of "\<lambda>se. sym_hash u (se_name se)"])
    fix k chain m assume "(k, chain, m) \<in> set (inorder (root q))"
    then have "sp_contents q k = Some (chain, m)" using d by (simp add: sp_contents_def)
    then have "chain_ok u k chain" using q by (simp add: sym_invar_def chains_ok_def)
    then show "distinct chain \<and> (\<forall>se\<in>set chain. sym_hash u (se_name se) = k)"
      by (auto simp: chain_ok_def distinct_map)
  qed
  moreover have "inj_on se_addr (set (sym_entries q))"
  proof (rule inj_onI)
    fix x y assume "x \<in> set (sym_entries q)" "y \<in> set (sym_entries q)" "se_addr x = se_addr y"
    then have "se_name x = se_name y"
      using q by (auto simp: sym_entries_table [OF q] sym_invar_def inj_on_def dom_def)
    then show "x = y" using \<open>se_addr x = se_addr y\<close> by simp
  qed
  ultimately show ?thesis by (simp add: distinct_map)
qed

lemma sym_entries_live: "sym_invar u q \<Longrightarrow> set (map se_addr (sym_entries q)) = sym_live u q"
proof -
  assume q: "sym_invar u q"
  have "a \<in> se_addr ` set (sym_entries q)" if "sym_table u q s = Some a" for a s
    using that sym_entries_table [OF q, of "\<lparr>se_addr = a, se_name = s\<rparr>"] by force
  then show ?thesis
    using sym_entries_table [OF q] by (auto simp: sym_live_def ran_def)
qed

lemma pname_table:
  assumes q: "sym_invar u q" and t: "sym_table u q s = Some a"
  shows "pname a q = Some (cstr s)"
proof -
  have "\<lparr>se_addr = a, se_name = s\<rparr> \<in> set (sym_entries q)" using t sym_entries_table [OF q] by simp
  then obtain se where f: "find (\<lambda>se. se_addr se = a) (sym_entries q) = Some se"
    by (cases "find (\<lambda>se. se_addr se = a) (sym_entries q)") (auto simp: find_None_iff)
  then have "se \<in> set (sym_entries q)" "se_addr se = a" by (auto simp: find_Some_iff)
  then have "sym_table u q (se_name se) = sym_table u q s" using t sym_entries_table [OF q] by simp
  then have "se_name se = s" using q t by (auto simp: sym_invar_def inj_on_def dom_def)
  with f show ?thesis by (simp add: pname_def)
qed

lemma sp_scan_symbol_null:
  "sp_scan symbol_null (sp_fhead q) [] = map se_addr (sym_entries q)"
proof -
  have "fold (\<lambda>(k, d, m). symbol_null k d m) xs fr = fr @ map se_addr (concat (map (\<lambda>(k, chain, m). chain) xs))"
    for xs fr
    by (induction xs arbitrary: fr) (auto simp: symbol_null_def)
  then show ?thesis by (simp add: sp_scan_fold sp_fhead_remaining sym_entries_def)
qed


section \<open>Properties\<close>

text \<open>The tables that the interface can build, whatever unused addresses the allocator returns.\<close>

inductive sym_reachable :: "symtab \<Rightarrow> bool" where
  sym_reach_init: "sym_reachable sp_init"
| sym_reach_db: "sym_reachable q \<Longrightarrow> new \<noteq> 0 \<Longrightarrow> new \<notin> sym_live CRCorNOT q \<Longrightarrow>
    symbol_db new s q = (a, q') \<Longrightarrow> sym_reachable q'"
| sym_reach_lookup: "sym_reachable q \<Longrightarrow> symbol_lookup_db s q = (a, q') \<Longrightarrow> sym_reachable q'"
| sym_reach_free: "sym_reachable q \<Longrightarrow> symbol_free_db s (Some q) = Some q' \<Longrightarrow> sym_reachable q'"
| sym_reach_null: "sym_reachable q \<Longrightarrow> symbol_null_db (Some q) g = (freed, Some q', g') \<Longrightarrow> sym_reachable q'"

lemma symbol_db_Some: "symbol_db new (Some s) q = symbol_db_mem_u new (Some (cstr s)) q CRCorNOT"
  by (simp add: symbol_db_def symbol_db_mem_def)

lemma symbol_lookup_db_Some: "symbol_lookup_db (Some s) q = symbol_lookup_db_mem_u (Some (cstr s)) q CRCorNOT"
  by (simp add: symbol_lookup_db_def symbol_lookup_db_mem_def)

lemma symbol_free_db_Some:
  "symbol_free_db (Some s) (Some q) = symbol_free_db_mem_u (Some (cstr s)) (Some q) CRCorNOT"
  by (simp add: symbol_free_db_def symbol_free_db_mem_def)

lemmas symbol_db_unfold = symbol_db_Some symbol_lookup_db_Some symbol_free_db_Some

lemma sym_invar_empty: "sp_contents q = Map.empty \<Longrightarrow> sp_invar q \<Longrightarrow> sym_invar u q \<and> sym_table u q = Map.empty"
proof -
  assume a: "sp_contents q = Map.empty" "sp_invar q"
  have "sym_table u q = Map.empty" unfolding sym_table_def a(1) by simp
  with a show ?thesis by (simp add: sym_invar_def chains_ok_def)
qed

lemma sym_init: "sym_invar u sp_init" "sym_table u sp_init = Map.empty"
  using sym_invar_empty [of sp_init u] sp_init_spec by blast+

lemma sym_reachable_invar: "sym_reachable q \<Longrightarrow> sym_invar CRCorNOT q"
proof (induction rule: sym_reachable.induct)
  case sym_reach_init
  then show ?case by (rule sym_init)
next
  case (sym_reach_db q new s a q')
  then show ?case
    using symbol_db_u_spec [of CRCorNOT q new] by (cases s) (simp add: symbol_db_def, auto simp only: symbol_db_Some)
next
  case (sym_reach_lookup q s a q')
  then show ?case
    using symbol_lookup_u_spec [of CRCorNOT q]
    by (cases s) (simp add: symbol_lookup_db_def, auto simp only: symbol_lookup_db_Some)
next
  case (sym_reach_free q s q')
  then show ?case
  proof (cases s)
    case (Some t)
    then show ?thesis using sym_reach_free symbol_free_u_spec [of CRCorNOT q "cstr t"] by (auto simp: symbol_free_db_Some)
  qed (simp add: symbol_free_db_def)
next
  case (sym_reach_null q g freed q' g')
  then have "sp_invar q" "q' = sp_null q" by (auto simp: sym_invar_def symbol_null_db_def)
  then show ?case using sp_null_spec sym_invar_empty by blast
qed

lemma cstr_idem [simp]: "cstr (cstr s) = cstr s"
  by (simp add: cstr_def)

lemma cstr_id: "NUL \<notin> set s \<Longrightarrow> cstr s = s"
  by (auto simp: cstr_def takeWhile_eq_all_conv)

text \<open>
  C8: Interning is sound.  In every reachable table, whatever unused addresses the allocator returns,
  interning two strings gives the same key exactly when the strings are equal (up to their first NUL);
  the key is never 0, \<open>pname\<close> of the key gives the string back, and a later lookup of the first string
  still returns its key.  The hash only distributes the names over chains: collisions never merge names.
\<close>

theorem symbol_interning:
  assumes "sym_reachable q" and "new \<noteq> 0" "new \<notin> sym_live CRCorNOT q" "symbol_db new (Some s) q = (a, q')"
    and "new' \<noteq> 0" "new' \<notin> sym_live CRCorNOT q'" "symbol_db new' (Some t) q' = (b, q'')"
  shows "(a = b \<longleftrightarrow> cstr s = cstr t) \<and> a \<noteq> 0 \<and> pname a q'' = Some (cstr s) \<and> pname b q'' = Some (cstr t) \<and>
    fst (symbol_lookup_db (Some s) q'') = a"
proof -
  have q: "sym_invar CRCorNOT q" by (rule sym_reachable_invar [OF assms(1)])
  have s: "symbol_db_mem_u new (Some (cstr s)) q CRCorNOT = (a, q')"
    and t: "symbol_db_mem_u new' (Some (cstr t)) q' CRCorNOT = (b, q'')"
    using assms(4,7) by (simp_all add: symbol_db_Some)
  have 1: "a = b \<longleftrightarrow> cstr s = cstr t"
    by (rule symint.intern_injective [OF q assms(2) assms(3) [unfolded sym_live_def] s assms(5)
          assms(6) [unfolded sym_live_def] t])
  have T1: "sym_table CRCorNOT q' = (sym_table CRCorNOT q)(cstr s \<mapsto> a)" and q': "sym_invar CRCorNOT q'"
    using symbol_db_u_spec [OF q assms(2,3) s] by auto
  have T2: "sym_table CRCorNOT q'' = (sym_table CRCorNOT q')(cstr t \<mapsto> b)" and q'': "sym_invar CRCorNOT q''"
    using symbol_db_u_spec [OF q' assms(5,6) t] by auto
  have A: "sym_table CRCorNOT q'' (cstr s) = Some a" and B: "sym_table CRCorNOT q'' (cstr t) = Some b"
    using T1 T2 1 by auto
  show ?thesis
    using 1 pname_table [OF q'' A] pname_table [OF q'' B] sym_table_addr [OF q'' A]
      symint.lookup_fst [OF q'', of "cstr s"] A by (simp add: symbol_lookup_db_Some)
qed

text \<open>A table with one name, for the witnesses.\<close>

definition sym_example :: symtab where
  "sym_example = snd (symbol_db 4096 (Some ''smtp'') sp_init)"

lemma sym_example_db: "symbol_db 4096 (Some ''smtp'') sp_init = (4096, sym_example)"
  by (simp add: sym_example_def symbol_db_Some symbol_db_mem_u_def sp_lookup_def sp_init_def Let_def)

lemma sym_live_init: "sym_live CRCorNOT sp_init = {}"
  by (simp add: sym_live_def sym_init)

lemma sym_example_reachable: "sym_reachable sym_example"
  using sym_reach_db [OF sym_reach_init _ _ sym_example_db] by (simp add: sym_live_init)

lemma sym_example_live: "sym_live CRCorNOT sym_example = {4096}"
proof -
  have "sym_table CRCorNOT sym_example = [''smtp'' \<mapsto> 4096]"
    using symbol_db_u_spec [OF sym_reachable_invar [OF sym_reach_init], of 4096 "cstr ''smtp''" 4096 sym_example]
      sym_example_db sym_live_init
    by (simp add: symbol_db_Some cstr_def sym_init)
  then show ?thesis by (simp add: sym_live_def)
qed

theorem symbol_interning_witness:
  "\<exists>b q''. symbol_db 8192 (Some ''local'') sym_example = (b, q'') \<and> b \<noteq> 4096 \<and> pname b q'' = Some ''local'' \<and>
     pname 4096 q'' = Some ''smtp''"
proof -
  obtain b q'' where e: "symbol_db 8192 (Some ''local'') sym_example = (b, q'')" by fastforce
  show ?thesis
    using symbol_interning [OF sym_reach_init, of 4096 "''smtp''" 4096 sym_example 8192 "''local''" b q'']
      e sym_example_db sym_live_init sym_example_live by (auto simp: cstr_def)
qed

text \<open>
  Freeing a name removes exactly that name.  On every reachable table \<open>symbol_free_db\<close> succeeds (the
  block it deletes when a chain becomes empty is in the tree), a later lookup of the name returns 0 and a
  lookup of any other name returns what it returned before.
\<close>

lemma symbol_free_removes_one:
  assumes "sym_reachable q"
  shows "\<exists>q'. symbol_free_db (Some s) (Some q) = Some q' \<and>
    (\<forall>t. fst (symbol_lookup_db (Some t) q') =
       (if cstr t = cstr s then 0 else fst (symbol_lookup_db (Some t) q)))"
proof -
  have q: "sym_invar CRCorNOT q" by (rule sym_reachable_invar [OF assms])
  from symbol_free_u_spec [OF q, of "cstr s"] obtain q'
    where "symbol_free_db_mem_u (Some (cstr s)) (Some q) CRCorNOT = Some q'" by blast
  with symint.free_lookup [OF q this] show ?thesis by (simp add: symbol_db_unfold)
qed

lemma symbol_free_removes_one_witness:
  "\<exists>q'. symbol_free_db (Some ''smtp'') (Some sym_example) = Some q' \<and>
     fst (symbol_lookup_db (Some ''smtp'') q') = 0"
  using symbol_free_removes_one [OF sym_example_reachable, of "''smtp''"] by auto

text \<open>
  Emptying a table releases every live entry exactly once: the addresses \<open>symbol_null_db\<close> passes to
  \<open>free\<close> are distinct and are those of the live entries, and afterwards no name is found.  It does so on
  the table of the caller, or on \<open>spt_symtab\<close> when the caller passes \<open>NULL\<close>.
\<close>

lemma symbol_null_db_frees_all:
  assumes "sym_reachable q"
  shows "\<exists>freed q'. symbol_null_db (Some q) g = (freed, Some q', g) \<and> symbol_null_db None (Some q) = (freed, None, Some q') \<and>
    distinct freed \<and> set freed = sym_live CRCorNOT q \<and> (\<forall>t. fst (symbol_lookup_db (Some t) q') = 0)"
proof -
  have q: "sym_invar CRCorNOT q" by (rule sym_reachable_invar [OF assms])
  then have "sp_contents (sp_null q) = Map.empty" "sp_invar (sp_null q)"
    using sp_null_spec by (auto simp: sym_invar_def)
  then have n: "sym_invar CRCorNOT (sp_null q)" "sym_table CRCorNOT (sp_null q) = Map.empty"
    using sym_invar_empty by blast+
  have "symbol_null_db (Some q) g = (map se_addr (sym_entries q), Some (sp_null q), g)"
    "symbol_null_db None (Some q) = (map se_addr (sym_entries q), None, Some (sp_null q))"
    by (simp_all add: symbol_null_db_def sp_scan_symbol_null)
  then show ?thesis
    using sym_entries_distinct [OF q] sym_entries_live [OF q] symint.lookup_zero_iff [OF n(1)] n(2)
    by (simp add: symbol_lookup_db_Some)
qed

lemma symbol_null_db_frees_all_witness:
  "fst (symbol_null_db (Some sym_example) None) = [4096]"
proof -
  obtain freed q' where f: "symbol_null_db (Some sym_example) None = (freed, Some q', None)"
      "distinct freed" "set freed = {4096}"
    using symbol_null_db_frees_all [OF sym_example_reachable, of None] sym_example_live by auto
  then have "length freed = 1" by (simp flip: distinct_card)
  with f have "freed = [4096]" by (cases freed) auto
  with f show ?thesis by simp
qed

end
