(* ===== verification/Stdio.thy ===== *)
theory Stdio
  imports Prelude
begin

text \<open>
  What the mailer uses of an output stream (\<^verbatim>\<open>FILE *\<close> and \<^verbatim>\<open>Sfio_t *\<close>) and of the character
  comparisons of \<^verbatim>\<open>lib/stringlib.c\<close>.

  A stream holds what has been written, how many more bytes the device accepts (\<open>None\<close> for no limit) and
  the error flag that \<open>ferror\<close> reads; a write that does not fit sets the flag and writes nothing.
\<close>

section \<open>Output streams\<close>

record ostream =
  os_out :: string
  os_room :: "nat option"
  os_err :: bool

definition fputc :: "char \<Rightarrow> ostream \<Rightarrow> ostream" where
  "fputc c f =
     (case os_room f of
        None \<Rightarrow> f\<lparr>os_out := os_out f @ [c]\<rparr>
      | Some 0 \<Rightarrow> f\<lparr>os_err := True\<rparr>
      | Some (Suc n) \<Rightarrow> f\<lparr>os_out := os_out f @ [c], os_room := Some n\<rparr>)"

definition fwrite :: "string \<Rightarrow> ostream \<Rightarrow> ostream" where
  "fwrite s f = fold fputc s f"

text \<open>\<open>if (!ferror(f)) fputc(c, f)\<close>\<close>

definition fputc_ok :: "char \<Rightarrow> ostream \<Rightarrow> ostream" where
  "fputc_ok c f = (if os_err f then f else fputc c f)"

text \<open>A stream that accepts everything.\<close>

definition os_good :: "ostream \<Rightarrow> bool" where
  "os_good f \<longleftrightarrow> os_room f = None \<and> \<not> os_err f"

definition os_app :: "ostream \<Rightarrow> string \<Rightarrow> ostream" where
  "os_app f s = f\<lparr>os_out := os_out f @ s\<rparr>"

definition os_new :: ostream where
  "os_new = \<lparr>os_out = [], os_room = None, os_err = False\<rparr>"

lemma os_new_good [simp]: "os_good os_new" "os_out os_new = []"
  by (simp_all add: os_new_def os_good_def)

lemma os_app_good [simp]: "os_good (os_app f s) = os_good f"
  by (simp add: os_good_def os_app_def)

lemma os_app_Nil [simp]: "os_app f [] = f"
  by (simp add: os_app_def)

lemma os_app_app [simp]: "os_app (os_app f s) t = os_app f (s @ t)"
  by (simp add: os_app_def)

lemma os_out_app [simp]: "os_out (os_app f s) = os_out f @ s"
  by (simp add: os_app_def)

lemma fputc_good [simp]: "os_good f \<Longrightarrow> fputc c f = os_app f [c]"
  by (simp add: os_good_def fputc_def os_app_def)

lemma fputc_ok_good [simp]: "os_good f \<Longrightarrow> fputc_ok c f = os_app f [c]"
  by (simp add: fputc_ok_def) (simp add: os_good_def)

lemma fwrite_good [simp]: "os_good f \<Longrightarrow> fwrite s f = os_app f s"
  unfolding fwrite_def by (induction s arbitrary: f) auto

lemma fold_fputc_ok_good [simp]: "os_good f \<Longrightarrow> fold fputc_ok s f = os_app f s"
  by (induction s arbitrary: f) auto

section \<open>Case-insensitive comparison\<close>

text \<open>\<open>isupper(c) ? tolower(c) : c\<close> in the C locale.\<close>

definition fold_case :: "char \<Rightarrow> nat" where
  "fold_case c = (if 65 \<le> ord c \<and> ord c \<le> 90 then ord c + 32 else ord c)"

text \<open>A plain \<open>char\<close> in an integer expression, signed as the mailer's compilers have it.\<close>

definition schar :: "char \<Rightarrow> int" where
  "schar c = (if ord c < 128 then int (ord c) else int (ord c) - 256)"

text \<open>
  The comparisons walk two NUL-terminated strings.  \<open>cistrncmp\<close> compares \<open>n\<close> characters and then asks,
  by a product, that one of the strings ends there; \<open>ci2strncmp\<close> does not.  Neither stops at a NUL: past
  the end of both strings the model reads NUL.
\<close>

function cistrcmp :: "string \<Rightarrow> string \<Rightarrow> int" where
  "cistrcmp a b =
     (if cur a \<noteq> NUL \<and> cur b \<noteq> NUL then
        (if fold_case (cur a) \<noteq> fold_case (cur b) then int (fold_case (cur a)) - int (fold_case (cur b))
         else cistrcmp (tl a) (tl b))
      else schar (cur a) - schar (cur b))"
  by auto
termination
  by (relation "measure (\<lambda>(a, b). length a)") (auto simp: cur_def split: list.splits)

fun cistrncmp :: "string \<Rightarrow> string \<Rightarrow> nat \<Rightarrow> int" where
  "cistrncmp a b 0 = schar (cur a) * schar (cur b)"
| "cistrncmp a b (Suc n) =
     (if fold_case (cur a) \<noteq> fold_case (cur b) then int (fold_case (cur a)) - int (fold_case (cur b))
      else cistrncmp (tl a) (tl b) n)"

fun ci2strncmp :: "string \<Rightarrow> string \<Rightarrow> nat \<Rightarrow> int" where
  "ci2strncmp a b 0 = 0"
| "ci2strncmp a b (Suc n) =
     (if fold_case (cur a) \<noteq> fold_case (cur b) then int (fold_case (cur a)) - int (fold_case (cur b))
      else ci2strncmp (tl a) (tl b) n)"

declare cistrcmp.simps [simp del]

definition CISTREQN :: "string \<Rightarrow> string \<Rightarrow> nat \<Rightarrow> bool" where
  "CISTREQN a b n \<longleftrightarrow> cistrncmp a b n = 0"

end
