(* ===== verification/Base64.thy ===== *)
theory Base64
  imports Stdio
begin

unbundle bit_operations_syntax

text \<open>
  The base64 codec of the AUTH exchange, \<open>encodebase64string\<close> and \<open>decodebase64string\<close> of
  \<^verbatim>\<open>smtpserver/smtpdata.c\<close>, with their bit operations, and the theorem that decoding inverts encoding
  when the buffers are large enough.
\<close>

section \<open>Operations\<close>

definition base64encode_array :: string where
  "base64encode_array = ''ABCDEFGHIJKLMNOPQRSTUVWXYZabcdefghijklmnopqrstuvwxyz0123456789+/''"

definition base64decode_index :: "int list" where
  "base64decode_index =
     replicate 43 (- 1) @ [62, - 1, - 1, - 1, 63]
     @ [52, 53, 54, 55, 56, 57, 58, 59, 60, 61] @ replicate 7 (- 1)
     @ [0, 1, 2, 3, 4, 5, 6, 7, 8, 9, 10, 11, 12, 13, 14, 15, 16, 17, 18, 19, 20, 21, 22, 23, 24, 25] @ replicate 6 (- 1)
     @ [26, 27, 28, 29, 30, 31, 32, 33, 34, 35, 36, 37, 38, 39, 40, 41, 42, 43, 44, 45, 46, 47, 48, 49, 50, 51]
     @ replicate 5 (- 1)"

definition decodechar64 :: "char \<Rightarrow> int" where
  "decodechar64 c = (if ord c > 127 then - 1 else base64decode_index ! ord c)"

text \<open>
  The loop of \<open>decodebase64string\<close>: the input pointer, the input length left, the six-bit values of the
  current group (\<open>b64c\<close> up to \<open>b64i\<close>) and the output; it returns the output and the input pointer.
\<close>

fun decode64_loop :: "string \<Rightarrow> nat \<Rightarrow> nat \<Rightarrow> int list \<Rightarrow> string \<Rightarrow> string \<times> string" where
  "decode64_loop instr 0 outspc b64c out = (out, instr)"
| "decode64_loop instr (Suc inlen) outspc b64c out =
     (if length out < outspc then
        let c = cur instr; instr = tl instr
        in if c = CHR ''='' then (out, instr)
           else
             let i = decodechar64 c
             in if i < 0 then decode64_loop instr inlen outspc b64c out
                else
                  let b64c = b64c @ [i]
                  in if length b64c < 2 then decode64_loop instr inlen outspc b64c out
                     else if length b64c = 2 then
                       decode64_loop instr inlen outspc b64c
                         (out @ [char_of (nat (push_bit 2 (b64c ! 0) OR drop_bit 4 (b64c ! 1 AND 0x30)))])
                     else if length b64c = 3 then
                       decode64_loop instr inlen outspc b64c
                         (out @ [char_of (nat (push_bit 4 (b64c ! 1 AND 0x0f) OR drop_bit 2 (b64c ! 2 AND 0x3c)))])
                     else
                       decode64_loop instr inlen outspc []
                         (out @ [char_of (nat (push_bit 6 (b64c ! 2) OR b64c ! 3))])
      else (out, instr))"

text \<open>The output and \<open>inleftover\<close>.\<close>

definition decodebase64string :: "string \<Rightarrow> nat \<Rightarrow> nat \<Rightarrow> string \<times> string" where
  "decodebase64string instr inlen outspc =
     (case decode64_loop instr inlen outspc [] [] of
        (out, instr) \<Rightarrow> (out, dropWhile (\<lambda>c. c = CHR ''='') instr))"

text \<open>One group of \<open>encodebase64string\<close>: at most three bytes, given as a list.\<close>

definition encode64_group :: "string \<Rightarrow> string" where
  "encode64_group bs =
     (let b64i = length bs;
          v = push_bit 16 (ord (bs ! 0));
          v = (if b64i > 1 then v OR push_bit 8 (ord (bs ! 1)) else v);
          v = (if b64i > 2 then v OR ord (bs ! 2) else v);
          o3 = base64encode_array ! (v AND 63); v = drop_bit 6 v;
          o2 = base64encode_array ! (v AND 63); v = drop_bit 6 v;
          o1 = base64encode_array ! (v AND 63); v = drop_bit 6 v;
          o0 = base64encode_array ! (v AND 63);
          o2 = (if b64i = 1 then CHR ''='' else o2);
          o3 = (if b64i \<le> 2 then CHR ''='' else o3)
      in take (if b64i = 1 then 3 else 4) [o0, o1, o2, o3])"

function encode64_loop :: "string \<Rightarrow> nat \<Rightarrow> string \<Rightarrow> string" where
  "encode64_loop instr outspc out =
     (if instr \<noteq> [] \<and> length out < outspc then
        let g = encode64_group (take 3 instr)
        in if length out + length g < outspc then encode64_loop (drop 3 instr) outspc (out @ g)
           else encode64_loop (drop 3 instr) outspc (out @ take (outspc - length out) g)
      else out)"
  by auto
termination
  by (relation "measure (\<lambda>(instr, outspc, out). length instr)") auto

declare encode64_loop.simps [simp del]

definition encodebase64string :: "string \<Rightarrow> nat \<Rightarrow> string" where
  "encodebase64string instr outspc = encode64_loop instr outspc []"

section \<open>Bit operations as arithmetic\<close>

lemma or_shift: "y < 2 ^ k \<Longrightarrow> push_bit k x OR y = x * 2 ^ k + y" for x y :: nat
proof -
  assume y: "y < 2 ^ k"
  then have t: "take_bit k y = y" by (simp add: take_bit_nat_eq_self)
  have "bit (push_bit k x AND y) n = bit 0 n" for n
    using bit_take_bit_iff [of k y n] by (auto simp: t bit_simps)
  then have "push_bit k x AND y = 0" by (blast intro: bit_eqI)
  then show ?thesis using disjunctive_add_eq_or [of "push_bit k x" y] by (simp add: push_bit_eq_mult)
qed

lemma or_shift_int: "0 \<le> x \<Longrightarrow> 0 \<le> y \<Longrightarrow> y < 2 ^ k \<Longrightarrow> nat (push_bit k x OR y) = nat x * 2 ^ k + nat y" for x y :: int
proof -
  assume a: "0 \<le> x" "0 \<le> y" "y < 2 ^ k"
  then obtain m n where mn: "x = int m" "y = int n" by (metis nonneg_int_cases)
  have "push_bit k x OR y = int (push_bit k m OR n)"
    unfolding mn by (simp only: of_nat_or_eq push_bit_of_nat)
  moreover have "push_bit k m OR n = m * 2 ^ k + n" using a(3) mn(2) by (intro or_shift) simp
  ultimately show ?thesis using mn by (metis nat_int)
qed

lemma and_63: "x AND 63 = x mod 64" for x :: nat
  using take_bit_eq_mask [of 6 x] by (simp add: take_bit_eq_mod mask_eq_exp_minus_1)

lemma dec64_masks:
  fixes x :: int
  shows "drop_bit 4 (x AND 0x30) = x div 16 mod 4" "x AND 0x0f = x mod 16" "drop_bit 2 (x AND 0x3c) = x div 4 mod 16"
proof -
  have 1: "y AND 3 = y mod 4" "y AND 15 = y mod 16" for y :: int
    using take_bit_eq_mask [of 2 y] take_bit_eq_mask [of 4 y] by (simp_all add: take_bit_eq_mod mask_eq_exp_minus_1)
  show "drop_bit 4 (x AND 0x30) = x div 16 mod 4" "x AND 0x0f = x mod 16" "drop_bit 2 (x AND 0x3c) = x div 4 mod 16"
    unfolding drop_bit_and by (simp_all add: 1 drop_bit_eq_div [of _ x])
qed

lemma decode_encode_char: "\<forall>i\<in>set [0..<64]. decodechar64 (base64encode_array ! i) = int i \<and> base64encode_array ! i \<noteq> CHR ''=''"
  by code_simp

lemma decodechar64_encode [simp]:
  "i < 64 \<Longrightarrow> decodechar64 (base64encode_array ! i) = int i" "i < 64 \<Longrightarrow> base64encode_array ! i \<noteq> CHR ''=''"
  using decode_encode_char by auto

text \<open>The four six-bit digits of three bytes, and back.\<close>

lemma digits_split:
  fixes a b c :: nat
  assumes "a < 256" "b < 256" "c < 256"
  defines "v \<equiv> a * 65536 + b * 256 + c"
  shows "v mod 64 = c mod 64" "v div 64 mod 64 = b mod 16 * 4 + c div 64"
    "v div 64 div 64 mod 64 = a mod 4 * 16 + b div 16" "v div 64 div 64 div 64 mod 64 = a div 4"
proof -
  have v: "v = 64 * (64 * (64 * (a div 4) + (a mod 4 * 16 + b div 16)) + (b mod 16 * 4 + c div 64)) + c mod 64"
  proof -
    have "(p * 4 + q) * 65536 + (r * 16 + s) * 256 + (t * 64 + u) =
        64 * (64 * (64 * p + (q * 16 + r)) + (s * 4 + t)) + u" for p q r s t u :: nat by simp
    from this [of "a div 4" "a mod 4" "b div 16" "b mod 16" "c div 64" "c mod 64"]
    show ?thesis unfolding v_def div_mult_mod_eq .
  qed
  have s: "c mod 64 < 64" "b mod 16 * 4 + c div 64 < 64" "a mod 4 * 16 + b div 16 < 64" "a div 4 < 64"
  proof -
    have "c div 64 < 4" "b div 16 < 16" "a div 4 < 64" using assms(1-3) by (simp_all add: div_less_iff_less_mult)
    moreover have "b mod 16 < 16" "a mod 4 < 4" by simp_all
    ultimately show "c mod 64 < 64" "b mod 16 * 4 + c div 64 < 64" "a mod 4 * 16 + b div 16 < 64" "a div 4 < 64"
      by simp_all
  qed
  have k: "(64 * x + y) mod 64 = y" "(64 * x + y) div 64 = x" if "y < 64" for x y :: nat
    using that by simp_all
  show "v mod 64 = c mod 64" unfolding v by (rule k) (rule s)
  have 1: "v div 64 = 64 * (64 * (a div 4) + (a mod 4 * 16 + b div 16)) + (b mod 16 * 4 + c div 64)"
    unfolding v by (rule k) (rule s)
  show "v div 64 mod 64 = b mod 16 * 4 + c div 64" unfolding 1 by (rule k) (rule s)
  have 2: "v div 64 div 64 = 64 * (a div 4) + (a mod 4 * 16 + b div 16)"
    unfolding 1 by (rule k) (rule s)
  show "v div 64 div 64 mod 64 = a mod 4 * 16 + b div 16" unfolding 2 by (rule k) (rule s)
  show "v div 64 div 64 div 64 mod 64 = a div 4" unfolding 2 k(2) [OF s(3)] using s(4) by simp
qed


text \<open>The characters of a group as a function of the 24-bit value.\<close>

definition group_chars :: "nat \<Rightarrow> string" where
  "group_chars v = map (\<lambda>i. base64encode_array ! i)
     [v div 64 div 64 div 64 mod 64, v div 64 div 64 mod 64, v div 64 mod 64, v mod 64]"

lemma drop_bit_6: "drop_bit 6 x = x div 64" for x :: nat
  by (simp add: drop_bit_eq_div)

lemma encode64_group_chars:
  "encode64_group [x, y, z] = group_chars ((push_bit 16 (ord x) OR push_bit 8 (ord y)) OR ord z)"
  "encode64_group [x, y] = take 3 (group_chars (push_bit 16 (ord x) OR push_bit 8 (ord y))) @ [CHR ''='']"
  "encode64_group [x] = take 2 (group_chars (push_bit 16 (ord x))) @ [CHR ''='']"
  unfolding encode64_group_def group_chars_def Let_def and_63 drop_bit_6
  by (simp_all only: list.size nth_Cons_0 nth_Cons_Suc One_nat_def list.map) simp_all

lemma group_chars_split:
  "a < 256 \<Longrightarrow> b < 256 \<Longrightarrow> c < 256 \<Longrightarrow>
     group_chars (a * 65536 + b * 256 + c) =
       map (\<lambda>i. base64encode_array ! i) [a div 4, a mod 4 * 16 + b div 16, b mod 16 * 4 + c div 64, c mod 64]"
  unfolding group_chars_def by (simp only: digits_split)

lemma or_bytes:
  "(push_bit 16 (ord x) OR push_bit 8 (ord y)) OR ord z = ord x * 65536 + ord y * 256 + ord z"
  "push_bit 16 (ord x) OR push_bit 8 (ord y) = ord x * 65536 + ord y * 256 + 0"
  "push_bit 16 (ord x) = ord x * 65536 + 0 * 256 + 0"
proof -
  have 1: "push_bit 8 (ord x) OR ord y = ord x * 256 + ord y" using or_shift [of "ord y" 8 "ord x"] by simp
  have 2: "push_bit 16 (ord x) OR push_bit 8 (ord y) = push_bit 8 (push_bit 8 (ord x) OR ord y)"
    by (simp add: push_bit_or)
  then show "push_bit 16 (ord x) OR push_bit 8 (ord y) = ord x * 65536 + ord y * 256 + 0"
    unfolding 1 by (simp add: push_bit_eq_mult)
  show "(push_bit 16 (ord x) OR push_bit 8 (ord y)) OR ord z = ord x * 65536 + ord y * 256 + ord z"
    unfolding 2 1 using or_shift [of "ord z" 8 "ord x * 256 + ord y"] by simp
  show "push_bit 16 (ord x) = ord x * 65536 + 0 * 256 + 0" by (simp add: push_bit_eq_mult)
qed

lemma encode64_groups:
  "encode64_group [x, y, z] = map (\<lambda>i. base64encode_array ! i)
     [ord x div 4, ord x mod 4 * 16 + ord y div 16, ord y mod 16 * 4 + ord z div 64, ord z mod 64]"
  "encode64_group [x, y] = map (\<lambda>i. base64encode_array ! i)
     [ord x div 4, ord x mod 4 * 16 + ord y div 16, ord y mod 16 * 4] @ [CHR ''='']"
  "encode64_group [x] = map (\<lambda>i. base64encode_array ! i) [ord x div 4, ord x mod 4 * 16] @ [CHR ''='']"
  subgoal unfolding encode64_group_chars(1) or_bytes(1) by (subst group_chars_split) simp_all
  subgoal unfolding encode64_group_chars(2) or_bytes(2) by (subst group_chars_split) simp_all
  subgoal unfolding encode64_group_chars(3) or_bytes(3) by (subst group_chars_split) simp_all
  done

text \<open>Decoding the characters of a group, whatever follows it.\<close>

lemma dec_bytes:
  fixes a b c :: nat
  assumes "a < 256" "b < 256" "c < 256"
  shows "nat (push_bit 2 (int (a div 4)) OR drop_bit 4 (int (a mod 4 * 16 + b div 16) AND 0x30)) = a"
    "nat (push_bit 4 (int (a mod 4 * 16 + b div 16) AND 0x0f) OR drop_bit 2 (int (b mod 16 * 4 + c div 64) AND 0x3c)) = b"
    "nat (push_bit 6 (int (b mod 16 * 4 + c div 64)) OR int (c mod 64)) mod 256 = c"
proof -
  have s: "c div 64 < 4" "b div 16 < 16" using assms by (simp_all add: div_less_iff_less_mult)
  have m: "(16 * x + y) div 16 mod 4 = x mod 4" "(16 * x + y) mod 16 = y" if "y < 16" for x y :: nat using that by simp_all
  have m': "(4 * x + y) div 4 mod 16 = x mod 16" if "y < 4" for x y :: nat using that by simp
  have z: "int x div 16 mod 4 = int (x div 16 mod 4)" "int x mod 16 = int (x mod 16)"
      "int x div 4 mod 16 = int (x div 4 mod 16)" for x :: nat
    by (simp_all only: of_nat_mod of_nat_div of_nat_numeral)
  have n: "(a mod 4 * 16 + b div 16) div 16 mod 4 = a mod 4" "(a mod 4 * 16 + b div 16) mod 16 = b div 16"
      "(b mod 16 * 4 + c div 64) div 4 mod 16 = b mod 16"
    using m [OF s(2), of "a mod 4"] m' [OF s(1), of "b mod 16"] by (simp_all add: mult.commute)
  have 1: "int (a mod 4 * 16 + b div 16) div 16 mod 4 = int (a mod 4)"
    unfolding z n ..
  show "nat (push_bit 2 (int (a div 4)) OR drop_bit 4 (int (a mod 4 * 16 + b div 16) AND 0x30)) = a"
    unfolding dec64_masks 1 by (subst or_shift_int) simp_all
  have 2: "int (a mod 4 * 16 + b div 16) mod 16 = int (b div 16)" "int (b mod 16 * 4 + c div 64) div 4 mod 16 = int (b mod 16)"
    unfolding z n by (rule refl)+
  show "nat (push_bit 4 (int (a mod 4 * 16 + b div 16) AND 0x0f) OR drop_bit 2 (int (b mod 16 * 4 + c div 64) AND 0x3c)) = b"
    unfolding dec64_masks 2 by (subst or_shift_int) simp_all
  have "nat (push_bit 6 (int (b mod 16 * 4 + c div 64)) OR int (c mod 64)) = (b mod 16 * 4 + c div 64) * 64 + c mod 64"
    using or_shift_int [of "int (b mod 16 * 4 + c div 64)" "int (c mod 64)" 6] by (simp only: nat_int of_nat_0_le_iff) simp
  also have "\<dots> = (b mod 16) * 256 + (c div 64 * 64 + c mod 64)" by simp
  also have "\<dots> mod 256 = c" using assms(3) unfolding div_mult_mod_eq by simp
  finally show "nat (push_bit 6 (int (b mod 16 * 4 + c div 64)) OR int (c mod 64)) mod 256 = c" .
qed


definition enc6 :: "nat \<Rightarrow> char" where
  "enc6 i = base64encode_array ! i"

text \<open>The three bytes that four six-bit values decode to.\<close>

definition dec0 :: "nat \<Rightarrow> nat \<Rightarrow> char" where
  "dec0 i j = char_of (nat (push_bit 2 (int i) OR drop_bit 4 (int j AND 0x30)))"

definition dec1 :: "nat \<Rightarrow> nat \<Rightarrow> char" where
  "dec1 i j = char_of (nat (push_bit 4 (int i AND 0x0f) OR drop_bit 2 (int j AND 0x3c)))"

definition dec2 :: "nat \<Rightarrow> nat \<Rightarrow> char" where
  "dec2 i j = char_of (nat (push_bit 6 (int i) OR int j))"

lemma decode64_step:
  assumes "i < 64" "length out < spc"
  shows "decode64_loop (enc6 i # rest) (Suc n) spc [] out = decode64_loop rest n spc [int i] out"
    "decode64_loop (enc6 i # rest) (Suc n) spc [int p] out = decode64_loop rest n spc [int p, int i] (out @ [dec0 p i])"
    "decode64_loop (enc6 i # rest) (Suc n) spc [int p, int q] out =
       decode64_loop rest n spc [int p, int q, int i] (out @ [dec1 q i])"
    "decode64_loop (enc6 i # rest) (Suc n) spc [int p, int q, int r] out =
       decode64_loop rest n spc [] (out @ [dec2 r i])"
  using assms by (simp_all add: enc6_def Let_def dec0_def dec1_def dec2_def del: drop_bit_and push_bit_and)

lemma char_of_eq: "n mod 256 = ord x \<Longrightarrow> char_of n = x" for n :: nat
  by (metis char_of_mod_256 char_of_ord)

lemma group_range:
  "a < 256 \<Longrightarrow> b < 256 \<Longrightarrow> c < 256 \<Longrightarrow>
     a div 4 < 64 \<and> a mod 4 * 16 + b div 16 < 64 \<and> b mod 16 * 4 + c div 64 < 64 \<and> c mod 64 < (64::nat)"
proof -
  assume "a < 256" "b < 256" "c < 256"
  then have "c div 64 < 4" "b div 16 < 16" "a div 4 < 64" by (simp_all add: div_less_iff_less_mult)
  moreover have "b mod 16 < 16" "a mod 4 < 4" "c mod 64 < 64" by simp_all
  ultimately show ?thesis by linarith
qed

lemma dec_chars:
  "dec0 (ord x div 4) (ord x mod 4 * 16 + ord y div 16) = x"
  "dec1 (ord x mod 4 * 16 + ord y div 16) (ord y mod 16 * 4 + ord z div 64) = y"
  "dec2 (ord y mod 16 * 4 + ord z div 64) (ord z mod 64) = z"
  subgoal unfolding dec0_def dec_bytes(1) [OF ord_less_256 ord_less_256 ord_less_256] by (rule char_of_ord)
  subgoal unfolding dec1_def dec_bytes(2) [OF ord_less_256 ord_less_256 ord_less_256] by (rule char_of_ord)
  subgoal unfolding dec2_def by (intro char_of_eq dec_bytes(3) [of "ord x"] ord_less_256)
  done

lemma decode64_group3:
  assumes "length out + 3 \<le> spc"
  shows "decode64_loop (encode64_group [x, y, z] @ rest) (n + 4) spc [] out = decode64_loop rest n spc [] (out @ [x, y, z])"
proof -
  obtain i j k l where d: "i = ord x div 4" "j = ord x mod 4 * 16 + ord y div 16" "k = ord y mod 16 * 4 + ord z div 64"
    "l = ord z mod 64" by blast
  have r: "i < 64" "j < 64" "k < 64" "l < 64"
    unfolding d using group_range [of "ord x" "ord y" "ord z", OF ord_less_256 ord_less_256 ord_less_256] by blast+
  have g: "encode64_group [x, y, z] = [enc6 i, enc6 j, enc6 k, enc6 l]"
    unfolding d encode64_groups(1) enc6_def by (simp only: list.map)
  have n: "n + 4 = Suc (Suc (Suc (Suc n)))" by simp
  have "decode64_loop (encode64_group [x, y, z] @ rest) (n + 4) spc [] out =
      decode64_loop rest n spc [] (out @ [dec0 i j, dec1 j k, dec2 k l])"
    unfolding g n append_Cons append_Nil using assms r by (simp add: decode64_step del: decode64_loop.simps)
  then show ?thesis unfolding d dec_chars .
qed

lemma decode64_eq: "length out < spc \<Longrightarrow> decode64_loop (CHR ''='' # rest) (Suc n) spc g out = (out, rest)"
  by simp

lemma decode64_group2:
  assumes "length out + 2 < spc"
  shows "decode64_loop (encode64_group [x, y] @ rest) (n + 4) spc [] out = (out @ [x, y], rest)"
proof -
  obtain i j k where d: "i = ord x div 4" "j = ord x mod 4 * 16 + ord y div 16" "k = ord y mod 16 * 4 + ord NUL div 64"
    by blast
  have r: "i < 64" "j < 64" "k < 64"
    unfolding d using group_range [of "ord x" "ord y" "ord NUL", OF ord_less_256 ord_less_256 ord_less_256] by blast+
  have z: "ord NUL div 64 = 0" by code_simp
  have g: "encode64_group [x, y] = [enc6 i, enc6 j, enc6 k, CHR ''='']"
    unfolding d encode64_groups(2) enc6_def z by (simp only: list.map append.simps add_0_right)
  have n: "n + 4 = Suc (Suc (Suc (Suc n)))" by simp
  have "decode64_loop (encode64_group [x, y] @ rest) (n + 4) spc [] out = (out @ [dec0 i j, dec1 j k], rest)"
    unfolding g n append_Cons append_Nil using assms r by (simp add: decode64_step decode64_eq del: decode64_loop.simps)
  then show ?thesis unfolding d dec_chars .
qed

lemma decode64_group1:
  assumes "length out + 1 < spc"
  shows "decode64_loop (encode64_group [x] @ rest) (n + 3) spc [] out = (out @ [x], rest)"
proof -
  obtain i j where d: "i = ord x div 4" "j = ord x mod 4 * 16 + ord NUL div 16" by blast
  have r: "i < 64" "j < 64"
    unfolding d using group_range [of "ord x" "ord NUL" "ord NUL", OF ord_less_256 ord_less_256 ord_less_256] by blast+
  have z: "ord NUL div 16 = 0" by code_simp
  have g: "encode64_group [x] = [enc6 i, enc6 j, CHR ''='']"
    unfolding d encode64_groups(3) enc6_def z by (simp only: list.map append.simps add_0_right)
  have n: "n + 3 = Suc (Suc (Suc n))" by simp
  have "decode64_loop (encode64_group [x] @ rest) (n + 3) spc [] out = (out @ [dec0 i j], rest)"
    unfolding g n append_Cons append_Nil using assms r by (simp add: decode64_step decode64_eq del: decode64_loop.simps)
  then show ?thesis unfolding d dec_chars .
qed


text \<open>The encoding of a whole string, groups of three, when there is room for it.\<close>

fun encode64_spec :: "string \<Rightarrow> string" where
  "encode64_spec (x # y # z # s) = encode64_group [x, y, z] @ encode64_spec s"
| "encode64_spec [] = []"
| "encode64_spec s = encode64_group s"

lemma length_encode64_group:
  "length (encode64_group [x]) = 3" "length (encode64_group [x, y]) = 4" "length (encode64_group [x, y, z]) = 4"
  by (simp_all add: encode64_groups)

lemma length_encode64_spec:
  "length (encode64_spec s) = 4 * (length s div 3) + (if length s mod 3 = 0 then 0 else if length s mod 3 = 1 then 3 else 4)"
proof (induction s rule: encode64_spec.induct)
  case (1 x y z s)
  have "length (x # y # z # s) div 3 = Suc (length s div 3)" "length (x # y # z # s) mod 3 = length s mod 3" by simp_all
  then show ?case using 1 by (simp only: encode64_spec.simps length_append length_encode64_group) simp
qed (simp_all add: length_encode64_group)

lemma encode64_loop_spec:
  "length out + length (encode64_spec s) < spc \<Longrightarrow> encode64_loop s spc out = out @ encode64_spec s"
proof (induction s arbitrary: out rule: encode64_spec.induct)
  case (1 x y z s)
  then show ?case
    using 1 by (subst encode64_loop.simps) (simp add: length_encode64_group Let_def)
next
  case 2
  then show ?case by (simp add: encode64_loop.simps)
qed (simp_all add: encode64_loop.simps length_encode64_group Let_def)

lemma decode64_spec:
  "length out + length s < spc \<Longrightarrow>
     \<exists>r. decode64_loop (encode64_spec s @ rest) (length (encode64_spec s)) spc [] out = (out @ s, r) \<and> r = rest"
proof (induction s arbitrary: out rule: encode64_spec.induct [case_names three none one two])
  case (three x y z s)
  have l: "length (encode64_spec (x # y # z # s)) = length (encode64_spec s) + 4"
    by (simp add: length_encode64_group)
  have "length out + 3 \<le> spc" using three by simp
  from decode64_group3 [OF this] show ?case
    using three unfolding l by (simp only: encode64_spec.simps append.assoc) simp
next
  case (one x)
  then have "length out + 1 < spc" by simp
  from decode64_group1 [OF this, of x rest 0] show ?case by (simp add: length_encode64_group del: decode64_loop.simps)
next
  case (two x y)
  then have "length out + 2 < spc" by simp
  from decode64_group2 [OF this, of x y rest 0] show ?case by (simp add: length_encode64_group del: decode64_loop.simps)
qed simp


section \<open>Properties\<close>

text \<open>
  C20: Decoding inverts encoding.  When the output buffers are larger than the results, the decoder
  gives back exactly the bytes that were encoded, skips the padding that follows and stops at the text
  behind it.  The encoder produces four characters for every three bytes, and three characters, not
  four, for a single byte left over: it writes one padding character where a full quantum has two.
\<close>

theorem base64_roundtrip:
  assumes "length (encode64_spec s) < spc" "length s < spc2"
  shows "decodebase64string (encodebase64string s spc @ rest) (length (encodebase64string s spc)) spc2 =
      (s, dropWhile (\<lambda>c. c = CHR ''='') rest) \<and>
    length (encodebase64string s spc) =
      4 * (length s div 3) + (if length s mod 3 = 0 then 0 else if length s mod 3 = 1 then 3 else 4)"
  using encode64_loop_spec [of "[]" s spc] decode64_spec [of "[]" s spc2 rest] assms length_encode64_spec [of s]
  by (auto simp: encodebase64string_def decodebase64string_def)

theorem base64_roundtrip_witness:
  "decodebase64string (encodebase64string ''user'' 100 @ ''x'') (length (encodebase64string ''user'' 100)) 100 =
      (''user'', ''x'') \<and> length (encodebase64string ''user'' 100) = 7"
  using base64_roundtrip [of "''user''" 100 100 "''x''"] by (auto simp: length_encode64_group)

end
