(* ===== verification/Rfc821scn.thy ===== *)
theory Rfc821scn
  imports Prelude
begin

unbundle bit_operations_syntax

text \<open>
  The address scanners of the SMTP server, \<^verbatim>\<open>smtpserver/rfc821scn.c\<close>.  Each scans one lexical element and
  returns the pointer behind it, or its argument when it fails.

  A pointer into the NUL-terminated command line is the suffix it points at.  The globals
  \<open>rfc821_error\<close> and \<open>rfc821_error_ptr\<close> are threaded through as a record; the messages are the
  constructors of a datatype, and the error position is the number of characters from it to the end of
  the line, because some errors point one or two characters before the current position.
  \<open>rfc821_path\<close> also changes its buffer: it removes blanks in front of the closing bracket.
  Arguments are never \<open>NULL\<close>, as the command handlers call the scanners.
\<close>

section \<open>Errors\<close>

datatype rfc821_err =
    InvalidAtom | InvalidXtext | MissingAt | MissingDomain
  | V6LeadingColon | V6TooBig | V6DoubleColon | V6TooMany | V6Error | V6TooFew
  | BadDotnumV6 | BadDotnumValue | BadDotnumDot | BadName | DomainNoInput | DotnumNoBracket
  | DomainNumbers | DomainLeadingDot | DomainSpuriousDot | DomainAllNumeric | BadDomain
  | ColonNotDot | MailboxNoAt | String8bit | StringUnsuitable | LocalpartEndDot | Qtext8bit | QtextFailure
  | QuoteNoInitial | QuoteNoFinal | NoInput | NoLocalPart | RouteNoColon
  | PathNoOpen | PrematureEnd | PathNoClose | PathGarbage

record scanerr =
  rfc821_error :: "rfc821_err option"
  rfc821_error_ptr :: "int option"

text \<open>Setting both globals; the position is given as a pointer and an offset.\<close>

definition set_err :: "rfc821_err \<Rightarrow> string \<Rightarrow> int \<Rightarrow> scanerr \<Rightarrow> scanerr" where
  "set_err e p off st = st\<lparr>rfc821_error := Some e, rfc821_error_ptr := Some (int (length p) - off)\<rparr>"

section \<open>Character classes\<close>

definition CHAR_ALPHA :: nat where "CHAR_ALPHA = 0x0001"
definition CHAR_ALNUM :: nat where "CHAR_ALNUM = 0x0002"
definition CHAR_SPECL :: nat where "CHAR_SPECL = 0x0004"
definition CHAR_DIGIT :: nat where "CHAR_DIGIT = 0x0008"
definition CHAR_C :: nat where "CHAR_C = 0x0010"
definition CHAR_X :: nat where "CHAR_X = 0x0020"
definition CHAR_Q :: nat where "CHAR_Q = 0x0040"
definition CHAR_XDIGIT :: nat where "CHAR_XDIGIT = 0x0080"
definition CHAR_822ATM :: nat where "CHAR_822ATM = 0x0100"
definition CHAR_XCHAR :: nat where "CHAR_XCHAR = 0x0200"

definition char_array :: "nat list" where
  "char_array =
     [
      0, 0x064, 0x064, 0x064, 0x064, 0x064, 0x064, 0x064, 0x064, 0x064, 0x024, 0x064, 0x064, 0x024, 0x064, 0x064,
      0x064, 0x064, 0x064, 0x064, 0x064, 0x064, 0x064, 0x064, 0x064, 0x064, 0x064, 0x064, 0x064, 0x064, 0x064, 0x064,
      0x060, 0x370, 0x224, 0x370, 0x370, 0x370, 0x370, 0x370, 0x264, 0x264, 0x370, 0x170, 0x264, 0x370, 0x264, 0x370,
      0x3fa, 0x3fa, 0x3fa, 0x3fa, 0x3fa, 0x3fa, 0x3fa, 0x3fa, 0x3fa, 0x3fa, 0x260, 0x260, 0x264, 0x170, 0x264, 0x370,
      0x264, 0x3f3, 0x3f3, 0x3f3, 0x3f3, 0x3f3, 0x3f3, 0x373, 0x373, 0x373, 0x373, 0x373, 0x373, 0x373, 0x373, 0x373,
      0x373, 0x373, 0x373, 0x373, 0x373, 0x373, 0x373, 0x373, 0x373, 0x373, 0x373, 0x264, 0x224, 0x264, 0x370, 0x370,
      0x370, 0x3f3, 0x3f3, 0x3f3, 0x3f3, 0x3f3, 0x3f3, 0x373, 0x373, 0x373, 0x373, 0x373, 0x373, 0x373, 0x373, 0x373,
      0x373, 0x373, 0x373, 0x373, 0x373, 0x373, 0x373, 0x373, 0x373, 0x373, 0x373, 0x370, 0x370, 0x370, 0x370, 0x060,
      0, 0, 0, 0, 0, 0, 0, 0, 0, 0, 0, 0, 0, 0, 0, 0,
      0, 0, 0, 0, 0, 0, 0, 0, 0, 0, 0, 0, 0, 0, 0, 0,
      0, 0, 0, 0, 0, 0, 0, 0, 0, 0, 0, 0, 0, 0, 0, 0,
      0, 0, 0, 0, 0, 0, 0, 0, 0, 0, 0, 0, 0, 0, 0, 0,
      0, 0, 0, 0, 0, 0, 0, 0, 0, 0, 0, 0, 0, 0, 0, 0,
      0, 0, 0, 0, 0, 0, 0, 0, 0, 0, 0, 0, 0, 0, 0, 0,
      0, 0, 0, 0, 0, 0, 0, 0, 0, 0, 0, 0, 0, 0, 0, 0,
      0, 0, 0, 0, 0, 0, 0, 0, 0, 0, 0, 0, 0, 0, 0, 0]"

definition is_821_alpha :: "char \<Rightarrow> bool" where
  "is_821_alpha c \<longleftrightarrow> char_array ! ord c AND CHAR_ALPHA \<noteq> 0"
definition is_821_alnum :: "char \<Rightarrow> bool" where
  "is_821_alnum c \<longleftrightarrow> char_array ! ord c AND CHAR_ALNUM \<noteq> 0"
definition is_821_specl :: "char \<Rightarrow> bool" where
  "is_821_specl c \<longleftrightarrow> char_array ! ord c AND CHAR_SPECL \<noteq> 0"
definition is_821_digit :: "char \<Rightarrow> bool" where
  "is_821_digit c \<longleftrightarrow> char_array ! ord c AND CHAR_DIGIT \<noteq> 0"
definition is_821_xdigit :: "char \<Rightarrow> bool" where
  "is_821_xdigit c \<longleftrightarrow> char_array ! ord c AND CHAR_XDIGIT \<noteq> 0"
definition is_821_C :: "char \<Rightarrow> bool" where
  "is_821_C c \<longleftrightarrow> char_array ! ord c AND CHAR_C \<noteq> 0"
definition is_821_X :: "char \<Rightarrow> bool" where
  "is_821_X c \<longleftrightarrow> char_array ! ord c AND CHAR_X \<noteq> 0"
definition is_821_Q :: "char \<Rightarrow> bool" where
  "is_821_Q c \<longleftrightarrow> char_array ! ord c AND CHAR_Q \<noteq> 0"
definition is_822_atomchar :: "char \<Rightarrow> bool" where
  "is_822_atomchar c \<longleftrightarrow> char_array ! ord c AND CHAR_822ATM \<noteq> 0"
definition is_821_xchar :: "char \<Rightarrow> bool" where
  "is_821_xchar c \<longleftrightarrow> char_array ! ord c AND CHAR_XCHAR \<noteq> 0"

section \<open>Atoms and xtext\<close>

definition rfc822atom :: "string \<Rightarrow> scanerr \<Rightarrow> string \<times> scanerr" where
  "rfc822atom str0 st =
     (let str = dropWhile is_822_atomchar str0
      in if str = str0 then (str0, set_err InvalidAtom str 0 st) else (str, st))"

definition is_hex_upper :: "char \<Rightarrow> bool" where
  "is_hex_upper c \<longleftrightarrow> (48 \<le> ord c \<and> ord c \<le> 57) \<or> (65 \<le> ord c \<and> ord c \<le> 70)"

text \<open>The flag tells that the loop ended without an error.\<close>

function xtext_loop :: "string \<Rightarrow> bool \<times> string" where
  "xtext_loop str =
     (let c = cur str
      in if c = NUL \<or> c = SPC \<or> c = HT then (True, str)
         else if is_821_xchar c then xtext_loop (tl str)
         else if c = CHR ''+'' then
           (if \<not> is_hex_upper (cur (tl str)) then (False, tl str)
            else if \<not> is_hex_upper (cur (tl (tl str))) then (False, tl (tl str))
            else xtext_loop (tl (tl (tl str))))
         else (False, str))"
  by auto
termination
  by (relation "measure length") (auto simp: cur_def split: list.splits)

declare xtext_loop.simps [simp del]

definition xtext_string :: "string \<Rightarrow> scanerr \<Rightarrow> string \<times> scanerr" where
  "xtext_string str0 st =
     (case xtext_loop str0 of
        (ok, str) \<Rightarrow> if \<not> ok \<or> str = str0 then (str0, set_err InvalidXtext str 0 st) else (str, st))"

section \<open>Address literals\<close>

text \<open>
  What ends the loop of \<open>rfc821_v6dotnum\<close>: an error, the end of the literal, or the dot of an embedded
  IPv4 address, which starts at \<open>curtok\<close>.
\<close>

datatype v6res =
    V6Fail scanerr
  | V6End string nat int bool
  | V6Dot string nat int

text \<open>The value of a hexadecimal digit as the code computes it.\<close>

definition v6_digit :: "char \<Rightarrow> nat" where
  "v6_digit c =
     (let ch = ord c;
          ch = (if ch \<ge> 97 then ch - 32 else ch);
          ch = (if ch \<ge> 65 then ch - 9 else ch)
      in ch - 48)"

fun v6_loop :: "string \<Rightarrow> string \<Rightarrow> nat \<Rightarrow> int \<Rightarrow> bool \<Rightarrow> nat \<Rightarrow> scanerr \<Rightarrow> v6res" where
  "v6_loop [] curtok tpcnt colonidx saw_xdigit val st = V6End [] tpcnt colonidx saw_xdigit"
| "v6_loop (ch # src) curtok tpcnt colonidx saw_xdigit val st =
     (if ch = NUL \<or> ch = CHR '']'' then V6End (ch # src) tpcnt colonidx saw_xdigit
      else if is_821_xdigit ch then
        (let val = push_bit 4 val OR v6_digit ch
         in if val > 0xffff then V6Fail (set_err V6TooBig (ch # src) (- 1) st)
            else v6_loop src curtok tpcnt colonidx True val st)
      else if ch = CHR '':'' then
        (if \<not> saw_xdigit then
           (if colonidx \<ge> 0 then V6Fail (set_err V6DoubleColon (ch # src) (- 2) st)
            else v6_loop src (ch # src) tpcnt (int tpcnt) saw_xdigit val st)
         else if tpcnt + 2 > 16 then V6Fail (set_err V6TooMany (ch # src) (- 1) st)
         else v6_loop src (ch # src) (tpcnt + 2) colonidx False 0 st)
      else if ch = CHR ''.'' \<and> tpcnt + 4 \<le> 16 then V6Dot curtok tpcnt colonidx
      else V6Fail (set_err V6Error (ch # src) (- 1) st))"

text \<open>The checks behind the loop.\<close>

definition v6_finish :: "string \<Rightarrow> string \<Rightarrow> nat \<Rightarrow> int \<Rightarrow> bool \<Rightarrow> scanerr \<Rightarrow> string \<times> scanerr" where
  "v6_finish s src tpcnt colonidx saw_xdigit st =
     (if saw_xdigit \<and> tpcnt + 2 > 16 then (s, set_err V6TooMany src (- 1) st)
      else
        let tpcnt = (if saw_xdigit then tpcnt + 2 else tpcnt);
            tpcnt = (if colonidx \<ge> 0 then 16 else tpcnt)
        in if tpcnt \<noteq> 16 then (s, set_err V6TooFew src (- 1) st) else (src, st))"

text \<open>The four decimal numbers: \<open>k\<close> of them are left, \<open>p\<close> is at the first digit.\<close>

definition dec_value :: "string \<Rightarrow> nat" where
  "dec_value ds = foldl (\<lambda>v c. v * 10 + (ord c - 48)) 0 ds"

fun dotnum_loop :: "nat \<Rightarrow> string \<Rightarrow> string \<Rightarrow> scanerr \<Rightarrow> string \<times> scanerr" where
  "dotnum_loop 0 s p st = (p, st)"
| "dotnum_loop (Suc k) s p st =
     (let ds = takeWhile is_821_digit p; p = dropWhile is_821_digit p
      in if dec_value ds > 255 \<or> length ds < 1 \<or> length ds > 3 then (s, set_err BadDotnumValue p 0 st)
         else if k > 0 \<and> cur p \<noteq> CHR ''.'' then (s, set_err BadDotnumDot p 0 st)
         else dotnum_loop k s (if k > 0 then tl p else p) st)"

definition ipv6_tag :: "string \<Rightarrow> bool" where
  "ipv6_tag s \<longleftrightarrow> length s \<ge> 5 \<and> map (\<lambda>c. if 65 \<le> ord c \<and> ord c \<le> 90 then char_of (ord c + 32) else c) (take 5 s) = ''ipv6:''"

lemma v6_loop_curtok:
  "v6_loop src curtok tpcnt colonidx saw val st = V6Dot tok t i \<Longrightarrow> suffix tok curtok \<or> suffix tok src"
  by (induction src curtok tpcnt colonidx saw val st rule: v6_loop.induct)
     (auto simp: Let_def suffix_Cons split: if_splits)

function (sequential) rfc821_dotnum :: "string \<Rightarrow> scanerr \<Rightarrow> string \<times> scanerr"
and rfc821_v6dotnum :: "string \<Rightarrow> scanerr \<Rightarrow> string \<times> scanerr" where
  "rfc821_dotnum s st =
     (if cur s = CHR ''i'' \<or> cur s = CHR ''I'' then
        (if ipv6_tag s then
           (case rfc821_v6dotnum (drop 5 s) st of (p, st) \<Rightarrow> if p = drop 5 s then (s, st) else (p, st))
         else (s, set_err BadDotnumV6 s 0 st))
      else dotnum_loop 4 s s st)"
| "rfc821_v6dotnum s st =
     (let src = (if cur s = CHR '':'' then tl s else s)
      in if cur s = CHR '':'' \<and> cur src \<noteq> CHR '':'' then (s, set_err V6LeadingColon s 0 st)
         else
           (case v6_loop src src 0 (- 1) False 0 st of
              V6Fail st \<Rightarrow> (s, st)
            | V6End src tpcnt colonidx saw_xdigit \<Rightarrow> v6_finish s src tpcnt colonidx saw_xdigit st
            | V6Dot curtok tpcnt colonidx \<Rightarrow>
                (case rfc821_dotnum curtok st of
                   (src, st) \<Rightarrow>
                     if src = curtok then (s, st)
                     else v6_finish s src (tpcnt + 4) colonidx False st)))"
  by pat_completeness auto
termination
proof (relation "measure (\<lambda>x. case x of Inl (s, st) \<Rightarrow> 2 * length s | Inr (s, st) \<Rightarrow> 2 * length s + 1)", goal_cases)
  case (2 s st)
  then have "5 \<le> length s" by (simp add: ipv6_tag_def)
  then show ?case by simp
next
  case (3 s st src tok t i)
  from v6_loop_curtok [OF 3(3)] have "length tok \<le> length src" by (auto dest: suffix_length_le)
  then show ?case using 3(1) by (cases s) (auto split: if_splits)
qed simp

declare rfc821_dotnum.simps [simp del] rfc821_v6dotnum.simps [simp del]


section \<open>Domains\<close>

definition is_name_char :: "char \<Rightarrow> bool" where
  "is_name_char c \<longleftrightarrow> is_821_alnum c \<or> c = CHR ''-''"

text \<open>\<open>rfc821_name\<close> returns the pointer and the updated flag \<open>allnump\<close>.\<close>

definition rfc821_name :: "string \<Rightarrow> bool \<Rightarrow> scanerr \<Rightarrow> string \<times> bool \<times> scanerr" where
  "rfc821_name s allnum st =
     (if cur s = NUL then (s, allnum, st)
      else if \<not> is_821_alnum (cur s) then (s, allnum, set_err BadName s 0 st)
      else
        let has_alpha = list_ex (\<lambda>c. is_821_alpha c \<or> c = CHR ''-'') (takeWhile is_name_char s)
        in (dropWhile is_name_char s, allnum \<and> \<not> has_alpha, st))"

lemma rfc821_name_length: "rfc821_name s a st = (q, a', st') \<Longrightarrow> length q \<le> length s"
  by (auto simp: rfc821_name_def Let_def length_dropWhile_le split: if_splits)

lemma rfc821_name_len: "(case rfc821_name s a st of (q, a', st') \<Rightarrow> length q) \<le> length s"
  by (auto split: prod.split dest: rfc821_name_length)

text \<open>The loop over the dot-separated names and the checks behind it.\<close>

function domain_loop :: "string \<Rightarrow> string \<Rightarrow> string \<Rightarrow> bool \<Rightarrow> scanerr \<Rightarrow> string \<times> scanerr" where
  "domain_loop s p q allnum st =
     (if length q < length p \<and> cur q = CHR ''.'' then
        (let p = tl q
         in if cur p = NUL \<or> cur p = CHR ''>'' then (s, set_err DomainSpuriousDot q 0 st)
            else case rfc821_name p allnum st of (q, allnum, st) \<Rightarrow> domain_loop s p q allnum st)
      else if allnum then (s, st\<lparr>rfc821_error := Some DomainAllNumeric\<rparr>)
      else
        let st = (if rfc821_error st = None then st\<lparr>rfc821_error := Some BadDomain\<rparr> else st)
        in if p = q then (s, st) else (q, st))"
  by auto
termination
  by (relation "measure (\<lambda>(s, p, q, a, st). length q)")
     (auto intro!: le_imp_less_Suc order.trans [OF rfc821_name_len] simp: cur_def split: list.splits)

declare domain_loop.simps [simp del]

definition rfc821_domain :: "string \<Rightarrow> scanerr \<Rightarrow> string \<times> scanerr" where
  "rfc821_domain s st =
     (if cur s = NUL then (s, st\<lparr>rfc821_error := Some DomainNoInput\<rparr>)
      else if cur s = CHR ''['' then
        (case rfc821_dotnum (tl s) st of
           (q, st) \<Rightarrow>
             if q = tl s then (s, st)
             else if cur q \<noteq> CHR '']'' then (s, set_err DotnumNoBracket q (- 1) st)
             else (tl q, st))
      else if cur s = CHR ''#'' then
        (let p = dropWhile is_821_digit (tl s)
         in if length p < length (tl s) then (p, st) else (s, set_err DomainNumbers s 0 st))
      else if cur s = CHR ''.'' then (s, set_err DomainLeadingDot s 0 st)
      else
        (case rfc821_name s True st of (q, allnum, st) \<Rightarrow> domain_loop s s q allnum st))"

definition rfc821_at_domain :: "string \<Rightarrow> scanerr \<Rightarrow> string \<times> scanerr" where
  "rfc821_at_domain s st =
     (if cur s = NUL then (s, st)
      else if cur s \<noteq> CHR ''@'' then (s, set_err MissingAt s 0 st)
      else
        (case rfc821_domain (tl s) st of
           (p, st) \<Rightarrow> if p = tl s then (s, set_err MissingDomain (tl s) 0 st) else (p, st)))"

function adl_loop :: "string \<Rightarrow> string \<Rightarrow> scanerr \<Rightarrow> string \<times> scanerr" where
  "adl_loop s p st =
     (case rfc821_at_domain p st of
        (q, st) \<Rightarrow>
          if length q < length p then (if cur q \<noteq> CHR '','' then (q, st) else adl_loop s (tl q) st)
          else (s, st))"
  by auto
termination
  by (relation "measure (\<lambda>(s, p, st). length p)") auto

declare adl_loop.simps [simp del]

definition rfc821_adl :: "string \<Rightarrow> scanerr \<Rightarrow> string \<times> scanerr" where
  "rfc821_adl s st = (if cur s = NUL then (s, st) else adl_loop s s st)"

section \<open>Local parts\<close>

definition rfc821_char :: "string \<Rightarrow> string" where
  "rfc821_char s =
     (if cur s = NUL then s
      else if cur s = BSLASH then (if \<not> is_821_X (cur (tl s)) then s else tl (tl s))
      else if is_821_C (cur s) then tl s
      else s)"

function string_loop :: "string \<Rightarrow> string" where
  "string_loop p = (let q = rfc821_char p in if length q < length p then string_loop q else q)"
  by auto
termination
  by (relation "measure length") auto

declare string_loop.simps [simp del]

definition rfc821_string :: "string \<Rightarrow> scanerr \<Rightarrow> string \<times> scanerr" where
  "rfc821_string s st =
     (if cur s = NUL then (s, st)
      else
        let q = string_loop s
        in if ord (cur q) > 127 then (s, set_err String8bit q 0 st)
           else if q = s then (q, set_err StringUnsuitable s 0 st)
           else (q, st))"

lemma rfc821_char_suffix: "suffix (rfc821_char s) s"
  by (auto simp: rfc821_char_def suffix_tl_trans)

lemma string_loop_suffix: "suffix (string_loop p) p"
proof (induction p rule: string_loop.induct)
  case (1 p)
  show ?case
  proof (cases "length (rfc821_char p) < length p")
    case True
    then show ?thesis
      using 1 rfc821_char_suffix [of p] suffix_order.trans by (subst string_loop.simps) (auto simp: Let_def)
  next
    case False
    then show ?thesis using rfc821_char_suffix [of p] by (subst string_loop.simps) (simp add: Let_def)
  qed
qed

lemma rfc821_string_suffix: "rfc821_string s st = (q, st') \<Longrightarrow> suffix q s"
  using string_loop_suffix [of s] by (auto simp: rfc821_string_def Let_def split: if_splits)

lemma rfc821_string_len: "(case rfc821_string s st of (q, st') \<Rightarrow> length q) \<le> length s"
  by (auto split: prod.split dest: rfc821_string_suffix suffix_length_le)

text \<open>The loop over the intermediate dots.\<close>

function dot_string_loop :: "string \<Rightarrow> bool \<Rightarrow> string \<Rightarrow> scanerr \<Rightarrow> string \<times> scanerr" where
  "dot_string_loop s strict q st =
     (if cur q = CHR ''.'' then
        (let p = tl q
         in case rfc821_string p st of
              (q, st) \<Rightarrow>
                if strict \<and> q = p \<and> cur p = CHR ''.'' then
                  (s, if cur q = CHR ''@'' then st\<lparr>rfc821_error := Some LocalpartEndDot\<rparr> else st)
                else dot_string_loop s strict q st)
      else (q, st))"
  by auto
termination
  by (relation "measure (\<lambda>(s, strict, q, st). length q)")
     (auto intro!: le_imp_less_Suc order.trans [OF rfc821_string_len] simp: rfc821_string_def [of "[]"] cur_def split: list.splits)

declare dot_string_loop.simps [simp del]

definition rfc821_dot_string :: "string \<Rightarrow> bool \<Rightarrow> scanerr \<Rightarrow> string \<times> scanerr" where
  "rfc821_dot_string s strict st =
     (if cur s = NUL then (s, st)
      else
        (case rfc821_string s st of
           (q, st) \<Rightarrow>
             if q = s \<and> strict \<and> cur s = CHR ''.'' then (s, st) else dot_string_loop s strict q st))"

text \<open>The loop of \<open>rfc821_qtext\<close>: the pointer and the flag \<open>fail\<close>.\<close>

function qtext_loop :: "string \<Rightarrow> string \<times> bool" where
  "qtext_loop p =
     (if cur p = NUL then (p, False)
      else if cur p = BSLASH then
        (if is_821_X (cur (tl p)) then qtext_loop (tl (tl p)) else (tl p, True))
      else if is_821_Q (cur p) then qtext_loop (tl p)
      else (p, False))"
  by auto
termination
  by (relation "measure length") (auto simp: cur_def split: list.splits)

declare qtext_loop.simps [simp del]

definition rfc821_qtext :: "string \<Rightarrow> scanerr \<Rightarrow> string \<times> scanerr" where
  "rfc821_qtext s st =
     (if cur s = NUL then (s, st)
      else
        (case qtext_loop s of
           (p, fail) \<Rightarrow>
             if ord (cur p) > 127 then (s, set_err Qtext8bit p 0 st)
             else if fail \<or> p = s then (s, set_err QtextFailure p 0 st)
             else (p, st)))"

definition rfc821_quoted_string :: "string \<Rightarrow> scanerr \<Rightarrow> string \<times> scanerr" where
  "rfc821_quoted_string s st =
     (if cur s = NUL then (s, st)
      else if cur s \<noteq> DQUOTE then (s, set_err QuoteNoInitial s 0 st)
      else
        (case rfc821_qtext (tl s) st of
           (q, st) \<Rightarrow>
             if q = tl s then (s, st)
             else if cur q \<noteq> DQUOTE then (s, set_err QuoteNoFinal q 0 st)
             else (tl q, st)))"

text \<open>Both branches of the loop in \<open>rfc821_localpart\<close> return in its first round.\<close>

definition rfc821_localpart :: "string \<Rightarrow> bool \<Rightarrow> scanerr \<Rightarrow> string \<times> scanerr" where
  "rfc821_localpart s strict st =
     (if cur s = NUL then (s, st)
      else if cur s = DQUOTE then
        (case rfc821_quoted_string s st of (q, st) \<Rightarrow> if q = s then (s, st) else (q, st))
      else
        (case rfc821_dot_string s strict st of (q, st) \<Rightarrow> if q = s then (s, st) else (q, st)))"

section \<open>Mailboxes and paths\<close>

definition rfc821_mailbox :: "string \<Rightarrow> bool \<Rightarrow> scanerr \<Rightarrow> string \<times> scanerr" where
  "rfc821_mailbox s strict st =
     (if cur s = NUL then (s, st)
      else
        (case rfc821_localpart s strict st of
           (p, st) \<Rightarrow>
             if p = s then (s, st)
             else if \<not> strict \<and> (cur p = NUL \<or> cur p = CHR ''>'') then (p, st)
             else if cur p = CHR '':'' then (s, set_err ColonNotDot p 0 st)
             else if cur p \<noteq> CHR ''@'' then (s, set_err MailboxNoAt p 0 st)
             else
               (case rfc821_domain (tl p) st of (q, st) \<Rightarrow> if q = tl p then (s, st) else (q, st))))"

definition rfc821_path2 :: "string \<Rightarrow> bool \<Rightarrow> scanerr \<Rightarrow> string \<times> scanerr" where
  "rfc821_path2 s strict st =
     (if cur s = NUL then (s, set_err NoInput s 0 st)
      else
        let (q, st) = (if cur s = CHR ''@'' then rfc821_adl s st else (s, st));
            mailbox = (\<lambda>p st. case rfc821_mailbox p strict st of (q, st) \<Rightarrow> if q = p then (s, st) else (q, st))
        in if cur s = CHR ''@'' \<and> length q < length s then
             (if cur q = CHR ''>'' \<or> cur q = SPC then (s, set_err NoLocalPart q 0 st)
              else if cur q \<noteq> CHR '':'' then (s, set_err RouteNoColon q 0 st)
              else mailbox (tl q) st)
           else mailbox s st)"

text \<open>
  \<open>rfc821_path\<close> returns the pointer, the buffer after the call and the errors.  When blanks precede the
  closing bracket the rest of the line is copied down over them, which changes what follows \<open>q\<close>.
\<close>

definition rfc821_path :: "string \<Rightarrow> bool \<Rightarrow> scanerr \<Rightarrow> string \<times> string \<times> scanerr" where
  "rfc821_path s strict st =
     (if cur s = NUL then (s, s, set_err NoInput s 0 st)
      else if cur s \<noteq> CHR ''<'' then (s, s, set_err PathNoOpen s 0 st)
      else if cur (tl s) = NUL then (s, s, set_err PrematureEnd (tl s) 0 st)
      else if cur (tl s) = CHR ''>'' then (tl (tl s), s, st)
      else
        (case rfc821_path2 (tl s) strict st of
           (q, st) \<Rightarrow>
             if q = tl s then (s, s, st)
             else
               let r = dropWhile (\<lambda>c. c = SPC \<or> c = HT) q;
                   s' = take (length s - length q) s @ r
               in if cur r \<noteq> CHR ''>''
                  then (s', s', set_err (if cur r \<noteq> NUL then PathGarbage else PathNoClose) r 0 st)
                  else (tl r, s', st)))"


section \<open>Every scanner stays in its buffer\<close>

lemma suffix_trans: "suffix a b \<Longrightarrow> suffix b c \<Longrightarrow> suffix a c"
  by (rule suffix_order.trans)

lemma xtext_loop_suffix: "suffix (snd (xtext_loop s)) s"
proof (induction s rule: xtext_loop.induct)
  case (1 s)
  have t: "suffix (tl s) s" "suffix (tl (tl s)) s" "suffix (tl (tl (tl s))) s"
    by (simp_all add: suffix_tl_trans)
  show ?case
    using 1 t by (subst xtext_loop.simps) (auto simp: Let_def intro: suffix_trans)
qed

lemma v6_loop_suffix: "v6_loop src curtok t i saw v st = V6End q t' i' saw' \<Longrightarrow> suffix q src"
  by (induction src curtok t i saw v st rule: v6_loop.induct)
     (auto simp: Let_def suffix_Cons split: if_splits)

lemma v6_finish_result: "v6_finish s src t i saw st = (q, st') \<Longrightarrow> q = s \<or> q = src"
  by (auto simp: v6_finish_def Let_def split: if_splits)

lemma dotnum_loop_suffix: "suffix p s \<Longrightarrow> dotnum_loop k s p st = (q, st') \<Longrightarrow> suffix q s"
proof (induction k s p st arbitrary: q rule: dotnum_loop.induct)
  case (2 k s p st)
  have d: "suffix (dropWhile is_821_digit p) s" using "2.prems"(1) suffix_dropWhile suffix_trans by blast
  show ?case
    using 2 d suffix_tl_trans [OF d] by (auto simp: Let_def split: if_splits)
qed simp

lemma dotnum_suffix:
  "rfc821_dotnum s st = (q, st') \<Longrightarrow> suffix q s"
  "rfc821_v6dotnum s st = (q, st') \<Longrightarrow> suffix q s"
proof (induction s st and s st arbitrary: q st' and q st' rule: rfc821_dotnum_rfc821_v6dotnum.induct)
  case (1 s st)
  show ?case
    using "1.prems" "1.IH" dotnum_loop_suffix [of s s 4 st q st'] suffix_drop [of 5 s]
    by (subst (asm) rfc821_dotnum.simps) (auto split: if_splits prod.splits intro: suffix_trans)
next
  case (2 s st)
  define src where "src = (if cur s = CHR '':'' then tl s else s)"
  have src: "suffix src s" by (simp add: src_def)
  show ?case
  proof (cases "cur s = CHR '':'' \<and> cur src \<noteq> CHR '':''")
    case True
    then show ?thesis using "2.prems" by (simp add: rfc821_v6dotnum.simps src_def split: if_splits)
  next
    case False
    then have r: "rfc821_v6dotnum s st = (case v6_loop src src 0 (- 1) False 0 st of
        V6Fail st \<Rightarrow> (s, st)
      | V6End src tpcnt colonidx saw_xdigit \<Rightarrow> v6_finish s src tpcnt colonidx saw_xdigit st
      | V6Dot curtok tpcnt colonidx \<Rightarrow>
          (case rfc821_dotnum curtok st of
             (src, st) \<Rightarrow> if src = curtok then (s, st) else v6_finish s src (tpcnt + 4) colonidx False st))"
      unfolding rfc821_v6dotnum.simps [of s st] src_def [symmetric] Let_def by (rule if_not_P)
    show ?thesis
    proof (cases "v6_loop src src 0 (- 1) False 0 st")
      case (V6Fail e)
      then show ?thesis using "2.prems" r by simp
    next
      case (V6End p t i saw)
      then show ?thesis
        using "2.prems" r v6_finish_result v6_loop_suffix [OF V6End] src suffix_trans by fastforce
    next
      case (V6Dot tok t i)
      have "suffix tok s" using v6_loop_curtok [OF V6Dot] src suffix_trans by blast
      moreover obtain p st1 where p: "rfc821_dotnum tok st = (p, st1)" by fastforce
      moreover have "suffix p tok" using "2.IH" [OF src_def _ V6Dot p] False by simp
      ultimately show ?thesis
        using "2.prems" r V6Dot v6_finish_result suffix_trans by (fastforce split: if_splits)
    qed
  qed
qed

lemma name_suffix: "rfc821_name s a st = (q, a', st') \<Longrightarrow> suffix q s"
  by (auto simp: rfc821_name_def Let_def suffix_dropWhile split: if_splits)

lemma domain_loop_suffix:
  "suffix p s \<Longrightarrow> suffix q s \<Longrightarrow> domain_loop s p q a st = (r, st') \<Longrightarrow> suffix r s"
proof (induction s p q a st arbitrary: r st' rule: domain_loop.induct)
  case (1 s p q a st)
  have t: "suffix (tl q) s" using "1.prems"(2) by (rule suffix_tl_trans)
  show ?case
  proof (cases "length q < length p \<and> cur q = CHR ''.'' \<and> \<not> (cur (tl q) = NUL \<or> cur (tl q) = CHR ''>'')")
    case True
    obtain q' a' st1 where n: "rfc821_name (tl q) a st = (q', a', st1)" by (metis prod_cases3)
    have "suffix q' s" using name_suffix [OF n] t suffix_trans by blast
    then show ?thesis
      using "1.IH" [of "tl q" q' "(a', st1)" a' st1 r st'] True n t "1.prems"(3)
      by (simp add: domain_loop.simps [of s p q])
  next
    case False
    then show ?thesis
      using "1.prems" by (subst (asm) domain_loop.simps) (auto simp: Let_def split: if_splits)
  qed
qed

lemma domain_suffix: "rfc821_domain s st = (q, st') \<Longrightarrow> suffix q s"
proof -
  assume d: "rfc821_domain s st = (q, st')"
  obtain p st1 where p: "rfc821_dotnum (tl s) st = (p, st1)" by fastforce
  obtain n a st2 where n: "rfc821_name s True st = (n, a, st2)" by (metis prod_cases3)
  have "suffix (tl p) s" "suffix p s"
    using dotnum_suffix(1) [OF p] suffix_tl [of s] suffix_trans suffix_tl_trans by blast+
  moreover have "suffix (dropWhile is_821_digit (tl s)) s"
    using suffix_dropWhile suffix_tl suffix_trans by blast
  moreover have "domain_loop s s n a st2 = (q, st') \<Longrightarrow> suffix q s"
    using domain_loop_suffix [of s s n a st2 q st'] name_suffix [OF n] by simp
  ultimately show ?thesis
    using d p n by (auto simp: rfc821_domain_def Let_def split: if_splits)
qed

lemma at_domain_suffix: "rfc821_at_domain s st = (q, st') \<Longrightarrow> suffix q s"
  using domain_suffix [of "tl s" st] suffix_tl [of s]
  by (fastforce simp: rfc821_at_domain_def split: if_splits prod.splits intro: suffix_trans)

lemma adl_loop_suffix: "suffix p s \<Longrightarrow> adl_loop s p st = (q, st') \<Longrightarrow> suffix q s"
proof (induction s p st arbitrary: q st' rule: adl_loop.induct)
  case (1 s p st)
  obtain r st1 where r: "rfc821_at_domain p st = (r, st1)" by fastforce
  have "suffix r s" using at_domain_suffix [OF r] "1.prems"(1) suffix_trans by blast
  then show ?case
    using "1.prems" "1.IH" [of r st1 q st'] r suffix_tl_trans [of r s]
    by (simp add: adl_loop.simps [of s p] split: if_splits)
qed

lemma adl_suffix: "rfc821_adl s st = (q, st') \<Longrightarrow> suffix q s"
  using adl_loop_suffix [of s s st q st'] by (auto simp: rfc821_adl_def split: if_splits)

lemma dot_string_loop_suffix: "suffix q s \<Longrightarrow> dot_string_loop s strict q st = (r, st') \<Longrightarrow> suffix r s"
proof (induction s strict q st arbitrary: r st' rule: dot_string_loop.induct)
  case (1 s strict q st)
  obtain p st1 where p: "rfc821_string (tl q) st = (p, st1)" by fastforce
  have "suffix p s" using rfc821_string_suffix [OF p] "1.prems"(1) suffix_tl_trans suffix_trans by blast
  then show ?case
    using "1.prems" "1.IH" [of "tl q" p st1 r st'] p
    by (auto simp: dot_string_loop.simps [of s strict q] Let_def split: if_splits)
qed

lemma dot_string_suffix: "rfc821_dot_string s strict st = (q, st') \<Longrightarrow> suffix q s"
  using rfc821_string_suffix dot_string_loop_suffix
  by (fastforce simp: rfc821_dot_string_def split: if_splits prod.splits)

lemma qtext_loop_suffix: "suffix (fst (qtext_loop p)) p"
proof (induction p rule: qtext_loop.induct)
  case (1 p)
  have t: "suffix (tl p) p" "suffix (tl (tl p)) p" by (simp_all add: suffix_tl_trans)
  show ?case using 1 t by (subst qtext_loop.simps) (auto intro: suffix_trans)
qed

lemma qtext_suffix: "rfc821_qtext s st = (q, st') \<Longrightarrow> suffix q s"
  using qtext_loop_suffix [of s] by (auto simp: rfc821_qtext_def split: if_splits prod.splits)

lemma quoted_string_suffix: "rfc821_quoted_string s st = (q, st') \<Longrightarrow> suffix q s"
  using qtext_suffix [of "tl s" st] suffix_tl [of s] suffix_tl_trans suffix_trans
  by (fastforce simp: rfc821_quoted_string_def split: if_splits prod.splits)

lemma localpart_suffix: "rfc821_localpart s strict st = (q, st') \<Longrightarrow> suffix q s"
  using quoted_string_suffix [of s st] dot_string_suffix [of s strict st]
  by (auto simp: rfc821_localpart_def split: if_splits prod.splits)

lemma mailbox_suffix: "rfc821_mailbox s strict st = (q, st') \<Longrightarrow> suffix q s"
proof -
  assume m: "rfc821_mailbox s strict st = (q, st')"
  obtain p st1 where p: "rfc821_localpart s strict st = (p, st1)" by fastforce
  obtain d st2 where d: "rfc821_domain (tl p) st1 = (d, st2)" by fastforce
  have "suffix p s" "suffix d s"
    using localpart_suffix [OF p] domain_suffix [OF d] suffix_tl_trans suffix_trans by blast+
  then show ?thesis using m p d by (auto simp: rfc821_mailbox_def split: if_splits)
qed

lemma path2_suffix: "rfc821_path2 s strict st = (q, st') \<Longrightarrow> suffix q s"
proof -
  assume m: "rfc821_path2 s strict st = (q, st')"
  obtain a st1 where a: "rfc821_adl s st = (a, st1)" by fastforce
  obtain b st2 where b: "rfc821_mailbox (tl a) strict st1 = (b, st2)" by fastforce
  obtain c st3 where c: "rfc821_mailbox s strict st = (c, st3)" by fastforce
  obtain e st4 where e: "rfc821_mailbox s strict st1 = (e, st4)" by fastforce
  have "suffix b s" "suffix c s" "suffix e s"
    using adl_suffix [OF a] mailbox_suffix [OF b] mailbox_suffix [OF c] mailbox_suffix [OF e] suffix_tl_trans suffix_trans
    by blast+
  then show ?thesis using m a b c e by (auto simp: rfc821_path2_def Let_def split: if_splits)
qed

lemma path_in_buffer:
  assumes "rfc821_path s strict st = (q, s', st')"
  shows "suffix q s' \<and> subseq s' s"
proof (cases "cur s = NUL \<or> cur s \<noteq> CHR ''<'' \<or> cur (tl s) = NUL \<or> cur (tl s) = CHR ''>''")
  case True
  then show ?thesis using assms by (auto simp: rfc821_path_def suffix_tl_trans split: if_splits)
next
  case False
  obtain p st1 where p: "rfc821_path2 (tl s) strict st = (p, st1)" by fastforce
  then have ps: "suffix p s" using path2_suffix suffix_tl suffix_trans by blast
  then obtain u where u: "s = u @ p" by (auto simp: suffix_def)
  define r where "r = dropWhile (\<lambda>c. c = SPC \<or> c = HT) p"
  have "suffix r p" by (simp add: r_def suffix_dropWhile)
  then have "subseq r p" by (auto simp: suffix_def)
  then have "subseq (u @ r) s" unfolding u by (intro list_emb_append_mono) simp_all
  moreover have "suffix r (u @ r)" by (simp add: suffix_def)
  moreover then have "suffix (tl r) (u @ r)" by (rule suffix_tl_trans)
  ultimately show ?thesis
    using False assms p by (auto simp: rfc821_path_def Let_def u r_def [symmetric] split: if_splits)
qed


end
