(* ===== verification/Rfc821gram.thy ===== *)
theory Rfc821gram
  imports Rfc821scn
begin

unbundle bit_operations_syntax

text \<open>
  What the address scanners of \<^verbatim>\<open>smtpserver/rfc821scn.c\<close> accept: the character classes of the table, the
  languages of domain names, address literals, xtext and paths, and when a failing scanner reports an error.
\<close>

section \<open>The character class table\<close>

definition class_row :: "nat \<Rightarrow> nat \<Rightarrow> bool" where
  "class_row n e \<longleftrightarrow>
     (e AND CHAR_DIGIT \<noteq> 0 \<longleftrightarrow> 48 \<le> n \<and> n \<le> 57) \<and>
     (e AND CHAR_ALPHA \<noteq> 0 \<longleftrightarrow> (65 \<le> n \<and> n \<le> 90) \<or> (97 \<le> n \<and> n \<le> 122)) \<and>
     (e AND CHAR_ALNUM \<noteq> 0 \<longleftrightarrow> (48 \<le> n \<and> n \<le> 57) \<or> (65 \<le> n \<and> n \<le> 90) \<or> (97 \<le> n \<and> n \<le> 122)) \<and>
     (e AND CHAR_XCHAR \<noteq> 0 \<longleftrightarrow> 33 \<le> n \<and> n \<le> 126 \<and> n \<noteq> 43 \<and> n \<noteq> 61)"

fun class_rows :: "nat \<Rightarrow> nat list \<Rightarrow> bool" where
  "class_rows n [] = True"
| "class_rows n (e # es) = (class_row n e \<and> class_rows (n + 1) es)"

lemma class_rows_nth: "class_rows n es \<Longrightarrow> i < length es \<Longrightarrow> class_row (n + i) (es ! i)"
  by (induction n es arbitrary: i rule: class_rows.induct) (auto simp: nth_Cons split: nat.split)

lemma class_table: "class_rows 0 char_array"
  by (simp add: char_array_def class_row_def CHAR_ALPHA_def CHAR_ALNUM_def CHAR_DIGIT_def CHAR_XCHAR_def)

lemma char_array_length: "length char_array = 256"
  by (simp add: char_array_def)

lemma class_char: "class_row (ord c) (char_array ! ord c)"
  using class_rows_nth [OF class_table, of "ord c"] by (simp add: char_array_length)

lemma class_digit: "is_821_digit c \<longleftrightarrow> 48 \<le> ord c \<and> ord c \<le> 57"
  using class_char [of c] unfolding class_row_def is_821_digit_def by blast

lemma class_alpha: "is_821_alpha c \<longleftrightarrow> (65 \<le> ord c \<and> ord c \<le> 90) \<or> (97 \<le> ord c \<and> ord c \<le> 122)"
  using class_char [of c] unfolding class_row_def is_821_alpha_def by blast

lemma class_alnum: "is_821_alnum c \<longleftrightarrow> is_821_digit c \<or> is_821_alpha c"
  using class_char [of c] unfolding class_row_def is_821_alnum_def is_821_digit_def is_821_alpha_def by blast

lemma class_xchar: "is_821_xchar c \<longleftrightarrow> 33 \<le> ord c \<and> ord c \<le> 126 \<and> c \<noteq> CHR ''+'' \<and> c \<noteq> CHR ''=''"
proof -
  have "ord c = 43 \<longleftrightarrow> c = CHR ''+''" "ord c = 61 \<longleftrightarrow> c = CHR ''=''"
    using ord_inject [of c "CHR ''+''"] ord_inject [of c "CHR ''=''"] by (simp_all add: ord_def)
  then show ?thesis using class_char [of c] unfolding class_row_def is_821_xchar_def by blast
qed

lemma not_alnum [simp]:
  "\<not> is_821_alnum NUL" "\<not> is_821_alnum (CHR ''.'')" "\<not> is_821_alnum (CHR ''>'')" "\<not> is_821_alnum (CHR '']'')"
  "\<not> is_821_alnum (CHR ''['')" "\<not> is_821_alnum (CHR ''#'')"
  by (simp_all add: class_alnum class_digit class_alpha ord_def)

lemma not_name_char [simp]:
  "\<not> is_name_char NUL" "\<not> is_name_char (CHR ''.'')" "\<not> is_name_char (CHR ''>'')"
  by (simp_all add: is_name_char_def)

section \<open>Domain names\<close>

text \<open>
  The specification: a label starts with a letter or digit and goes on with letters, digits and hyphens;
  a domain name is a list of labels separated by dots, with a letter or a hyphen somewhere.
\<close>

definition label :: "string \<Rightarrow> bool" where
  "label l \<longleftrightarrow> l \<noteq> [] \<and> is_821_alnum (hd l) \<and> (\<forall>c\<in>set l. is_name_char c)"

definition has_alpha :: "string \<Rightarrow> bool" where
  "has_alpha l \<longleftrightarrow> (\<exists>c\<in>set l. is_821_alpha c \<or> c = CHR ''-'')"

definition dot_names :: "string list \<Rightarrow> string" where
  "dot_names ls = concat (map (\<lambda>l. CHR ''.'' # l) ls)"

lemma dot_names_simps [simp]: "dot_names [] = []" "dot_names (l # ls) = CHR ''.'' # l @ dot_names ls"
  by (simp_all add: dot_names_def)

definition domain_name :: "string \<Rightarrow> bool" where
  "domain_name d \<longleftrightarrow> (\<exists>l ls. d = l @ dot_names ls \<and> (\<forall>x\<in>set (l # ls). label x) \<and> (\<exists>x\<in>set (l # ls). has_alpha x))"

text \<open>What can follow a domain name.\<close>

definition name_end :: "string \<Rightarrow> bool" where
  "name_end q \<longleftrightarrow> \<not> is_name_char (cur q) \<and> cur q \<noteq> CHR ''.''"

lemma dropWhile_cur: "P NUL = False \<Longrightarrow> \<not> P (cur (dropWhile P s))"
  by (induction s) (auto simp: cur_def)

lemma dropWhile_append_cur: "\<forall>c\<in>set l. P c \<Longrightarrow> \<not> P (cur q) \<Longrightarrow> dropWhile P (l @ q) = q \<and> takeWhile P (l @ q) = l"
  by (cases q) (auto simp: cur_def)

lemma name_label:
  assumes "label l" "\<not> is_name_char (cur q)"
  shows "rfc821_name (l @ q) a st = (q, a \<and> \<not> has_alpha l, st)"
proof -
  obtain c l' where l: "l = c # l'" "is_821_alnum c" using assms(1) by (cases l) (auto simp: label_def)
  then have "cur (l @ q) = c" "c \<noteq> NUL" by (auto simp: cur_def)
  moreover have "dropWhile is_name_char (l @ q) = q \<and> takeWhile is_name_char (l @ q) = l"
    using assms by (intro dropWhile_append_cur) (auto simp: label_def)
  ultimately show ?thesis
    using l by (simp add: rfc821_name_def Let_def has_alpha_def list_ex_iff)
qed

lemma name_advances:
  assumes "rfc821_name s a st = (q, a', st')" "q \<noteq> s"
  shows "\<exists>l. s = l @ q \<and> label l \<and> \<not> is_name_char (cur q) \<and> a' = (a \<and> \<not> has_alpha l)"
proof -
  define l where "l = takeWhile is_name_char s"
  have n: "cur s \<noteq> NUL" "is_821_alnum (cur s)" "q = dropWhile is_name_char s" "a' = (a \<and> \<not> has_alpha l)"
    using assms by (auto simp: rfc821_name_def Let_def l_def has_alpha_def list_ex_iff split: if_splits)
  have "label l"
    using n(1,2) by (cases s) (auto simp: label_def l_def cur_def is_name_char_def dest: set_takeWhileD)
  then show ?thesis
    using n(3,4) takeWhile_dropWhile_id [of is_name_char s] dropWhile_cur [of is_name_char s] by (metis l_def not_name_char(1))
qed

lemma cur_label: "label l \<Longrightarrow> is_821_alnum (cur (l @ r))"
  by (cases l) (auto simp: label_def)

lemma domain_loop_accepts:
  assumes "\<forall>x\<in>set ls. label x" "name_end r" "length (dot_names ls @ r) < length p"
    "\<not> a \<or> (\<exists>x\<in>set ls. has_alpha x)"
  shows "fst (domain_loop s p (dot_names ls @ r) a st) = r"
  using assms
proof (induction ls arbitrary: p a st)
  case Nil
  then show ?case by (subst domain_loop.simps) (auto simp: name_end_def Let_def)
next
  case (Cons l ls)
  have "\<not> is_name_char (cur (dot_names ls @ r))"
    using Cons.prems(2) by (cases ls) (auto simp: name_end_def)
  then have n: "rfc821_name (l @ dot_names ls @ r) a st = (dot_names ls @ r, a \<and> \<not> has_alpha l, st)"
    using Cons.prems(1) by (intro name_label) auto
  have c: "is_821_alnum (cur (l @ dot_names ls @ r))" "l \<noteq> []"
    using Cons.prems(1) cur_label by (auto simp: label_def)
  have "fst (domain_loop s (l @ dot_names ls @ r) (dot_names ls @ r) (a \<and> \<not> has_alpha l) st) = r"
    using Cons.prems c(2) by (intro Cons.IH) auto
  then show ?case
    using Cons.prems(3) n c(1) by (subst domain_loop.simps) (auto simp: Let_def)
qed

lemma domain_loop_sound:
  assumes "domain_loop s p q a st = (r, st')" "r \<noteq> s" "\<not> is_name_char (cur q)" "suffix q p"
  shows "\<exists>ls. q = dot_names ls @ r \<and> (\<forall>x\<in>set ls. label x) \<and> name_end r \<and> (\<not> a \<or> (\<exists>x\<in>set ls. has_alpha x)) \<and> q \<noteq> p"
  using assms
proof (induction s p q a st arbitrary: r st' rule: domain_loop.induct)
  case (1 s p q a st)
  have len: "length q < length p \<longleftrightarrow> q \<noteq> p"
    using "1.prems"(4) by (auto simp: suffix_def)
  show ?case
  proof (cases "length q < length p \<and> cur q = CHR ''.''")
    case False
    then show ?thesis
      using "1.prems" len by (subst (asm) domain_loop.simps) (auto simp: Let_def name_end_def split: if_splits intro: exI [of _ "[]"])
  next
    case True
    obtain q' a' st1 where n: "rfc821_name (tl q) a st = (q', a', st1)" by (metis prod_cases3)
    have g: "\<not> (cur (tl q) = NUL \<or> cur (tl q) = CHR ''>'')" and d: "domain_loop s (tl q) q' a' st1 = (r, st')"
      using "1.prems"(1,2) True n by (auto simp: domain_loop.simps [of s p q] Let_def split: if_splits)
    have ne: "q' \<noteq> tl q"
      using d "1.prems"(2) by (auto simp: domain_loop.simps [of s "tl q" "tl q"] Let_def split: if_splits)
    obtain l where l: "tl q = l @ q'" "label l" "\<not> is_name_char (cur q')" "a' = (a \<and> \<not> has_alpha l)"
      using name_advances [OF n ne] by blast
    have "suffix q' (tl q)" using l(1) by (auto simp: suffix_def)
    then obtain ls where ls: "q' = dot_names ls @ r" "\<forall>x\<in>set ls. label x" "name_end r" "\<not> a' \<or> (\<exists>x\<in>set ls. has_alpha x)"
      using "1.IH" [of "tl q" q' "(a', st1)" a' st1 r st'] True n g d "1.prems"(2) l(3) by auto
    moreover have "q = CHR ''.'' # tl q" using True by (cases q) auto
    ultimately show ?thesis
      using l True by (intro exI [of _ "l # ls"]) auto
  qed
qed

lemma domain_dispatch:
  assumes "is_821_alnum (cur s)"
  shows "rfc821_domain s st = (case rfc821_name s True st of (q, allnum, st) \<Rightarrow> domain_loop s s q allnum st)"
proof -
  have "cur s \<noteq> NUL" "cur s \<noteq> CHR ''[''" "cur s \<noteq> CHR ''#''" "cur s \<noteq> CHR ''.''"
    using assms not_alnum by metis+
  then show ?thesis by (simp add: rfc821_domain_def)
qed

lemma domain_accepts:
  assumes "domain_name d" "name_end q"
  shows "fst (rfc821_domain (d @ q) st) = q"
proof -
  obtain l ls where d: "d = l @ dot_names ls" "label l" "\<forall>x\<in>set ls. label x" "has_alpha l \<or> (\<exists>x\<in>set ls. has_alpha x)"
    using assms(1) by (auto simp: domain_name_def)
  have "\<not> is_name_char (cur (dot_names ls @ q))"
    using assms(2) by (cases ls) (auto simp: name_end_def)
  then have n: "rfc821_name (d @ q) True st = (dot_names ls @ q, \<not> has_alpha l, st)"
    using name_label [OF d(2), of "dot_names ls @ q" True st] by (simp add: d(1))
  have "l \<noteq> []" using d(2) by (simp add: label_def)
  then have "fst (domain_loop (d @ q) (d @ q) (dot_names ls @ q) (\<not> has_alpha l) st) = q"
    using d assms(2) by (intro domain_loop_accepts) auto
  then show ?thesis
    using domain_dispatch [of "d @ q" st] cur_label [OF d(2), of "dot_names ls @ q"] n by (simp add: d(1))
qed

lemma domain_sound:
  assumes "rfc821_domain s st = (q, st')" "q \<noteq> s" "cur s \<noteq> CHR ''[''" "cur s \<noteq> CHR ''#''"
  shows "\<exists>d. s = d @ q \<and> domain_name d \<and> name_end q"
proof -
  obtain p a st1 where n: "rfc821_name s True st = (p, a, st1)" by (metis prod_cases3)
  have d: "domain_loop s s p a st1 = (q, st')"
    using assms n by (auto simp: rfc821_domain_def split: if_splits)
  have "p \<noteq> s"
    using d assms(2) by (auto simp: domain_loop.simps [of s s s] Let_def split: if_splits)
  then obtain l where l: "s = l @ p" "label l" "\<not> is_name_char (cur p)" "a = (\<not> has_alpha l)"
    using name_advances [OF n] by auto
  then obtain ls where "p = dot_names ls @ q" "\<forall>x\<in>set ls. label x" "name_end q" "\<not> a \<or> (\<exists>x\<in>set ls. has_alpha x)"
    using domain_loop_sound [OF d assms(2)] by (auto simp: suffix_def)
  then show ?thesis using l unfolding domain_name_def by (intro exI [of _ "l @ dot_names ls"]) (auto 4 4)
qed

text \<open>
  C12: On an argument that is neither an address literal nor a number, \<open>rfc821_domain\<close> accepts exactly the
  domain names: it advances to \<open>q\<close> if and only if the text before \<open>q\<close> is a list of labels of
  letters, digits and hyphens, none starting with a hyphen, separated by single dots and not all
  numeric, and \<open>q\<close> is where the longest such text ends.  Otherwise it returns its argument.
\<close>

theorem rfc821_domain_grammar:
  assumes "cur s \<noteq> CHR ''[''" "cur s \<noteq> CHR ''#''" "q \<noteq> s"
  shows "fst (rfc821_domain s st) = q \<longleftrightarrow> (\<exists>d. s = d @ q \<and> domain_name d \<and> name_end q)"
  using domain_sound [of s st q] domain_accepts assms by (metis prod.collapse)

theorem rfc821_domain_grammar_witness:
  "fst (rfc821_domain ''b-1.edu>'' \<lparr>rfc821_error = None, rfc821_error_ptr = None\<rparr>) = ''>'' \<and>
   (\<exists>d. ''b-1.edu>'' = d @ ''>'' \<and> domain_name d \<and> name_end ''>'')"
proof -
  have l: "label ''b-1''" "label ''edu''" "has_alpha ''edu''" "name_end ''>''"
    by (simp_all add: label_def has_alpha_def is_name_char_def name_end_def class_alnum class_alpha class_digit ord_def)
  have "domain_name (''b-1'' @ dot_names [''edu''])"
    unfolding domain_name_def using l by (intro exI [of _ "''b-1''"] exI [of _ "[''edu'']"]) simp
  then have "\<exists>d. ''b-1.edu>'' = d @ ''>'' \<and> domain_name d \<and> name_end ''>''"
    using l(4) by (intro exI [of _ "''b-1'' @ dot_names [''edu'']"]) simp
  moreover have "cur ''b-1.edu>'' \<noteq> CHR ''[''" "cur ''b-1.edu>'' \<noteq> CHR ''#''" "''>'' \<noteq> ''b-1.edu>''" by simp_all
  ultimately show ?thesis using rfc821_domain_grammar by blast
qed

section \<open>Address literals\<close>

definition snum :: "string \<Rightarrow> bool" where
  "snum ds \<longleftrightarrow> ds \<noteq> [] \<and> length ds \<le> 3 \<and> (\<forall>c\<in>set ds. is_821_digit c) \<and> dec_value ds \<le> 255"

lemma not_digit [simp]: "\<not> is_821_digit NUL" "\<not> is_821_digit (CHR ''.'')" "\<not> is_821_digit (CHR '']'')"
    "\<not> is_821_digit (CHR ''i'')" "\<not> is_821_digit (CHR ''I'')" "\<not> is_821_digit (CHR '':'')"
  by (simp_all add: class_digit ord_def)

lemma dotnum_loop_accepts:
  assumes "snum a" "\<forall>x\<in>set ls. snum x" "\<not> is_821_digit (cur q)"
  shows "dotnum_loop (Suc (length ls)) s (a @ dot_names ls @ q) st = (q, st)"
  using assms
proof (induction ls arbitrary: a)
  case Nil
  then have "dropWhile is_821_digit (a @ q) = q \<and> takeWhile is_821_digit (a @ q) = a"
    by (intro dropWhile_append_cur) (auto simp: snum_def)
  then show ?case using Nil by (auto simp: Let_def snum_def)
next
  case (Cons b ls)
  have "dropWhile is_821_digit (a @ dot_names (b # ls) @ q) = dot_names (b # ls) @ q \<and>
        takeWhile is_821_digit (a @ dot_names (b # ls) @ q) = a"
    using Cons.prems by (intro dropWhile_append_cur) (auto simp: snum_def)
  moreover have "dotnum_loop (Suc (length ls)) s (b @ dot_names ls @ q) st = (q, st)"
    using Cons by auto
  ultimately show ?case using Cons.prems(1) by (auto simp: Let_def snum_def)
qed

lemma dotnum_loop_sound:
  assumes "dotnum_loop (Suc k) s p st = (q, st')" "q \<noteq> s"
  shows "\<exists>a ls. p = a @ dot_names ls @ q \<and> length ls = k \<and> snum a \<and> (\<forall>x\<in>set ls. snum x) \<and> \<not> is_821_digit (cur q) \<and> st' = st"
  using assms
proof (induction k arbitrary: p)
  case 0
  let ?a = "takeWhile is_821_digit p"
  have "q = dropWhile is_821_digit p" "snum ?a" "st' = st"
    using 0 by (auto simp: Let_def snum_def split: if_splits dest: set_takeWhileD)
  then show ?case using dropWhile_cur [of is_821_digit p] by (intro exI [of _ ?a] exI [of _ "[]"]) simp
next
  case (Suc k)
  let ?a = "takeWhile is_821_digit p" and ?p = "dropWhile is_821_digit p"
  have a: "snum ?a" "cur ?p = CHR ''.''" and d: "dotnum_loop (Suc k) s (tl ?p) st = (q, st')"
    using Suc.prems by (auto simp: Let_def snum_def split: if_splits dest: set_takeWhileD)
  from Suc.IH [OF d Suc.prems(2)] obtain b ls where b: "tl ?p = b @ dot_names ls @ q" "length ls = k" "snum b"
    "\<forall>x\<in>set ls. snum x" "\<not> is_821_digit (cur q)" "st' = st" by blast
  have "?p = CHR ''.'' # tl ?p" using a(2) by (cases ?p) auto
  then have "p = ?a @ dot_names (b # ls) @ q"
    using b(1) takeWhile_dropWhile_id [of is_821_digit p] by simp
  then show ?case using a b by (intro exI [of _ ?a] exI [of _ "b # ls"]) auto
qed

text \<open>
  A bracketed domain that is not tagged as IPv6 is accepted exactly when it is an IPv4 address
  literal: four groups of one to three digits with values up to 255, separated by dots and followed by the
  closing bracket; the scanner then stands behind the bracket.
\<close>

lemma rfc821_ipv4_literal:
  assumes "cur s \<noteq> CHR ''i''" "cur s \<noteq> CHR ''I''"
  shows "fst (rfc821_domain (CHR ''['' # s) st) = q \<and> q \<noteq> CHR ''['' # s \<longleftrightarrow>
         (\<exists>a b c d. s = a @ ''.'' @ b @ ''.'' @ c @ ''.'' @ d @ '']'' @ q \<and> snum a \<and> snum b \<and> snum c \<and> snum d)"
    (is "?L \<longleftrightarrow> ?R")
proof
  assume L: ?L
  obtain p st1 where p: "rfc821_dotnum s st = (p, st1)" by fastforce
  have "p \<noteq> s" "p = CHR '']'' # q"
    using L p by (auto simp: rfc821_domain_def cur_def split: if_splits list.splits)
  moreover have "dotnum_loop (Suc 3) s s st = (p, st1)"
    using p assms by (simp add: rfc821_dotnum.simps eval_nat_numeral)
  ultimately obtain a ls where a: "s = a @ dot_names ls @ p" "length ls = 3" "snum a" "\<forall>x\<in>set ls. snum x"
    using dotnum_loop_sound by blast
  from a(2) obtain b c d where "ls = [b, c, d]" by (auto simp: length_Suc_conv numeral_3_eq_3)
  then show ?R using a \<open>p = _\<close> by (intro exI [of _ a] exI [of _ b] exI [of _ c] exI [of _ d]) auto
next
  assume ?R
  then obtain a b c d where r: "s = a @ dot_names [b, c, d] @ CHR '']'' # q" "snum a" "snum b" "snum c" "snum d"
    by auto
  then have "dotnum_loop (Suc (length [b, c, d])) s s st = (CHR '']'' # q, st)"
    using dotnum_loop_accepts [of a "[b, c, d]" "CHR '']'' # q" s st] by simp
  then have "rfc821_dotnum s st = (CHR '']'' # q, st)"
    using assms by (simp add: rfc821_dotnum.simps eval_nat_numeral)
  moreover have "CHR '']'' # q \<noteq> s" "q \<noteq> CHR ''['' # s"
    using r(1) by (auto dest!: arg_cong [of _ _ length])
  ultimately show ?L by (simp add: rfc821_domain_def)
qed

lemma rfc821_ipv4_literal_witness:
  "fst (rfc821_domain ''[10.0.0.255]>'' \<lparr>rfc821_error = None, rfc821_error_ptr = None\<rparr>) = ''>''"
proof -
  have "snum ''10''" "snum ''0''" "snum ''255''" by (simp_all add: snum_def class_digit dec_value_def ord_def)
  then have "\<exists>a b c d. ''10.0.0.255]>'' = a @ ''.'' @ b @ ''.'' @ c @ ''.'' @ d @ '']'' @ ''>'' \<and> snum a \<and> snum b \<and> snum c \<and> snum d"
    by (intro exI [of _ "''10''"] exI [of _ "''0''"] exI [of _ "''255''"]) simp
  then show ?thesis
    using rfc821_ipv4_literal [of "''10.0.0.255]>''" "\<lparr>rfc821_error = None, rfc821_error_ptr = None\<rparr>" "''>''"] by simp
qed

lemma v6_loop_end:
  "v6_loop src tok t i saw v st = V6End q t' i' saw' \<Longrightarrow>
     \<exists>u. src = u @ q \<and> (\<forall>c\<in>set u. is_821_xdigit c \<or> c = CHR '':'') \<and> (u = [] \<longrightarrow> t' = t \<and> i' = i \<and> saw' = saw)"
proof (induction src tok t i saw v st rule: v6_loop.induct)
  case (2 ch src tok t i saw v st)
  show ?case
  proof (cases "ch = NUL \<or> ch = CHR '']''")
    case True
    then show ?thesis using "2.prems" by simp
  next
    case False
    then obtain u where "src = u @ q" "\<forall>c\<in>set u. is_821_xdigit c \<or> c = CHR '':''" "is_821_xdigit ch \<or> ch = CHR '':''"
      using "2.prems" "2.IH" by (fastforce simp: Let_def split: if_splits)
    then show ?thesis by (intro exI [of _ "ch # u"]) auto
  qed
qed simp

lemma v6_loop_dot:
  "v6_loop src tok t i saw v st = V6Dot tok' t' i' \<Longrightarrow> tok' = tok \<and> t' = t \<and> i' = i \<or> cur tok' = CHR '':''"
  by (induction src tok t i saw v st rule: v6_loop.induct) (fastforce simp: Let_def split: if_splits)+

lemma dotnum_colon: "cur s = CHR '':'' \<Longrightarrow> rfc821_dotnum s st = (s, set_err BadDotnumValue s 0 st)"
  by (cases s) (auto simp: rfc821_dotnum.simps eval_nat_numeral Let_def)

lemma v6dotnum_sound:
  assumes "rfc821_v6dotnum s st = (q, st')" "q \<noteq> s"
  shows "\<exists>u. s = u @ q \<and> (\<forall>c\<in>set u. is_821_xdigit c \<or> c = CHR '':'')"
proof -
  define src where "src = (if cur s = CHR '':'' then tl s else s)"
  have s: "s = (if cur s = CHR '':'' then [CHR '':''] else []) @ src" by (cases s) (auto simp: src_def)
  have r: "(case v6_loop src src 0 (- 1) False 0 st of
        V6Fail st \<Rightarrow> (s, st)
      | V6End src tpcnt colonidx saw_xdigit \<Rightarrow> v6_finish s src tpcnt colonidx saw_xdigit st
      | V6Dot curtok tpcnt colonidx \<Rightarrow>
          (case rfc821_dotnum curtok st of
             (src, st) \<Rightarrow> if src = curtok then (s, st) else v6_finish s src (tpcnt + 4) colonidx False st)) = (q, st')"
    using assms by (subst (asm) rfc821_v6dotnum.simps) (auto simp: Let_def src_def split: if_splits)
  show ?thesis
  proof (cases "v6_loop src src 0 (- 1) False 0 st")
    case (V6Fail e)
    then show ?thesis using r assms(2) by simp
  next
    case (V6End p t i saw)
    have "q = p" using r V6End assms(2) v6_finish_result [of s p t i saw st q st'] by auto
    obtain u where u: "src = u @ p" "\<forall>c\<in>set u. is_821_xdigit c \<or> c = CHR '':''"
      using v6_loop_end [OF V6End] by blast
    show ?thesis
      using s u \<open>q = p\<close> by (intro exI [of _ "(if cur s = CHR '':'' then [CHR '':''] else []) @ u"]) (auto split: if_splits)
  next
    case (V6Dot tok t i)
    then show ?thesis
      using r assms(2) v6_loop_dot [OF V6Dot] dotnum_colon [of tok st]
      by (auto simp: v6_finish_def split: if_splits prod.splits)
  qed
qed

text \<open>
  The text of an accepted IPv6 address literal between its tag and the scanner's result consists of
  hexadecimal digits and colons only.  So the code for an embedded IPv4 address, as in
  \<^verbatim>\<open>IPv6:::ffff:10.0.0.1\<close>, never contributes to an accepted literal: such a valid literal is rejected.
\<close>

lemma rfc821_ipv6_no_embedded_ipv4:
  assumes "cur s = CHR ''i'' \<or> cur s = CHR ''I''" "fst (rfc821_dotnum s st) = q" "q \<noteq> s"
  shows "ipv6_tag s \<and> (\<exists>u. drop 5 s = u @ q \<and> (\<forall>c\<in>set u. is_821_xdigit c \<or> c = CHR '':''))"
proof -
  obtain p st1 where p: "rfc821_v6dotnum (drop 5 s) st = (p, st1)" by fastforce
  have "ipv6_tag s" "q = p" "p \<noteq> drop 5 s" using assms p by (auto simp: rfc821_dotnum.simps split: if_splits)
  then show ?thesis using v6dotnum_sound [OF p] by simp
qed

lemma rfc821_ipv6_no_embedded_ipv4_witness:
  "\<exists>u. drop 5 ''IPv6:::1]'' = u @ '']'' \<and> (\<forall>c\<in>set u. is_821_xdigit c \<or> c = CHR '':'')"
proof -
  let ?st = "\<lparr>rfc821_error = None, rfc821_error_ptr = None\<rparr>"
  have x: "is_821_xdigit (CHR ''1'')" "\<not> is_821_xdigit (CHR '':'')"
    by (simp_all add: is_821_xdigit_def char_array_def CHAR_XDIGIT_def ord_def)
  have t: "ipv6_tag ''IPv6:::1]''" by code_simp
  have "fst (rfc821_v6dotnum ''::1]'' ?st) = '']''"
    by (simp add: rfc821_v6dotnum.simps v6_finish_def Let_def v6_digit_def x ord_def)
  then have "fst (rfc821_dotnum ''IPv6:::1]'' ?st) = '']''"
    using t by (auto simp: rfc821_dotnum.simps split: prod.split)
  then show ?thesis using rfc821_ipv6_no_embedded_ipv4 [of "''IPv6:::1]''" ?st "'']''"] by simp
qed

section \<open>Error reports\<close>

definition reported :: "scanerr \<Rightarrow> bool" where
  "reported st \<longleftrightarrow> rfc821_error st \<noteq> None"

lemma set_err_reported [simp]:
  "reported (set_err e p off st)" "reported (st\<lparr>rfc821_error := Some e\<rparr>)"
  "rfc821_error st \<noteq> None \<Longrightarrow> reported st" "rfc821_error st = Some e \<Longrightarrow> reported st"
  by (simp_all add: set_err_def reported_def)

lemma dotnum_loop_fail: "suffix p s \<Longrightarrow> dotnum_loop (Suc k) s p st = (s, st') \<Longrightarrow> reported st'"
proof (induction k arbitrary: p)
  case 0
  have "suffix (dropWhile is_821_digit p) p" by (rule suffix_dropWhile)
  then have "dropWhile is_821_digit p = s \<Longrightarrow> takeWhile is_821_digit p = []"
    using 0(1) takeWhile_dropWhile_id [of is_821_digit p] by (metis append_self_conv2 suffix_order.antisym)
  then show ?case using 0(2) by (auto simp: Let_def split: if_splits)
next
  case (Suc k)
  have "suffix (tl (dropWhile is_821_digit p)) s"
    using Suc.prems(1) suffix_dropWhile suffix_trans suffix_tl_trans by blast
  then show ?case using Suc by (auto simp: Let_def simp del: dotnum_loop.simps(2) simp: dotnum_loop.simps(2) [of "Suc k"] split: if_splits)
qed

lemma v6_loop_fail: "v6_loop src tok t i saw v st = V6Fail st' \<Longrightarrow> reported st'"
  by (induction src tok t i saw v st rule: v6_loop.induct) (auto simp: Let_def split: if_splits)

lemma dotnum_fail:
  "rfc821_dotnum s st = (s, st') \<Longrightarrow> reported st'"
  "rfc821_v6dotnum s st = (s, st') \<Longrightarrow> reported st'"
proof (induction s st and s st arbitrary: st' and st' rule: rfc821_dotnum_rfc821_v6dotnum.induct)
  case (1 s st)
  obtain p st1 where p: "rfc821_v6dotnum (drop 5 s) st = (p, st1)" by fastforce
  have "length p \<le> length s - 5" using dotnum_suffix(2) [OF p] by (auto dest: suffix_length_le)
  then have ns: "ipv6_tag s \<Longrightarrow> p \<noteq> s" by (auto simp: ipv6_tag_def)
  show ?case
  proof (cases "cur s = CHR ''i'' \<or> cur s = CHR ''I''")
    case True
    then show ?thesis
      using "1.prems" "1.IH" [of st1] p ns by (auto simp: rfc821_dotnum.simps [of s] split: if_splits)
  next
    case False
    then show ?thesis
      using "1.prems" dotnum_loop_fail [of s s 3 st st'] by (simp add: rfc821_dotnum.simps [of s] eval_nat_numeral)
  qed
next
  case (2 s st)
  define src where "src = (if cur s = CHR '':'' then tl s else s)"
  show ?case
  proof (cases "cur s = CHR '':'' \<and> cur src \<noteq> CHR '':''")
    case True
    then show ?thesis using "2.prems" by (auto simp: rfc821_v6dotnum.simps [of s] src_def)
  next
    case False
    then have r: "(case v6_loop src src 0 (- 1) False 0 st of
        V6Fail st \<Rightarrow> (s, st)
      | V6End src tpcnt colonidx saw_xdigit \<Rightarrow> v6_finish s src tpcnt colonidx saw_xdigit st
      | V6Dot curtok tpcnt colonidx \<Rightarrow>
          (case rfc821_dotnum curtok st of
             (src, st) \<Rightarrow> if src = curtok then (s, st) else v6_finish s src (tpcnt + 4) colonidx False st)) = (s, st')"
      using "2.prems" unfolding rfc821_v6dotnum.simps [of s st] src_def [symmetric] Let_def by (simp only: if_False)
    show ?thesis
    proof (cases "v6_loop src src 0 (- 1) False 0 st")
      case (V6Fail e)
      then show ?thesis using r v6_loop_fail by auto
    next
      case (V6End p t i saw)
      obtain u where u: "src = u @ p" "u = [] \<longrightarrow> t = 0 \<and> i = - 1 \<and> saw = False" using v6_loop_end [OF V6End] by blast
      have "p = s \<Longrightarrow> u = []" using u(1) by (cases s) (auto simp: src_def split: if_splits dest: arg_cong [of _ _ length])
      then show ?thesis using r V6End u(2) by (auto simp: v6_finish_def Let_def split: if_splits)
    next
      case (V6Dot tok t i)
      obtain p st1 where p: "rfc821_dotnum tok st = (p, st1)" by fastforce
      have "suffix tok s" using v6_loop_curtok [OF V6Dot] suffix_trans by (auto simp: src_def intro: suffix_tl_trans split: if_splits)
      then have "p \<noteq> tok \<Longrightarrow> p \<noteq> s" using dotnum_suffix(1) [OF p] suffix_order.antisym by blast
      moreover have "p = tok \<Longrightarrow> reported st1" using "2.IH" [OF src_def _ V6Dot] False p by blast
      ultimately show ?thesis using r V6Dot p by (auto simp: v6_finish_def Let_def split: if_splits)
    qed
  qed
qed

lemma domain_loop_fail: "domain_loop s p q a st = (s, st') \<Longrightarrow> suffix p s \<Longrightarrow> suffix q p \<Longrightarrow> reported st'"
proof (induction s p q a st arbitrary: st' rule: domain_loop.induct)
  case (1 s p q a st)
  obtain q' a' st1 where n: "rfc821_name (tl q) a st = (q', a', st1)" by (metis prod_cases3)
  have "suffix (tl q) s" "suffix q' (tl q)"
    using "1.prems"(2,3) suffix_tl_trans suffix_trans name_suffix [OF n] by blast+
  then show ?case
    using "1.prems"(1) "1.IH" [of "tl q" q' "(a', st1)" a' st1 st'] n
    by (auto simp: domain_loop.simps [of s p q] Let_def split: if_splits)
qed

lemma domain_fail:
  assumes "rfc821_domain s st = (s, st')"
  shows "reported st'"
proof -
  obtain p st1 where p: "rfc821_dotnum (tl s) st = (p, st1)" by fastforce
  obtain n a st2 where n: "rfc821_name s True st = (n, a, st2)" by (metis prod_cases3)
  have "length p \<le> length (tl s)" using dotnum_suffix(1) [OF p] suffix_length_le by blast
  then have "cur s = CHR ''['' \<Longrightarrow> tl p \<noteq> s" by (cases s; cases p) (auto dest: arg_cong [of _ _ length])
  moreover have "p = tl s \<Longrightarrow> reported st1" using dotnum_fail(1) p by blast
  moreover have "domain_loop s s n a st2 = (s, st') \<Longrightarrow> reported st'"
    using domain_loop_fail [of s s n a st2] name_suffix [OF n] by auto
  ultimately show ?thesis
    using assms p n by (auto simp: rfc821_domain_def Let_def split: if_splits)
qed

lemma string_fail: "rfc821_string s st = (s, st') \<Longrightarrow> cur s \<noteq> NUL \<Longrightarrow> reported st'"
  by (auto simp: rfc821_string_def Let_def split: if_splits)

lemma dot_string_loop_fail:
  "dot_string_loop s strict q st = (s, st') \<Longrightarrow> suffix q s \<Longrightarrow> (q = s \<longrightarrow> reported st \<or> cur s = CHR ''.'') \<Longrightarrow> reported st'"
proof (induction s strict q st arbitrary: st' rule: dot_string_loop.induct)
  case (1 s strict q st)
  obtain p st1 where p: "rfc821_string (tl q) st = (p, st1)" by fastforce
  show ?case
  proof (cases "cur q = CHR ''.''")
    case False
    then show ?thesis using "1.prems" by (auto simp: dot_string_loop.simps [of s strict q])
  next
    case True
    have pq: "suffix p (tl q)" by (rule rfc821_string_suffix [OF p])
    have "length p < length q" using suffix_length_le [OF pq] True by (cases q) auto
    then have "p \<noteq> s" using "1.prems"(2) by (auto dest: suffix_length_le)
    have "suffix p s" using pq suffix_tl_trans [OF "1.prems"(2)] by (rule suffix_trans)
    then show ?thesis
      using "1.prems"(1) "1.IH" [of "tl q" p st1 st'] \<open>p \<noteq> s\<close> True p string_fail [of "tl q" st st1]
      by (auto simp: dot_string_loop.simps [of s strict q] Let_def split: if_splits)
  qed
qed

lemma dot_string_fail:
  assumes "rfc821_dot_string s strict st = (s, st')" "cur s \<noteq> NUL"
  shows "reported st'"
proof -
  obtain p st1 where p: "rfc821_string s st = (p, st1)" by fastforce
  then show ?thesis
    using assms string_fail [of s st] rfc821_string_suffix [OF p] dot_string_loop_fail [of s strict p st1 st']
    by (auto simp: rfc821_dot_string_def split: if_splits)
qed

lemma qtext_fail: "rfc821_qtext s st = (s, st') \<Longrightarrow> cur s \<noteq> NUL \<Longrightarrow> reported st'"
  by (auto simp: rfc821_qtext_def split: if_splits prod.splits)

lemma localpart_fail:
  assumes "rfc821_localpart s strict st = (s, st')" "cur s \<noteq> NUL" "\<not> reported st'"
  shows "cur s = DQUOTE \<and> cur (tl s) = NUL"
proof (cases "cur s = DQUOTE")
  case False
  then show ?thesis using assms dot_string_fail by (auto simp: rfc821_localpart_def split: if_splits prod.splits)
next
  case True
  obtain q st1 where q: "rfc821_qtext (tl s) st = (q, st1)" by fastforce
  have "length (tl q) < length s"
    using suffix_length_le [OF qtext_suffix [OF q]] True by (cases s) auto
  then have "tl q \<noteq> s" by auto
  then show ?thesis
    using assms True q qtext_fail [of "tl s" st st1]
    by (auto simp: rfc821_localpart_def rfc821_quoted_string_def split: if_splits)
qed

lemma mailbox_fail:
  assumes "rfc821_mailbox s strict st = (s, st')" "\<not> reported st'"
  shows "cur s = NUL \<or> cur s = DQUOTE \<and> cur (tl s) = NUL"
proof (rule ccontr)
  assume n: "\<not> ?thesis"
  obtain p st1 where p: "rfc821_localpart s strict st = (p, st1)" by fastforce
  obtain q st2 where q: "rfc821_domain (tl p) st1 = (q, st2)" by fastforce
  have "suffix p s" "suffix q (tl p)" using localpart_suffix [OF p] domain_suffix [OF q] by auto
  then have "length q \<le> length (tl p)" "length p \<le> length s" by (auto dest: suffix_length_le)
  then have "p \<noteq> [] \<Longrightarrow> q \<noteq> s" by (cases p) auto
  moreover have "q = tl p \<Longrightarrow> reported st2" using domain_fail q by blast
  moreover have "p = s \<Longrightarrow> reported st1" using localpart_fail [of s strict st st1] p n by blast
  ultimately show False
    using assms p q n by (cases p) (auto simp: rfc821_mailbox_def split: if_splits)
qed

lemma path2_fail:
  assumes "rfc821_path2 s strict st = (s, st')" "\<not> reported st'"
  shows "\<exists>u q. s = u @ q \<and> (u = [] \<or> last u = CHR '':'') \<and> (cur q = NUL \<or> cur q = DQUOTE \<and> cur (tl q) = NUL)"
proof -
  obtain a st1 where a: "rfc821_adl s st = (a, st1)" by fastforce
  obtain b st2 where b: "rfc821_mailbox (tl a) strict st1 = (b, st2)" by fastforce
  obtain u where u: "s = u @ a" using adl_suffix [OF a] by (auto simp: suffix_def)
  have nb: "cur a = CHR '':'' \<Longrightarrow> b \<noteq> s"
    using suffix_length_le [OF mailbox_suffix [OF b]] u by (cases a) auto
  show ?thesis
  proof (cases "cur s = CHR ''@'' \<and> length a < length s")
    case True
    then have c: "cur a = CHR '':''" "b = tl a" "st2 = st'"
      using assms a b nb by (auto simp: rfc821_path2_def Let_def split: if_splits)
    then have "cur (tl a) = NUL \<or> cur (tl a) = DQUOTE \<and> cur (tl (tl a)) = NUL"
      using mailbox_fail b assms(2) by blast
    moreover have "s = (u @ [CHR '':'']) @ tl a" using u c(1) by (cases a) auto
    ultimately show ?thesis by (intro exI [of _ "u @ [CHR '':'']"] exI [of _ "tl a"]) auto
  next
    case False
    then have "cur s \<noteq> NUL" "\<exists>st0. rfc821_mailbox s strict st0 = (s, st')"
      using assms a by (auto simp: rfc821_path2_def Let_def split: if_splits prod.splits)
    then show ?thesis using mailbox_fail assms(2) by (intro exI [of _ "[]"] exI [of _ s]) auto
  qed
qed

lemma path_fail:
  assumes "rfc821_path s strict st = (q, q, st')" "\<not> reported st'"
  shows "\<exists>u r. s = u @ r \<and> u \<noteq> [] \<and> (u = ''<'' \<or> last u = CHR '':'') \<and> (cur r = NUL \<or> cur r = DQUOTE \<and> cur (tl r) = NUL)"
proof -
  obtain p st1 where p: "rfc821_path2 (tl s) strict st = (p, st1)" by fastforce
  have ps: "suffix p (tl s)" by (rule path2_suffix [OF p])
  have s: "s = CHR ''<'' # tl s" "p = tl s" "st1 = st'"
    using assms p suffix_length_le [OF ps]
    by (cases s; auto simp: rfc821_path_def Let_def suffix_def split: if_splits dest: arg_cong [of _ _ length])+
  then obtain u r where "tl s = u @ r" "u = [] \<or> last u = CHR '':''" "cur r = NUL \<or> cur r = DQUOTE \<and> cur (tl r) = NUL"
    using path2_fail [of "tl s" strict st st'] p assms(2) by blast
  then show ?thesis using s(1) by (intro exI [of _ "CHR ''<'' # u"] exI [of _ r]) auto
qed

lemma cur_NUL_free: "NUL \<notin> set r \<Longrightarrow> cur r = NUL \<longleftrightarrow> r = []"
  by (cases r) auto

text \<open>
  When \<open>rfc821_path\<close> rejects a NUL-free argument, the global \<open>rfc821_error\<close> names an error for the
  reply to the client, unless the argument is the opening bracket and a lone quotation mark, or ends
  with a colon or with a colon and a lone quotation mark (a source route with nothing behind it).
\<close>

lemma rfc821_path_reports_errors:
  assumes "rfc821_path s strict st = (q, s', st')" "q = s'" "NUL \<notin> set s"
  shows "rfc821_error st' \<noteq> None \<or> s = [CHR ''<'', DQUOTE] \<or>
         (\<exists>u. s = u @ [CHR '':''] \<or> s = u @ [CHR '':'', DQUOTE])"
proof (cases "reported st'")
  case True
  then show ?thesis by (simp add: reported_def)
next
  case False
  then obtain u r where r: "s = u @ r" "u \<noteq> []" "u = ''<'' \<or> last u = CHR '':''"
    "cur r = NUL \<or> cur r = DQUOTE \<and> cur (tl r) = NUL"
    using path_fail [of s strict st s' st'] assms by blast
  have "NUL \<notin> set r" "NUL \<notin> set (tl r)" using assms(3) r(1) by (cases r; auto)+
  then have "r = [] \<or> r = [DQUOTE]" using r(4) by (cases r) (auto simp: cur_NUL_free)
  moreover have "last u = CHR '':'' \<Longrightarrow> u = butlast u @ [CHR '':'']" using r(2) by (metis append_butlast_last_id)
  moreover have "s \<noteq> ''<''" using assms(1) False by (auto simp: rfc821_path_def)
  ultimately show ?thesis using r(1,3) by (metis append.assoc append_Cons append_Nil append_Nil2)
qed

lemma rfc821_path_reports_errors_witness:
  "rfc821_error (snd (snd (rfc821_path ''foo'' True \<lparr>rfc821_error = None, rfc821_error_ptr = None\<rparr>))) \<noteq> None"
proof -
  let ?st = "\<lparr>rfc821_error = None, rfc821_error_ptr = None\<rparr>"
  have "rfc821_path ''foo'' True ?st = (''foo'', ''foo'', set_err PathNoOpen ''foo'' 0 ?st)"
    by (simp add: rfc821_path_def)
  then show ?thesis
    using rfc821_path_reports_errors [of "''foo''" True ?st "''foo''" "''foo''"] by simp
qed

text \<open>
  The exceptions are real: in every state and in both modes \<open>rfc821_path\<close> rejects the line
  \<^verbatim>\<open><"\<close> and the line \<^verbatim>\<open><@[1.2.3.4]:\<close> without touching the error globals, so the reply is built from a
  null or stale message.
\<close>

lemma rfc821_path_silent_failure:
  "rfc821_path [CHR ''<'', DQUOTE] strict st = ([CHR ''<'', DQUOTE], [CHR ''<'', DQUOTE], st) \<and>
   rfc821_path ''<@[1.2.3.4]:'' strict st = (''<@[1.2.3.4]:'', ''<@[1.2.3.4]:'', st)"
proof
  show "rfc821_path [CHR ''<'', DQUOTE] strict st = ([CHR ''<'', DQUOTE], [CHR ''<'', DQUOTE], st)"
    by (simp add: rfc821_path_def rfc821_path2_def rfc821_mailbox_def rfc821_localpart_def rfc821_quoted_string_def rfc821_qtext_def)
  have "snum ''1''" "snum ''2''" "snum ''3''" "snum ''4''" by (simp_all add: snum_def class_digit dec_value_def ord_def)
  then have "dotnum_loop 4 ''1.2.3.4]:'' ''1.2.3.4]:'' st = ('']:'', st)"
    using dotnum_loop_accepts [of "''1''" "[''2'', ''3'', ''4'']" "'']:''" "''1.2.3.4]:''" st] by (simp add: eval_nat_numeral)
  then have "rfc821_adl ''@[1.2.3.4]:'' st = ('':'', st)"
    by (simp add: rfc821_adl_def adl_loop.simps rfc821_at_domain_def rfc821_domain_def rfc821_dotnum.simps)
  then show "rfc821_path ''<@[1.2.3.4]:'' strict st = (''<@[1.2.3.4]:'', ''<@[1.2.3.4]:'', st)"
    by (simp add: rfc821_path_def rfc821_path2_def rfc821_mailbox_def)
qed

end
