(* ===== verification/Smtpargs.thy ===== *)
theory Smtpargs
  imports Rfc821gram Stdio
begin

unbundle bit_operations_syntax

text \<open>
  The arguments of the SMTP commands MAIL and RCPT, from \<^verbatim>\<open>smtpserver/smtpcmds.c\<close>: the address between the
  angle brackets, the ESMTP parameters behind it and the conversion of the address to the quoting of RFC 822.

  A pointer into the command line is the rest of the line, without its NUL.  A parser ends with a value, with the code of
  the error reply it has sent, or it runs over the end of the line.
\<close>

section \<open>Outcomes and settings\<close>

datatype 'a outcome = Value 'a | Reply int | Overrun

text \<open>The settings of the server that the parsers look at; \<open>deliverby_ok\<close> is negative when DELIVERBY is off.\<close>

record settings =
  strict_protocol :: int
  allow_source_route :: bool
  dsn_ok :: bool
  mime8bitok :: bool
  auth_ok :: bool
  deliverby_ok :: int

text \<open>\<open>strict\<close> and \<open>sloppy\<close> are the styles R and S of the peer; sloppy takes precedence.\<close>

definition blank :: "char \<Rightarrow> bool" where
  "blank c \<longleftrightarrow> c = SPC \<or> c = HT"

definition skip_one :: "string \<Rightarrow> string" where
  "skip_one cp = (if cur cp = SPC then tl cp else cp)"

text \<open>The source route before the colon is dropped; a path that starts with \<open>@\<close> has one.\<close>

definition skip_route :: "string \<Rightarrow> string outcome" where
  "skip_route cp = (let r = dropWhile (\<lambda>c. c \<noteq> CHR '':'') cp in if r = [] then Overrun else Value r)"

fun bind_outcome :: "'a outcome \<Rightarrow> ('a \<Rightarrow> 'b outcome) \<Rightarrow> 'b outcome" where
  "bind_outcome (Value x) f = f x"
| "bind_outcome (Reply n) f = Reply n"
| "bind_outcome Overrun f = Overrun"

section \<open>The path of MAIL\<close>

text \<open>The address, the text behind it, the rest of the line and whether a source route was dropped.\<close>

type_synonym path = "string \<times> string \<times> string \<times> bool"

definition cut :: "string \<Rightarrow> nat \<Rightarrow> string \<Rightarrow> bool \<Rightarrow> path" where
  "cut cp alen s routed = (take alen cp, drop alen cp, s, routed)"

definition strict_path :: "settings \<Rightarrow> bool \<Rightarrow> string \<Rightarrow> scanerr \<Rightarrow> path outcome" where
  "strict_path cfg strict cp st =
     (case rfc821_path cp (strict \<or> strict_protocol cfg > 0) st of
        (s, cp', _) \<Rightarrow>
          if s = cp' then Reply 501
          else if cur s = CHR ''>'' then Reply 501
          else if cur (tl cp') = CHR ''@'' \<and> \<not> allow_source_route cfg then
            bind_outcome (skip_route cp') (\<lambda>cp. Value (cut (tl cp) (length (tl cp) - length s - 1) s True))
          else Value (cut (tl cp') (length (tl cp') - length s - 1) s False))"

definition close_bracket :: "string \<Rightarrow> string \<Rightarrow> bool \<Rightarrow> path outcome" where
  "close_bracket cp s routed =
     (let s' = dropWhile blank s
      in if cur s' \<noteq> CHR ''>'' then Reply 501 else Value (cut cp (length cp - length s) (tl s') routed))"

definition sloppy_path :: "settings \<Rightarrow> bool \<Rightarrow> string \<Rightarrow> scanerr \<Rightarrow> path outcome" where
  "sloppy_path cfg null_ok cp0 st =
     (let cp = dropWhile blank (tl cp0); s = fst (rfc821_path2 cp False st)
      in if s = cp \<and> \<not> (null_ok \<and> cur s = CHR ''>'') then Reply 501
         else if cur cp = CHR ''@'' \<and> \<not> allow_source_route cfg then
           bind_outcome (skip_route cp) (\<lambda>cp. close_bracket (tl cp) s True)
         else close_bracket cp s False)"

text \<open>Without brackets the colon of a source route stays in the address.\<close>

definition bare_path :: "settings \<Rightarrow> bool \<Rightarrow> string \<Rightarrow> scanerr \<Rightarrow> path outcome" where
  "bare_path cfg strict cp st =
     (let s = fst (rfc821_path2 cp strict st)
      in if s = cp then Reply 501
         else if cur s = CHR ''>'' then Reply 501
         else if cur cp = CHR ''@'' \<and> \<not> allow_source_route cfg then
           bind_outcome (skip_route cp) (\<lambda>cp. Value (cut cp (length cp - length s) s True))
         else Value (cut cp (length cp - length s) s False))"

fun skip_brackets :: "string \<Rightarrow> string" where
  "skip_brackets (c # d # cs) = (if d = CHR ''<'' then skip_brackets (d # cs) else c # d # cs)"
| "skip_brackets cs = cs"

definition lenient :: "settings \<Rightarrow> bool \<Rightarrow> bool" where
  "lenient cfg sloppy \<longleftrightarrow> strict_protocol cfg < 1 \<or> sloppy"

text \<open>The test between the colon and the bracket; a name without brackets passes only if that is allowed.\<close>

definition find_bracket :: "settings \<Rightarrow> bool \<Rightarrow> string \<Rightarrow> string outcome" where
  "find_bracket cfg sloppy cp0 =
     (let cp = (if lenient cfg sloppy then dropWhile isspace cp0 else cp0)
      in if cp = [] then Reply 501
         else if cur cp \<noteq> CHR ''<'' \<and> \<not> sloppy \<and> strict_protocol cfg \<ge> 0 then Reply 501
         else Value cp)"

definition mail_path :: "settings \<Rightarrow> bool \<Rightarrow> bool \<Rightarrow> string \<Rightarrow> scanerr \<Rightarrow> path outcome" where
  "mail_path cfg strict sloppy cp0 st =
     (let cp1 = skip_one cp0; cp2 = (if lenient cfg sloppy then dropWhile blank cp1 else cp1)
      in if \<not> CISTREQN cp2 ''From:'' 5 then Reply 501
         else bind_outcome (find_bracket cfg sloppy (drop 5 cp2)) (\<lambda>cp3.
                let cp = (if sloppy then skip_brackets cp3 else cp3)
                in if cur (tl cp) = CHR ''<'' then Reply 501
                   else if cur cp = CHR ''<'' then
                     (if \<not> sloppy then strict_path cfg strict cp st else sloppy_path cfg True cp st)
                   else bare_path cfg strict cp st))"

section \<open>The path of RCPT\<close>

text \<open>
  The path of a recipient must not be empty.  In sloppy mode \<open>rfc821_path\<close> has closed the gap before the bracket
  already when the path is scanned again.
\<close>

definition rcpt_strict_path :: "settings \<Rightarrow> bool \<Rightarrow> string \<Rightarrow> scanerr \<Rightarrow> path outcome" where
  "rcpt_strict_path cfg strict cp st =
     (case rfc821_path cp (strict \<or> strict_protocol cfg > 0) st of
        (s, cp', _) \<Rightarrow>
          if s = cp' \<and> \<not> CISTREQN cp' ''<POSTMASTER>'' 12 then Reply 501
          else
            let s = (if s = cp' then drop 12 s else s)
            in if cur s = CHR ''>'' then Reply 501
               else if cur (tl cp') = CHR ''@'' \<and> \<not> allow_source_route cfg then
                 bind_outcome (skip_route cp') (\<lambda>cp. Value (cut (tl cp) (length (tl cp) - length s - 1) s True))
               else Value (cut (tl cp') (length (tl cp') - length s - 1) s False))"

definition rcpt_path :: "settings \<Rightarrow> bool \<Rightarrow> bool \<Rightarrow> string \<Rightarrow> scanerr \<Rightarrow> path outcome" where
  "rcpt_path cfg strict sloppy cp0 st =
     (let cp1 = skip_one cp0; cp2 = (if strict_protocol cfg < 1 then dropWhile blank cp1 else cp1)
      in if \<not> CISTREQN cp2 ''To:'' 3 then Reply 501
         else bind_outcome (find_bracket cfg sloppy (drop 3 cp2)) (\<lambda>cp.
                if cur (tl cp) = CHR ''>'' \<or> cur (tl cp) = CHR ''<'' then Reply 501
                else
                  bind_outcome
                    (if cur cp = CHR ''<'' then
                       (if \<not> sloppy then rcpt_strict_path cfg strict cp st
                        else sloppy_path cfg False (fst (snd (rfc821_path cp (strict \<or> strict_protocol cfg > 0) st))) st)
                     else bare_path cfg (strict \<or> strict_protocol cfg > 0) cp st)
                    (\<lambda>p. if fst p = [] then Reply 501 else Value p)))"

section \<open>The parameters of MAIL\<close>

definition DELIVERBY_R :: nat where "DELIVERBY_R = 1"
definition DELIVERBY_N :: nat where "DELIVERBY_N = 2"
definition DELIVERBY_T :: nat where "DELIVERBY_T = 4"

datatype body = Body8BITMIME | BodyBINARYMIME | Body7BIT

record mailopts =
  m_ret :: "string option"
  m_body :: "body option"
  m_size :: int
  m_envid :: "string option"
  m_auth :: "string option"
  m_bytime :: int
  m_byflags :: nat

definition no_mailopts :: mailopts where
  "no_mailopts = \<lparr>m_ret = None, m_body = None, m_size = - 1, m_envid = None, m_auth = None, m_bytime = 0, m_byflags = 0\<rparr>"

definition skip_blanks :: "settings \<Rightarrow> bool \<Rightarrow> bool \<Rightarrow> string \<Rightarrow> string" where
  "skip_blanks cfg strict sloppy s =
     (let isb = (\<lambda>c. c = SPC \<or> sloppy \<and> c = HT)
      in if strict_protocol cfg > 0 \<or> strict \<and> \<not> sloppy then (if s \<noteq> [] \<and> isb (hd s) then tl s else s)
         else dropWhile isb s)"

text \<open>What follows a value: the end of the line or a blank.\<close>

definition at_end :: "string \<Rightarrow> bool" where
  "at_end s \<longleftrightarrow> s = [] \<or> blank (hd s)"

definition isdigit :: "char \<Rightarrow> bool" where
  "isdigit c \<longleftrightarrow> 48 \<le> ord c \<and> ord c \<le> 57"

fun size_digits :: "string \<Rightarrow> int \<Rightarrow> int \<times> string" where
  "size_digits [] v = (v, [])"
| "size_digits (c # s) v =
     (if isdigit c \<and> \<not> v > 100000000 then size_digits s (v * 10 + (int (ord c) - 48)) else (v, c # s))"

text \<open>The value of BY; its digits are counted only behind them, and a value of more than nine is refused.\<close>

fun by_flags :: "string \<Rightarrow> nat \<Rightarrow> (nat \<times> string) option" where
  "by_flags [] f = Some (f, [])"
| "by_flags (c # p) f =
     (if blank c then Some (f, c # p)
      else if c = CHR ''T'' \<or> c = CHR ''t'' then
        (if f AND DELIVERBY_T \<noteq> 0 then None else by_flags p (f OR DELIVERBY_T))
      else if c = CHR ''N'' \<or> c = CHR ''n'' then
        (if f AND (DELIVERBY_R OR DELIVERBY_N) \<noteq> 0 then None else by_flags p (f OR DELIVERBY_N))
      else if c = CHR ''R'' \<or> c = CHR ''r'' then
        (if f AND (DELIVERBY_R OR DELIVERBY_N) \<noteq> 0 then None else by_flags p (f OR DELIVERBY_R))
      else None)"

definition by_param :: "settings \<Rightarrow> string \<Rightarrow> (int \<times> nat \<times> string) outcome" where
  "by_param cfg s =
     (let neg = (cur s = CHR ''-''); p = (if neg then tl s else s);
          ds = takeWhile isdigit p; p = dropWhile isdigit p;
          v = int (dec_value ds); v = (if neg then - v else v)
      in if length ds > 9 then Reply 501
         else if cur p \<noteq> CHR '';'' then Reply 501
         else case by_flags (tl p) 0 of
                None \<Rightarrow> Reply 501
              | Some (f, p) \<Rightarrow>
                  if f AND (DELIVERBY_N OR DELIVERBY_R) = 0 then Reply 501
                  else if f AND DELIVERBY_R \<noteq> 0 \<and> v \<le> 0 then Reply 501
                  else if f AND DELIVERBY_R \<noteq> 0 \<and> deliverby_ok cfg > 0 \<and> v < deliverby_ok cfg then Reply 553
                  else Value (v, f, p))"

text \<open>
  The parameters one by one, from the value on.  Behind the values of ENVID and AUTH the scanner steps over the next
  character whether there is one or not.
\<close>

definition ret_param :: "string \<Rightarrow> mailopts \<Rightarrow> (mailopts \<times> string) outcome" where
  "ret_param v m =
     (if m_ret m \<noteq> None then Reply 501
      else
        let r = (if CISTREQN ''FULL'' v 4 \<or> CISTREQN ''HDRS'' v 4 then drop 4 v else v)
        in if cur r = HT then Reply 501 else Value (m\<lparr>m_ret := Some (take (length v - length r) v)\<rparr>, r))"

definition body_param :: "string \<Rightarrow> mailopts \<Rightarrow> (mailopts \<times> string) outcome" where
  "body_param v m =
     (if m_body m \<noteq> None then Reply 501
      else
        let (b, k) = (if CISTREQN v ''8BITMIME'' 8 then (Some Body8BITMIME, 8)
                      else if CISTREQN v ''BINARYMIME'' 10 then (Some BodyBINARYMIME, 10)
                      else if CISTREQN v ''7BIT'' 4 then (Some Body7BIT, 4)
                      else (None, 0))
        in if at_end (drop k v) then Value (m\<lparr>m_body := b\<rparr>, drop k v) else Reply 501)"

definition size_param :: "string \<Rightarrow> mailopts \<Rightarrow> (mailopts \<times> string) outcome" where
  "size_param s m =
     (if m_size m \<noteq> - 1 then Reply 501
      else
        let (v, r) = size_digits s 0
        in if \<not> at_end r \<or> v > 1000000000 then Reply 501 else Value (m\<lparr>m_size := v\<rparr>, r))"

definition xtext_param :: "string \<Rightarrow> scanerr \<Rightarrow> (string \<times> string) outcome" where
  "xtext_param v st =
     (let p = fst (xtext_string v st)
      in if p = v then Reply 501 else if p = [] then Overrun else Value (take (length v - length p) v, tl p))"

definition envid_param :: "string \<Rightarrow> mailopts \<Rightarrow> scanerr \<Rightarrow> (mailopts \<times> string) outcome" where
  "envid_param v m st =
     (if m_envid m \<noteq> None then Reply 501
      else bind_outcome (xtext_param v st) (\<lambda>(x, r). Value (m\<lparr>m_envid := Some x\<rparr>, r)))"

definition auth_param :: "string \<Rightarrow> mailopts \<Rightarrow> scanerr \<Rightarrow> (mailopts \<times> string) outcome" where
  "auth_param v m st = bind_outcome (xtext_param v st) (\<lambda>(x, r). Value (m\<lparr>m_auth := Some x\<rparr>, r))"

definition mail_param :: "settings \<Rightarrow> int \<Rightarrow> string \<Rightarrow> mailopts \<Rightarrow> scanerr \<Rightarrow> (mailopts \<times> string) outcome" where
  "mail_param cfg now s m st =
     (if dsn_ok cfg \<and> CISTREQN ''RET='' s 4 then ret_param (drop 4 s) m
      else if mime8bitok cfg \<and> CISTREQN ''BODY='' s 5 then body_param (drop 5 s) m
      else if CISTREQN ''SIZE='' s 5 then size_param (drop 5 s) m
      else if dsn_ok cfg \<and> CISTREQN ''ENVID='' s 6 then envid_param (drop 6 s) m st
      else if auth_ok cfg \<and> CISTREQN ''AUTH='' s 5 then auth_param (drop 5 s) m st
      else if deliverby_ok cfg \<ge> 0 \<and> CISTREQN ''BY='' s 3 then
        bind_outcome (by_param cfg (drop 3 s)) (\<lambda>(v, f, p). Value (m\<lparr>m_bytime := now + v, m_byflags := f\<rparr>, p))
      else Reply 501)"

lemma CISTREQN_prefix: "CISTREQN a s n \<Longrightarrow> n \<le> length a \<Longrightarrow> NUL \<notin> set a \<Longrightarrow> n \<le> length s"
proof (induction n arbitrary: a s)
  case (Suc n)
  obtain c b where a: "a = c # b" "c \<noteq> NUL" using Suc(3,4) by (cases a) auto
  then have "s \<noteq> []" using Suc(2) by (auto simp: CISTREQN_def fold_case_def ord_def split: if_splits)
  then obtain d t where s: "s = d # t" by (cases s) auto
  show ?case using Suc a s by (auto simp: CISTREQN_def split: if_splits)
qed simp

text \<open>Every parameter takes at least three characters of the line.\<close>

lemma size_digits_suffix: "suffix (snd (size_digits s v)) s"
  by (induction s v rule: size_digits.induct) (auto simp: suffix_Cons)

lemma by_flags_suffix: "by_flags s f = Some (f', p) \<Longrightarrow> suffix p s"
  by (induction s f rule: by_flags.induct) (auto simp: suffix_Cons split: if_splits)

lemma by_param_suffix:
  assumes "by_param cfg s = Value (v, f, p)"
  shows "suffix p s"
proof -
  define q where "q = (if cur s = CHR ''-'' then tl s else s)"
  have "by_flags (tl (dropWhile isdigit q)) 0 = Some (f, p)"
    using assms unfolding by_param_def Let_def q_def by (auto split: if_splits option.splits)
  then have "suffix p (tl (dropWhile isdigit q))" by (rule by_flags_suffix)
  then have "suffix p (dropWhile isdigit q)" using suffix_order.trans suffix_tl by blast
  then have "suffix p q" using suffix_dropWhile suffix_order.trans by blast
  then show ?thesis unfolding q_def using suffix_tl suffix_order.trans by (metis (full_types))
qed

lemma xtext_string_suffix: "suffix (fst (xtext_string s st)) s"
  using xtext_loop_suffix [of s] by (auto simp: xtext_string_def split: prod.splits)

lemma suffix_drop_trans: "suffix p (drop n s) \<Longrightarrow> suffix p s"
  using suffix_drop suffix_order.trans by blast

lemma bind_outcome_Value [simp]: "bind_outcome x f = Value y \<longleftrightarrow> (\<exists>z. x = Value z \<and> f z = Value y)"
  by (cases x) auto

lemma xtext_param_suffix: "xtext_param v st = Value (x, r) \<Longrightarrow> suffix r v"
  using xtext_string_suffix [of v st] suffix_tl suffix_order.trans by (auto simp: xtext_param_def Let_def split: if_splits)

lemma params_suffix:
  "ret_param v m = Value (m', r) \<Longrightarrow> suffix r v" "body_param v m = Value (m', r) \<Longrightarrow> suffix r v"
  "size_param v m = Value (m', r) \<Longrightarrow> suffix r v" "envid_param v m st = Value (m', r) \<Longrightarrow> suffix r v"
  "auth_param v m st = Value (m', r) \<Longrightarrow> suffix r v"
  subgoal by (auto simp: ret_param_def Let_def suffix_drop split: if_splits)
  subgoal by (auto simp: body_param_def Let_def suffix_drop split: if_splits)
  subgoal using size_digits_suffix [of v 0] by (auto simp: size_param_def Let_def split: if_splits prod.splits)
  subgoal by (auto simp: envid_param_def split: if_splits dest: xtext_param_suffix)
  subgoal by (auto simp: auth_param_def dest: xtext_param_suffix)
  done

lemma mail_param_shorter:
  assumes "mail_param cfg now s m st = Value (m', r)"
  shows "suffix r s \<and> length r + 3 \<le> length s"
proof -
  have k: ?thesis if "CISTREQN a s n" "suffix r (drop n s)" "3 \<le> n" "n = length a" "NUL \<notin> set a" for a n
    using that CISTREQN_prefix [OF that(1)] suffix_length_le [OF that(2)] suffix_drop_trans [OF that(2)] by auto
  show ?thesis
    using assms unfolding mail_param_def
    by (auto split: if_splits dest!: params_suffix by_param_suffix k [of "''RET=''"] k [of "''BODY=''"] k [of "''SIZE=''"]
        k [of "''ENVID=''"] k [of "''AUTH=''"] k [of "''BY=''"])
qed

lemma skip_blanks_suffix: "suffix (skip_blanks cfg strict sloppy s) s"
  by (auto simp: skip_blanks_def Let_def suffix_dropWhile)

function mail_params :: "settings \<Rightarrow> int \<Rightarrow> bool \<Rightarrow> bool \<Rightarrow> string \<Rightarrow> mailopts \<Rightarrow> scanerr \<Rightarrow> mailopts outcome" where
  "mail_params cfg now strict sloppy s m st =
     (if s = [] then Value m
      else case mail_param cfg now (skip_blanks cfg strict sloppy s) m st of
             Value (m, r) \<Rightarrow> mail_params cfg now strict sloppy r m st
           | Reply n \<Rightarrow> Reply n
           | Overrun \<Rightarrow> Overrun)"
  by pat_completeness auto
termination
proof (relation "measure (\<lambda>(cfg, now, strict, sloppy, s, m, st). length s)", goal_cases)
  case (2 cfg now strict sloppy s m st x m' r)
  then show ?case using mail_param_shorter [of cfg now "skip_blanks cfg strict sloppy s" m st m' r]
      suffix_length_le [OF skip_blanks_suffix [of cfg strict sloppy s]] by simp
qed simp

declare mail_params.simps [simp del]

section \<open>The parameters of RCPT\<close>

definition NOTIFY_SUCCESS :: nat where "NOTIFY_SUCCESS = 1"
definition NOTIFY_FAILURE :: nat where "NOTIFY_FAILURE = 2"
definition NOTIFY_DELAY :: nat where "NOTIFY_DELAY = 4"
definition NOTIFY_NEVER :: nat where "NOTIFY_NEVER = 8"

definition notify_word :: "string \<Rightarrow> nat \<times> nat" where
  "notify_word s =
     (if CISTREQN ''SUCCESS'' s 7 then (7, NOTIFY_SUCCESS)
      else if CISTREQN ''FAILURE'' s 7 then (7, NOTIFY_FAILURE)
      else if CISTREQN ''DELAY'' s 5 then (5, NOTIFY_DELAY)
      else if CISTREQN ''NEVER'' s 5 then (5, NOTIFY_NEVER)
      else (0, 0))"

function notify_loop :: "string \<Rightarrow> nat \<Rightarrow> nat \<times> string" where
  "notify_loop s f =
     (if s = [] then (f, s)
      else
        let (k, b) = notify_word s; r = drop k s
        in if cur r \<noteq> CHR '','' then (f OR b, r) else notify_loop (tl r) (f OR b))"
  by pat_completeness auto
termination
proof (relation "measure (\<lambda>(s, f). length s)", goal_cases)
  case (2 s f x k b r)
  then have "length (tl r) < length s" by (cases r) auto
  then show ?case by simp
qed simp

declare notify_loop.simps [simp del]

definition orcpt_string :: "string \<Rightarrow> scanerr \<Rightarrow> string option" where
  "orcpt_string str st =
     (let stro = fst (rfc822atom str st)
      in if stro = str \<or> cur stro \<noteq> CHR '';'' then None
         else
           let s2 = fst (xtext_string (tl stro) st)
           in if s2 = tl stro then None else Some s2)"

record rcptopts =
  r_notify :: "string option"
  r_flags :: nat
  r_orcpt :: "string option"

definition no_rcptopts :: rcptopts where
  "no_rcptopts = \<lparr>r_notify = None, r_flags = 0, r_orcpt = None\<rparr>"

definition notify_param :: "string \<Rightarrow> rcptopts \<Rightarrow> (rcptopts \<times> string) outcome" where
  "notify_param s q =
     (if r_notify q \<noteq> None then Reply 501
      else
        let (f, r) = notify_loop (drop 7 s) (r_flags q)
        in if \<not> at_end r then Reply 455
           else Value (q\<lparr>r_notify := Some (take (length s - length r) s), r_flags := f\<rparr>, r))"

definition orcpt_param :: "string \<Rightarrow> rcptopts \<Rightarrow> scanerr \<Rightarrow> (rcptopts \<times> string) outcome" where
  "orcpt_param s q st =
     (if r_orcpt q \<noteq> None then Reply 501
      else case orcpt_string (drop 6 s) st of
             None \<Rightarrow> Reply 501
           | Some r \<Rightarrow> Value (q\<lparr>r_orcpt := Some (take (length s - length r) s)\<rparr>, r))"

definition rcpt_param :: "settings \<Rightarrow> string \<Rightarrow> rcptopts \<Rightarrow> scanerr \<Rightarrow> (rcptopts \<times> string) outcome" where
  "rcpt_param cfg s q st =
     (if dsn_ok cfg \<and> CISTREQN ''NOTIFY='' s 7 then notify_param s q
      else if dsn_ok cfg \<and> CISTREQN ''ORCPT='' s 6 then orcpt_param s q st
      else Reply 555)"

lemma notify_loop_suffix: "suffix (snd (notify_loop s f)) s"
proof (induction s f rule: notify_loop.induct)
  case (1 s f)
  have t: "suffix (tl (drop k s)) s" for k using suffix_tl suffix_drop suffix_order.trans by blast
  obtain k b where w: "notify_word s = (k, b)" by (meson surj_pair)
  show ?case
  proof (cases "s = [] \<or> cur (drop k s) \<noteq> CHR '',''")
    case True
    then show ?thesis by (subst notify_loop.simps) (auto simp: w suffix_drop)
  next
    case False
    then have "suffix (snd (notify_loop (tl (drop k s)) (f OR b))) (tl (drop k s))" using 1 w by auto
    then show ?thesis using False t [of k] by (subst notify_loop.simps) (auto simp: w intro: suffix_order.trans)
  qed
qed

lemma orcpt_string_suffix: "orcpt_string s st = Some r \<Longrightarrow> suffix r s"
proof -
  assume a: "orcpt_string s st = Some r"
  have "suffix (fst (rfc822atom s st)) s" by (simp add: rfc822atom_def Let_def suffix_dropWhile)
  moreover have "r = fst (xtext_string (tl (fst (rfc822atom s st))) st)"
    using a by (auto simp: orcpt_string_def Let_def split: if_splits)
  ultimately show ?thesis using xtext_string_suffix suffix_tl suffix_order.trans by metis
qed

lemma rcpt_param_shorter:
  assumes "rcpt_param cfg s q st = Value (q', r)"
  shows "suffix r s \<and> length r + 3 \<le> length s"
proof -
  have k: ?thesis if "CISTREQN a s n" "suffix r (drop n s)" "3 \<le> n" "n = length a" "NUL \<notin> set a" for a n
    using that CISTREQN_prefix [OF that(1)] suffix_length_le [OF that(2)] suffix_drop_trans [OF that(2)] by auto
  show ?thesis
    using assms notify_loop_suffix [of "drop 7 s" "r_flags q"] unfolding rcpt_param_def
    by (auto simp: notify_param_def orcpt_param_def Let_def split: if_splits option.splits prod.splits
        dest!: orcpt_string_suffix k [of "''NOTIFY=''"] k [of "''ORCPT=''"])
qed

function rcpt_params :: "settings \<Rightarrow> bool \<Rightarrow> bool \<Rightarrow> string \<Rightarrow> rcptopts \<Rightarrow> scanerr \<Rightarrow> rcptopts outcome" where
  "rcpt_params cfg strict sloppy s q st =
     (if s = [] then Value q
      else case rcpt_param cfg (skip_blanks cfg strict sloppy s) q st of
             Value (q, r) \<Rightarrow> rcpt_params cfg strict sloppy r q st
           | Reply n \<Rightarrow> Reply n
           | Overrun \<Rightarrow> Overrun)"
  by pat_completeness auto
termination
proof (relation "measure (\<lambda>(cfg, strict, sloppy, s, q, st). length s)", goal_cases)
  case (2 cfg strict sloppy s q st x q' r)
  then show ?case using rcpt_param_shorter [of cfg "skip_blanks cfg strict sloppy s" q st q' r]
      suffix_length_le [OF skip_blanks_suffix [of cfg strict sloppy s]] by simp
qed simp

declare rcpt_params.simps [simp del]

section \<open>Quoting\<close>

text \<open>The copy in \<open>rfc821to822quote\<close> up to an unquoted \<open>@\<close>: the text copied, the rest and the count left.\<close>

fun quote_local :: "string \<Rightarrow> nat \<Rightarrow> string \<times> string \<times> nat" where
  "quote_local s 0 = ([], s, 0)"
| "quote_local s (Suc n) =
     (if cur s = CHR ''@'' then ([], s, Suc n)
      else if cur s = BSLASH \<and> cur (tl s) \<noteq> NUL then
        (case quote_local (tl (tl s)) (n - 1) of (t, r, k) \<Rightarrow> (cur s # cur (tl s) # t, r, k))
      else (case quote_local (tl s) n of (t, r, k) \<Rightarrow> (cur s # t, r, k)))"

definition rfc821to822quote :: "string \<Rightarrow> nat \<Rightarrow> string" where
  "rfc821to822quote cp alen =
     (if BSLASH \<in> set (take alen cp) \<and> cur cp \<noteq> DQUOTE then
        (case quote_local cp alen of (t, r, k) \<Rightarrow> [DQUOTE] @ t @ [DQUOTE] @ take k r)
      else take alen cp)"

section \<open>The address\<close>

lemma mailbox_at: "cur s = CHR ''@'' \<Longrightarrow> fst (rfc821_mailbox s strict st) = s"
proof -
  assume c: "cur s = CHR ''@''"
  have "\<not> is_821_C (CHR ''@'')" by code_simp
  then have "rfc821_char s = s" using c by (simp add: rfc821_char_def)
  then have "string_loop s = s" by (subst string_loop.simps) simp
  then have "rfc821_dot_string s strict st = (s, set_err StringUnsuitable s 0 st)"
    using c by (simp add: rfc821_dot_string_def rfc821_string_def dot_string_loop.simps ord_def)
  then show ?thesis using c by (simp add: rfc821_mailbox_def rfc821_localpart_def)
qed

text \<open>A path that starts with \<open>@\<close> is accepted only with a colon in it.\<close>

lemma path2_route:
  assumes "rfc821_path2 s strict st = (q, st')" "q \<noteq> s" "cur s = CHR ''@''"
  shows "\<exists>x y. s = x @ CHR '':'' # y @ q"
proof -
  obtain p st1 where p: "rfc821_adl s st = (p, st1)" by (meson surj_pair)
  obtain z where z: "s = z @ p" using adl_suffix [OF p] by (auto simp: suffix_def)
  obtain st3 where m: "rfc821_mailbox s strict st1 = (s, st3)" using mailbox_at [OF assms(3)] by (metis prod.collapse)
  obtain q1 st2 where q1: "rfc821_mailbox (tl p) strict st1 = (q1, st2)" by (meson surj_pair)
  have e: "fst (rfc821_path2 s strict st) =
    (if length p < length s \<and> cur p = CHR '':'' \<and> q1 \<noteq> tl p then q1 else s)"
    using assms(3) m unfolding rfc821_path2_def by (simp add: p q1 m Let_def)
  then have "length p < length s \<and> cur p = CHR '':'' \<and> fst (rfc821_mailbox (tl p) strict st1) = q"
    using assms(1,2) q1 by (auto split: if_splits)
  then obtain r where "p = CHR '':'' # r" "suffix q r"
    using mailbox_suffix [OF q1] q1 by (cases p) auto
  then show ?thesis using z by (auto simp: suffix_def)
qed

lemma rfc821_path_open:
  assumes "cur cp = CHR ''<''" "cur (tl cp) \<noteq> NUL" "cur (tl cp) \<noteq> CHR ''>''" "rfc821_path2 (tl cp) strict st = (q, st1)"
  shows "rfc821_path cp strict st =
    (if q = tl cp then (cp, cp, st1)
     else let r = dropWhile blank q; cp' = take (length cp - length q) cp @ r
          in if cur r \<noteq> CHR ''>'' then (cp', cp', set_err (if cur r \<noteq> NUL then PathGarbage else PathNoClose) r 0 st1) else (tl r, cp', st1))"
  using assms by (simp add: rfc821_path_def blank_def [abs_def])

lemma rfc821_path_brackets:
  assumes "rfc821_path cp strict st = (s, cp', st')" "s \<noteq> cp'"
  shows "\<exists>a b. cp = CHR ''<'' # a @ b @ CHR ''>'' # s \<and> cp' = CHR ''<'' # a @ CHR ''>'' # s \<and> (\<forall>c\<in>set b. blank c)
    \<and> (cur a = CHR ''@'' \<longrightarrow> CHR '':'' \<in> set a)"
proof (cases "cur cp = CHR ''<'' \<and> cur (tl cp) \<noteq> NUL")
  case False
  then show ?thesis using assms by (auto simp: rfc821_path_def split: if_splits)
next
  case o: True
  then obtain t where t: "cp = CHR ''<'' # t" by (cases cp) auto
  show ?thesis
  proof (cases "cur t = CHR ''>''")
    case True
    then obtain u where "t = CHR ''>'' # u" by (cases t) auto
    then show ?thesis using assms t by (auto simp: rfc821_path_def intro!: exI [of _ "[]"])
  next
    case False
    obtain q st1 where q: "rfc821_path2 t strict st = (q, st1)" by (meson surj_pair)
    obtain a where a: "t = a @ q" using path2_suffix [OF q] by (auto simp: suffix_def)
    define r where "r = dropWhile blank q"
    note e = rfc821_path_open [of cp strict st q st1, unfolded Let_def r_def [symmetric]]
    have n: "q \<noteq> t" "cur r = CHR ''>''" using assms o False t q e by (auto split: if_splits)
    then have "s = tl r" "cp' = CHR ''<'' # a @ r" using assms o False t q e a by auto
    moreover have "r = CHR ''>'' # tl r" using n(2) by (cases r) auto
    moreover have "q = takeWhile blank q @ r" unfolding r_def by simp
    ultimately have "cp = CHR ''<'' # a @ takeWhile blank q @ CHR ''>'' # s \<and> cp' = CHR ''<'' # a @ CHR ''>'' # s"
      using t a by metis
    moreover have "cur a = CHR ''@'' \<longrightarrow> CHR '':'' \<in> set a"
      using path2_route [OF q n(1)] a by (cases a) (auto simp: Cons_eq_append_conv)
    ultimately show ?thesis using set_takeWhileD by metis
  qed
qed

lemma strict_path_Value:
  assumes "strict_path cfg strict cp st = Value (a, e, s, routed)"
  shows "\<exists>pre b. cp = CHR ''<'' # pre @ a @ b @ CHR ''>'' # s \<and> (\<forall>c\<in>set b. blank c)
    \<and> (if routed then cur pre = CHR ''@'' \<and> last pre = CHR '':'' else pre = [])"
proof -
  obtain s' cp' st' where p: "rfc821_path cp (strict \<or> strict_protocol cfg > 0) st = (s', cp', st')" by (metis surj_pair)
  then have ne: "s' \<noteq> cp'" using assms by (auto simp: strict_path_def)
  obtain x b where x: "cp = CHR ''<'' # x @ b @ CHR ''>'' # s'" "cp' = CHR ''<'' # x @ CHR ''>'' # s'" "\<forall>c\<in>set b. blank c"
    "cur x = CHR ''@'' \<longrightarrow> CHR '':'' \<in> set x"
    using rfc821_path_brackets [OF p ne] by blast
  show ?thesis
  proof (cases "cur (tl cp') = CHR ''@'' \<and> \<not> allow_source_route cfg")
    case False
    then have "a = x" "s = s'" "\<not> routed" using assms p ne x(2) by (auto simp: strict_path_def cut_def split: if_splits)
    then show ?thesis using x by auto
  next
    case True
    then have "cur x = CHR ''@''" using x(2) by (cases x) auto
    then obtain x1 x2 where c: "x = x1 @ CHR '':'' # x2" "CHR '':'' \<notin> set x1" using x(4) by (meson split_list_first)
    have "\<forall>c\<in>set (CHR ''<'' # x1). c \<noteq> CHR '':''" using c(2) by auto
    then have "dropWhile (\<lambda>c. c \<noteq> CHR '':'') ((CHR ''<'' # x1) @ CHR '':'' # x2 @ CHR ''>'' # s') = CHR '':'' # x2 @ CHR ''>'' # s'"
      by (subst dropWhile_append2) auto
    then have "dropWhile (\<lambda>c. c \<noteq> CHR '':'') cp' = CHR '':'' # x2 @ CHR ''>'' # s'" unfolding x(2) c(1) by simp
    then have "a = x2" "s = s'" routed
      using assms p ne True by (auto simp: strict_path_def skip_route_def cut_def Let_def split: if_splits)
    moreover have "cur (x1 @ [CHR '':'']) = CHR ''@''" using \<open>cur x = CHR ''@''\<close> c by (cases x1) auto
    ultimately show ?thesis using x c by (intro exI [of _ "x1 @ [CHR '':'']"] exI [of _ b]) auto
  qed
qed

lemma schar_NUL [simp]: "schar NUL = 0"
  by (simp add: schar_def ord_def)

lemma CISTREQN_keyword:
  "CISTREQN s a (length a) \<Longrightarrow> NUL \<notin> set a \<Longrightarrow> length a \<le> length s \<and> CISTREQN (take (length a) s) a (length a)"
proof (induction a arbitrary: s)
  case Nil
  then show ?case by (simp add: CISTREQN_def)
next
  case (Cons c a)
  then have "s \<noteq> []" by (auto simp: CISTREQN_def fold_case_def ord_def split: if_splits)
  then obtain d t where s: "s = d # t" by (cases s) auto
  show ?case using Cons s by (auto simp: CISTREQN_def split: if_splits)
qed

lemma lead_split: "\<exists>pre. s = pre @ dropWhile P s \<and> (\<forall>c\<in>set pre. P c)"
  using set_takeWhileD by (metis takeWhile_dropWhile_id)

lemma blanks_lead: "\<exists>pre. cp = pre @ (if b then dropWhile blank (skip_one cp) else skip_one cp) \<and> (\<forall>c\<in>set pre. blank c)"
proof (cases "cur cp = SPC")
  case True
  then obtain t where t: "cp = SPC # t" by (cases cp) auto
  obtain p where "t = p @ dropWhile blank t" "\<forall>c\<in>set p. blank c" using lead_split [of t blank] by blast
  then have "cp = (SPC # p) @ dropWhile blank t" "\<forall>c\<in>set (SPC # p). blank c" using t by (simp_all add: blank_def)
  moreover have "cp = [SPC] @ t" "\<forall>c\<in>set [SPC]. blank c" using t by (simp_all add: blank_def)
  moreover have "skip_one cp = t" using t by (simp add: skip_one_def)
  ultimately show ?thesis by (metis (full_types))
next
  case False
  then have "skip_one cp = cp" by (simp add: skip_one_def)
  then show ?thesis using lead_split [of cp blank] by (metis append_Nil empty_iff empty_set)
qed

lemma find_bracket_Value:
  assumes "find_bracket cfg sloppy cp0 = Value cp"
  shows "\<exists>sp. cp0 = sp @ cp \<and> (\<forall>c\<in>set sp. isspace c)" "\<not> sloppy \<and> strict_protocol cfg \<ge> 0 \<longrightarrow> cur cp = CHR ''<''"
proof -
  have c: "cp = (if lenient cfg sloppy then dropWhile isspace cp0 else cp0)"
    using assms by (auto simp: find_bracket_def Let_def split: if_splits)
  show "\<exists>sp. cp0 = sp @ cp \<and> (\<forall>c\<in>set sp. isspace c)"
    unfolding c using lead_split [of cp0 isspace] by (metis append_Nil empty_iff empty_set)
  show "\<not> sloppy \<and> strict_protocol cfg \<ge> 0 \<longrightarrow> cur cp = CHR ''<''"
    using assms by (auto simp: find_bracket_def Let_def split: if_splits)
qed

text \<open>
  What \<open>MAIL\<close> takes from a line it accepts (with neither sloppy nor lenient settings): behind the keyword, in angle
  brackets, the address itself, with an ignored source route before it and blanks behind it at most, and the parameters are
  all that follows the bracket.
\<close>

lemma mail_path_address:
  assumes "mail_path cfg strict False cp st = Value (a, e, s, routed)" "strict_protocol cfg \<ge> 0"
  shows "\<exists>pre kw sp route b. cp = pre @ kw @ sp @ CHR ''<'' # route @ a @ b @ CHR ''>'' # s
    \<and> (\<forall>c\<in>set pre. blank c) \<and> length kw = 5 \<and> CISTREQN kw ''From:'' 5 \<and> (\<forall>c\<in>set sp. isspace c) \<and> (\<forall>c\<in>set b. blank c)
    \<and> (if routed then cur route = CHR ''@'' \<and> last route = CHR '':'' else route = [])"
proof -
  define cp1 where "cp1 = (if lenient cfg False then dropWhile blank (skip_one cp) else skip_one cp)"
  have m: "CISTREQN cp1 ''From:'' 5" and "\<exists>cp3. find_bracket cfg False (drop 5 cp1) = Value cp3 \<and> cur (tl cp3) \<noteq> CHR ''<'' \<and>
      (if cur cp3 = CHR ''<'' then strict_path cfg strict cp3 st else bare_path cfg strict cp3 st) = Value (a, e, s, routed)"
    using assms(1) unfolding mail_path_def cp1_def by (auto simp: Let_def split: if_splits)
  then obtain cp3 where c: "find_bracket cfg False (drop 5 cp1) = Value cp3"
    "(if cur cp3 = CHR ''<'' then strict_path cfg strict cp3 st else bare_path cfg strict cp3 st) = Value (a, e, s, routed)" by blast
  obtain sp where sp: "drop 5 cp1 = sp @ cp3" "\<forall>c\<in>set sp. isspace c" "cur cp3 = CHR ''<''"
    using find_bracket_Value [OF c(1)] assms(2) by auto
  obtain route b where r: "cp3 = CHR ''<'' # route @ a @ b @ CHR ''>'' # s" "\<forall>c\<in>set b. blank c"
    "if routed then cur route = CHR ''@'' \<and> last route = CHR '':'' else route = []"
    using strict_path_Value [of cfg strict cp3 st a e s routed] c(2) sp(3) by auto
  obtain pre where pre: "cp = pre @ cp1" "\<forall>c\<in>set pre. blank c" using blanks_lead unfolding cp1_def by metis
  have "length ''From:'' = 5" by simp
  then have k: "length (take 5 cp1) = 5" "CISTREQN (take 5 cp1) ''From:'' 5"
    using CISTREQN_keyword [of cp1 "''From:''"] m by (auto simp del: length_Cons list.size)
  have "cp1 = take 5 cp1 @ sp @ cp3" using sp(1) by (metis append_take_drop_id)
  then have "cp = pre @ take 5 cp1 @ sp @ CHR ''<'' # route @ a @ b @ CHR ''>'' # s" using pre(1) r(1) by metis
  then show ?thesis using pre(2) k sp(2) r(2,3) by blast
qed

lemma mail_path_address_witness:
  "\<exists>pre kw sp route b. '' from:<a> b'' = pre @ kw @ sp @ CHR ''<'' # route @ ''a'' @ b @ CHR ''>'' # '' b''
    \<and> (\<forall>c\<in>set pre. blank c) \<and> length kw = 5 \<and> CISTREQN kw ''From:'' 5 \<and> (\<forall>c\<in>set sp. isspace c) \<and> (\<forall>c\<in>set b. blank c)
    \<and> (if False then cur route = CHR ''@'' \<and> last route = CHR '':'' else route = [])"
proof (rule mail_path_address)
  define cfg where "cfg = \<lparr>strict_protocol = 0, allow_source_route = False, dsn_ok = True, mime8bitok = True, auth_ok = True, deliverby_ok = 0\<rparr>"
  show "mail_path cfg False False '' from:<a> b'' \<lparr>rfc821_error = None, rfc821_error_ptr = None\<rparr> = Value (''a'', ''> b'', '' b'', False)"
    unfolding cfg_def by code_simp
  show "strict_protocol cfg \<ge> 0" by (simp add: cfg_def)
qed

section \<open>The parameters\<close>

lemma size_digits_range: "0 \<le> v \<Longrightarrow> v \<le> 1000000009 \<Longrightarrow> 0 \<le> fst (size_digits s v) \<and> fst (size_digits s v) \<le> 1000000009"
proof (induction s v rule: size_digits.induct)
  case (2 c s v)
  have "int (ord c) - 48 \<le> 9 \<and> 0 \<le> int (ord c) - 48" if "isdigit c" using that by (simp add: isdigit_def)
  then show ?case using 2 by auto
qed simp

lemma by_flags_bits:
  "f \<in> {0, 1, 2, 4, 5, 6} \<Longrightarrow> f AND DELIVERBY_T = 0 \<Longrightarrow> f OR DELIVERBY_T \<in> {0, 1, 2, 4, 5, 6}"
  "f \<in> {0, 1, 2, 4, 5, 6} \<Longrightarrow> f AND (DELIVERBY_R OR DELIVERBY_N) = 0 \<Longrightarrow> f OR DELIVERBY_N \<in> {0, 1, 2, 4, 5, 6}"
  "f \<in> {0, 1, 2, 4, 5, 6} \<Longrightarrow> f AND (DELIVERBY_R OR DELIVERBY_N) = 0 \<Longrightarrow> f OR DELIVERBY_R \<in> {0, 1, 2, 4, 5, 6}"
  by (auto simp: DELIVERBY_N_def DELIVERBY_R_def DELIVERBY_T_def)

lemma by_flags_range: "by_flags p f = Some (f', r) \<Longrightarrow> f \<in> {0, 1, 2, 4, 5, 6} \<Longrightarrow> f' \<in> {0, 1, 2, 4, 5, 6}"
proof (induction p f rule: by_flags.induct)
  case (2 c p f)
  note b = by_flags_bits [OF 2(5)]
  consider "blank c" | "\<not> blank c" "c = CHR ''T'' \<or> c = CHR ''t''" | "\<not> blank c" "c = CHR ''N'' \<or> c = CHR ''n''"
    | "\<not> blank c" "c = CHR ''R'' \<or> c = CHR ''r''"
    using 2(4) by (auto split: if_splits)
  then show ?case
  proof cases
    case 1
    then show ?thesis using 2(4,5) by simp
  next
    case c: 2
    then have "f AND DELIVERBY_T = 0" "by_flags p (f OR DELIVERBY_T) = Some (f', r)" using 2(4) by (auto split: if_splits)
    then show ?thesis using 2(1) c b(1) by blast
  next
    case c: 3
    then have "f AND (DELIVERBY_R OR DELIVERBY_N) = 0" "by_flags p (f OR DELIVERBY_N) = Some (f', r)" using 2(4) by (auto split: if_splits)
    then show ?thesis using 2(2) c b(2) by blast
  next
    case c: 4
    then have "f AND (DELIVERBY_R OR DELIVERBY_N) = 0" "by_flags p (f OR DELIVERBY_R) = Some (f', r)" using 2(4) by (auto split: if_splits)
    then show ?thesis using 2(3) c b(3) by blast
  qed
qed simp

text \<open>What the parameters of an accepted MAIL are: the size is a 31-bit number, and of the delivery modes one is chosen.\<close>

definition mailopts_ok :: "mailopts \<Rightarrow> bool" where
  "mailopts_ok m \<longleftrightarrow> - 1 \<le> m_size m \<and> m_size m \<le> 1000000000 \<and> m_byflags m \<in> {0, 1, 2, 5, 6}"

lemma by_param_flags: "by_param cfg s = Value (v, f, p) \<Longrightarrow> f \<in> {1, 2, 5, 6}"
proof -
  assume a: "by_param cfg s = Value (v, f, p)"
  define q where "q = (if cur s = CHR ''-'' then tl s else s)"
  have "by_flags (tl (dropWhile isdigit q)) 0 = Some (f, p) \<and> f AND (DELIVERBY_N OR DELIVERBY_R) \<noteq> 0"
    using a unfolding by_param_def Let_def q_def by (auto split: if_splits option.splits)
  then have "f \<in> {0, 1, 2, 4, 5, 6}" "f AND (DELIVERBY_N OR DELIVERBY_R) \<noteq> 0" using by_flags_range by blast+
  then show ?thesis by (auto simp: DELIVERBY_N_def DELIVERBY_R_def)
qed

lemma mail_param_cases:
  assumes "mail_param cfg now s m st = Value (m', r)"
  obtains (ret) "ret_param (drop 4 s) m = Value (m', r)" | (body) "body_param (drop 5 s) m = Value (m', r)"
    | (size) "size_param (drop 5 s) m = Value (m', r)" | (envid) "envid_param (drop 6 s) m st = Value (m', r)"
    | (auth) "auth_param (drop 5 s) m st = Value (m', r)"
    | (deliver) v f where "by_param cfg (drop 3 s) = Value (v, f, r)" "m' = m\<lparr>m_bytime := now + v, m_byflags := f\<rparr>"
  using assms unfolding mail_param_def by (auto split: if_splits)

lemma mail_param_ok:
  assumes "mail_param cfg now s m st = Value (m', r)" "mailopts_ok m"
  shows "mailopts_ok m'"
  using assms(1)
proof (cases rule: mail_param_cases)
  case ret
  then show ?thesis using assms(2) by (auto simp: ret_param_def mailopts_ok_def Let_def split: if_splits)
next
  case body
  then show ?thesis using assms(2) by (auto simp: body_param_def mailopts_ok_def Let_def split: if_splits)
next
  case size
  then show ?thesis using assms(2) size_digits_range [of 0 "drop 5 s"] by (auto simp: size_param_def mailopts_ok_def split: if_splits prod.splits)
next
  case envid
  then show ?thesis using assms(2) by (auto simp: envid_param_def mailopts_ok_def split: if_splits)
next
  case auth
  then show ?thesis using assms(2) by (auto simp: auth_param_def mailopts_ok_def)
next
  case (deliver v f)
  then show ?thesis using assms(2) by_param_flags [OF deliver(1)] by (auto simp: mailopts_ok_def)
qed

text \<open>
  C31: The parameters that \<open>MAIL\<close> accepts are in range: the announced size fits a signed 32-bit integer and is at most
  1000000000, and DELIVERBY has one of the modes N and R, whatever the client sends.
\<close>

theorem mail_params_in_range:
  assumes "mail_params cfg now strict sloppy s no_mailopts st = Value m"
  shows "- 1 \<le> m_size m \<and> m_size m \<le> 1000000000 \<and> m_byflags m \<in> {0, 1, 2, 5, 6}"
proof -
  have "mailopts_ok m" if "mail_params cfg now strict sloppy s m0 st = Value m" "mailopts_ok m0" for s m0
    using that
  proof (induction cfg now strict sloppy s m0 st rule: mail_params.induct)
    case (1 cfg now strict sloppy s m0 st)
    then show ?case using mail_param_ok by (subst (asm) (2) mail_params.simps) (auto split: if_splits outcome.splits)
  qed
  then show ?thesis using assms by (simp add: mailopts_ok_def no_mailopts_def)
qed

theorem mail_params_in_range_witness:
  "\<exists>m. mail_params \<lparr>strict_protocol = 0, allow_source_route = False, dsn_ok = True, mime8bitok = True, auth_ok = True, deliverby_ok = 0\<rparr>
      0 False False '' SIZE=70 BY=9;RT'' no_mailopts \<lparr>rfc821_error = None, rfc821_error_ptr = None\<rparr> = Value m \<and>
    m_size m = 70 \<and> m_size m \<le> 1000000000 \<and> m_byflags m \<in> {0, 1, 2, 5, 6}"
proof -
  let ?m = "no_mailopts\<lparr>m_size := 70, m_bytime := 9, m_byflags := 5\<rparr>"
  have "mail_params \<lparr>strict_protocol = 0, allow_source_route = False, dsn_ok = True, mime8bitok = True, auth_ok = True, deliverby_ok = 0\<rparr>
      0 False False '' SIZE=70 BY=9;RT'' no_mailopts \<lparr>rfc821_error = None, rfc821_error_ptr = None\<rparr> = Value ?m"
    by code_simp
  then show ?thesis using mail_params_in_range by fastforce
qed

lemma xtext_loop_all: "\<forall>c\<in>set v. is_821_xchar c \<Longrightarrow> xtext_loop v = (True, [])"
proof (induction v)
  case (Cons c v)
  have "is_821_xchar c" using Cons(2) by simp
  then have "33 \<le> ord c" unfolding class_xchar by simp
  then have "c \<noteq> NUL" "c \<noteq> SPC" "c \<noteq> HT" by (auto simp: ord_def)
  then show ?case using Cons by (subst xtext_loop.simps) simp
qed (simp add: xtext_loop.simps)

text \<open>
  C32: A MAIL command with ENVID as its last parameter makes the server read behind the end of the line, whatever the value
  is: the scanner steps over the NUL as if it were the blank before a further parameter.
\<close>

theorem envid_overruns:
  assumes "v \<noteq> []" "\<forall>c\<in>set v. is_821_xchar c" "dsn_ok cfg" "m_envid m = None"
  shows "mail_params cfg now strict sloppy ('' ENVID='' @ v) m st = Overrun"
proof -
  have b: "skip_blanks cfg strict sloppy ('' ENVID='' @ v) = ''ENVID='' @ v"
    by (simp add: skip_blanks_def)
  have "xtext_string v st = ([], st)" using assms(1,2) by (simp add: xtext_string_def xtext_loop_all)
  then have e: "envid_param v m st = Overrun" using assms(1,4) by (simp add: envid_param_def xtext_param_def)
  have k: "CISTREQN ''ENVID='' (''ENVID='' @ v) 6" "\<not> CISTREQN ''RET='' (''ENVID='' @ v) 4"
    "\<not> CISTREQN ''BODY='' (''ENVID='' @ v) 5" "\<not> CISTREQN ''SIZE='' (''ENVID='' @ v) 5"
    by (simp_all add: CISTREQN_def numeral_eq_Suc fold_case_def ord_def)
  have "mail_param cfg now (''ENVID='' @ v) m st = Overrun" unfolding mail_param_def using assms(3) k e by simp
  then show ?thesis by (subst mail_params.simps) (simp add: b [simplified])
qed

theorem envid_overruns_witness:
  "mail_params \<lparr>strict_protocol = 0, allow_source_route = False, dsn_ok = True, mime8bitok = True, auth_ok = True, deliverby_ok = 0\<rparr>
     0 False False ('' ENVID='' @ ''id'') no_mailopts \<lparr>rfc821_error = None, rfc821_error_ptr = None\<rparr> = Overrun"
  by (rule envid_overruns) (auto simp: class_xchar no_mailopts_def ord_def)

text \<open>The parameters of RCPT are never scanned over the end of the line.\<close>

lemma rcpt_params_in_line: "rcpt_params cfg strict sloppy s q st \<noteq> Overrun"
proof (induction cfg strict sloppy s q st rule: rcpt_params.induct)
  case (1 cfg strict sloppy s q st)
  have "rcpt_param cfg t q st \<noteq> Overrun" for t
    by (auto simp: rcpt_param_def notify_param_def orcpt_param_def Let_def split: prod.splits option.splits)
  then show ?case using 1 by (subst rcpt_params.simps) (auto split: outcome.splits)
qed

section \<open>Quoting\<close>

text \<open>A local part in which a backslash quotes the next character, and in which \<open>@\<close> is quoted.\<close>

fun pairs_ok :: "string \<Rightarrow> bool" where
  "pairs_ok [] = True"
| "pairs_ok (c # s) =
     (if c = BSLASH then (case s of [] \<Rightarrow> False | d # t \<Rightarrow> d \<noteq> NUL \<and> pairs_ok t) else c \<noteq> CHR ''@'' \<and> pairs_ok s)"

lemma quote_local_pairs:
  "pairs_ok l \<Longrightarrow> r = [] \<or> cur r = CHR ''@'' \<Longrightarrow> quote_local (l @ r @ t) (length l + length r) = (l, r @ t, length r)"
proof (induction l rule: pairs_ok.induct)
  case 1
  then show ?case by (cases r) auto
next
  case (2 c s)
  then show ?case by (cases s) (auto split: if_splits)
qed

text \<open>
  An address with quoted pairs is turned into one with a quoted string: the local part between quotation marks, and the
  domain as it is.  Any other address is kept.
\<close>

lemma rfc821to822quote_correct:
  assumes "pairs_ok l" "r = [] \<or> cur r = CHR ''@''" "l \<noteq> []"
  shows "rfc821to822quote (l @ r @ t) (length l + length r) =
    (if (BSLASH \<in> set l \<or> BSLASH \<in> set r) \<and> hd l \<noteq> DQUOTE then [DQUOTE] @ l @ [DQUOTE] @ r else l @ r)"
  using assms quote_local_pairs [OF assms(1,2), of t] by (cases l) (auto simp: rfc821to822quote_def)

lemma rfc821to822quote_correct_witness:
  "rfc821to822quote ([CHR ''a'', BSLASH, CHR ''b''] @ ''@c'' @ ''> x'') (length [CHR ''a'', BSLASH, CHR ''b''] + length ''@c'') =
    (if (BSLASH \<in> set [CHR ''a'', BSLASH, CHR ''b''] \<or> BSLASH \<in> set ''@c'') \<and> hd [CHR ''a'', BSLASH, CHR ''b''] \<noteq> DQUOTE
     then [DQUOTE] @ [CHR ''a'', BSLASH, CHR ''b''] @ [DQUOTE] @ ''@c'' else [CHR ''a'', BSLASH, CHR ''b''] @ ''@c'')"
  by (rule rfc821to822quote_correct) simp_all

end
