(* ===== verification/Smtpdata.thy ===== *)
theory Smtpdata
  imports Stdio
begin

unbundle bit_operations_syntax

text \<open>
  The message body input of the SMTP server, \<^verbatim>\<open>smtpserver/smtpdata.c\<close>: the DATA filter (a state
  table that removes dot stuffing, turns CR LF into LF and finds the terminating dot), the header
  analysis that runs on the filtered lines, the BDAT filter and the status-code parser.  The build without \<^verbatim>\<open>USE_TRANSLATION\<close> and \<^verbatim>\<open>USE_ANTISPAM_HACKS\<close> is modelled, as
  the distributed configuration has it; \<open>header_to_mime\<close> is an empty function there.

  Input is the string of bytes the client sends; its end is what \<open>s_getc\<close> reports as \<open>EOF\<close>.
\<close>

section \<open>The state table of the DATA filter\<close>

definition O_flag :: int where
  "O_flag = push_bit 8 0x80"

definition N_flag :: int where
  "N_flag = push_bit 8 0x0D"

definition X_exit :: int where
  "X_exit = NOT 0"

definition states :: "int list" where
  "states =
     [0, O_flag OR 15, 10, 0, X_exit,
      0, O_flag OR 20, X_exit, 0, X_exit,
      0, O_flag OR 15, 10, O_flag OR 5, X_exit,
      N_flag OR 0, 15, 10, N_flag OR 0, X_exit,
      N_flag OR 0, 15, X_exit, N_flag OR 0, X_exit]"

text \<open>The column of a character; entry 0 is for \<open>EOF\<close>, the others are shifted by one.\<close>

definition indexnum :: "nat list" where
  "indexnum = 4 # [0, 0, 0, 0, 0, 0, 0, 0, 0, 0, 2, 0, 0, 1, 0, 0]
     @ replicate 16 0 @ [0, 0, 0, 0, 0, 0, 0, 0, 0, 0, 0, 0, 0, 0, 3, 0] @ replicate 208 0"

text \<open>
  One step of the filter, as both loops of \<open>mvdata\<close> make it: leave the loop, or continue in a new state
  with the characters to put out (none when the \<open>O_\<close> bit is set).
\<close>

datatype mvact = Exit | Go (mv_out: string) (mv_state: nat)

definition mv_step :: "nat \<Rightarrow> char option \<Rightarrow> mvact" where
  "mv_step state co =
     (let col = indexnum ! (case co of None \<Rightarrow> 0 | Some c \<Rightarrow> ord c + 1);
          st = states ! (state + col);
          out = (case co of None \<Rightarrow> [] | Some c \<Rightarrow> [c])
      in if st AND NOT 0xff \<noteq> 0 then
           (if st AND O_flag \<noteq> 0 then
              (if st = X_exit then Exit else Go [] (nat (st AND 0xff)))
            else Go (char_of (nat (drop_bit 8 st)) # out) (nat (st AND 0xff)))
         else Go out (nat st))"

section \<open>The body loop\<close>

text \<open>The result is the byte count, the message file and the input not read.\<close>

fun mvdata_body :: "nat \<Rightarrow> string \<Rightarrow> int \<Rightarrow> ostream \<Rightarrow> int \<times> ostream \<times> string" where
  "mvdata_body state [] cnt mfp = (cnt + 1, mfp, [])"
| "mvdata_body state (c # cs) cnt mfp =
     (case mv_step state (Some c) of
        Exit \<Rightarrow> (cnt + 1, mfp, cs)
      | Go out state \<Rightarrow> mvdata_body state cs (cnt + 1) (fold fputc_ok out mfp))"

section \<open>The header loop\<close>

definition linebuf_size :: nat where
  "linebuf_size = 4000"

record hdrstate =
  h_state :: nat
  linebuf :: string
  has8bit :: bool
  insubject :: bool
  has8bitsum :: int
  linecnt :: int
  h_cnt :: int
  mail_priority :: int
  policyresult :: int
  h_mfp :: ostream

definition MAILPRIO_HIGH :: int where "MAILPRIO_HIGH = 0"
definition MAILPRIO_NORMAL :: int where "MAILPRIO_NORMAL = 0"
definition MAILPRIO_BULK :: int where "MAILPRIO_BULK = 1"
definition MAILPRIO_JUNK :: int where "MAILPRIO_JUNK = 9"

definition FREEZE_X_ADVERTISEMENT_FOUND :: int where
  "FREEZE_X_ADVERTISEMENT_FOUND = 951"

definition linebuf_put :: "char \<Rightarrow> string \<Rightarrow> string" where
  "linebuf_put c lb = (if length lb < linebuf_size - 1 then lb @ [c] else lb)"

definition is_blank :: "char \<Rightarrow> bool" where
  "is_blank c \<longleftrightarrow> c = SPC \<or> c = HT \<or> c = CR \<or> c = LF"

definition skip_space :: "string \<Rightarrow> string" where
  "skip_space = dropWhile (\<lambda>c. c = SPC \<or> c = HT)"

text \<open>Writing the buffered line out and starting the next one.\<close>

definition write_line :: "hdrstate \<Rightarrow> hdrstate" where
  "write_line h = h\<lparr>h_mfp := fwrite (linebuf h) (h_mfp h), has8bit := False, linebuf := []\<rparr>"

text \<open>The tests of a header line that only set flags: the subject and the advertisement headers.\<close>

definition hdr_note :: "hdrstate \<Rightarrow> hdrstate" where
  "hdr_note h =
     (let h = (if CISTREQN (linebuf h) ''Subject:'' 8 then h\<lparr>insubject := True\<rparr>
               else if \<not> insubject h then h\<lparr>has8bitsum := has8bitsum h + (if has8bit h then 1 else 0)\<rparr>
               else h);
          h = (if CISTREQN (linebuf h) ''X-Advertisement:'' 16
               then h\<lparr>policyresult := FREEZE_X_ADVERTISEMENT_FOUND\<rparr> else h)
      in if CISTREQN (linebuf h) ''X-Advertisment:'' 15
         then h\<lparr>policyresult := FREEZE_X_ADVERTISEMENT_FOUND\<rparr> else h)"

definition hdr_priority :: "string \<Rightarrow> int \<Rightarrow> int" where
  "hdr_priority s prio =
     (if CISTREQN ''high'' s 4 then MAILPRIO_HIGH
      else if CISTREQN ''junk'' s 4 then MAILPRIO_JUNK
      else if CISTREQN ''bulk'' s 4 then MAILPRIO_BULK
      else if length s \<ge> 6 \<and> CISTREQN ''normal'' s 6 then MAILPRIO_NORMAL
      else prio)"

text \<open>
  What happens to a line that is neither blank nor a continuation, once the flags are noted.  The early
  \<open>continue\<close> for a short \<open>Precedence:\<close> header leaves the line in the buffer.
\<close>

definition hdr_tail :: "hdrstate \<Rightarrow> hdrstate" where
  "hdr_tail h =
     (let prec = CISTREQN (linebuf h) ''Precedence:'' 11; s = skip_space (drop 11 (linebuf h))
      in if prec \<and> length s < 4 then h
         else
           let h = (if prec then h\<lparr>mail_priority := hdr_priority s (mail_priority h)\<rparr> else h)
           in if linecnt h = 1 \<and> (take 5 (linebuf h) = ''From '' \<or> take 6 (linebuf h) = ''>From '')
              then h\<lparr>linebuf := [], has8bit := False\<rparr> else write_line h)"

text \<open>What the loop does with a complete line in \<open>linebuf\<close>; the flag tells that the body starts.\<close>

definition hdr_line :: "hdrstate \<Rightarrow> hdrstate \<times> bool" where
  "hdr_line h =
     (if list_all is_blank (linebuf h) then
        ((if linebuf h \<noteq> [] then h\<lparr>h_mfp := fwrite (linebuf h) (h_mfp h)\<rparr> else h), True)
      else
        let h = h\<lparr>linecnt := linecnt h + 1\<rparr>
        in (if cur (linebuf h) = SPC \<or> cur (linebuf h) = HT then write_line h else hdr_tail (hdr_note h), False))"

datatype hdrresult =
    HEof hdrstate
  | HEnd hdrstate string
  | HBody hdrstate string

fun mvdata_headers :: "string \<Rightarrow> hdrstate \<Rightarrow> hdrresult" where
  "mvdata_headers [] h = HEof h"
| "mvdata_headers (c # cs) h =
     (let h = h\<lparr>h_cnt := h_cnt h + 1\<rparr>
      in case mv_step (h_state h) (Some c) of
           Exit \<Rightarrow>
             HEnd (if linebuf h \<noteq> [] then h\<lparr>h_mfp := fwrite (linebuf h) (h_mfp h)\<rparr> else h) cs
         | Go out st \<Rightarrow>
             if out = [] then mvdata_headers cs (h\<lparr>h_state := st\<rparr>)
             else
               let h = h\<lparr>h_state := st, linebuf := fold linebuf_put out (linebuf h),
                         has8bit := has8bit h \<or> ord c \<ge> 128\<rparr>
               in if c \<noteq> LF then mvdata_headers cs h
                  else
                    case hdr_line h of
                      (h, body) \<Rightarrow> if body then HBody h cs else mvdata_headers cs h)"

text \<open>The whole of \<open>mvdata\<close>: count (\<open>EOF\<close> is -1), message file, priority, policy result, unread input.\<close>

definition hdr_init :: "int \<Rightarrow> ostream \<Rightarrow> hdrstate" where
  "hdr_init policy mfp = \<lparr>h_state = 10, linebuf = [], has8bit = False, insubject = False, has8bitsum = 0,
     linecnt = 0, h_cnt = 0, mail_priority = MAILPRIO_NORMAL, policyresult = policy, h_mfp = mfp\<rparr>"

record mvresult =
  mv_cnt :: int
  mv_mfp :: ostream
  mv_prio :: int
  mv_policy :: int
  mv_rest :: string

definition mvdata :: "string \<Rightarrow> int \<Rightarrow> ostream \<Rightarrow> mvresult" where
  "mvdata input policy mfp =
     (case mvdata_headers input (hdr_init policy mfp) of
        HEof h \<Rightarrow> \<lparr>mv_cnt = - 1, mv_mfp = h_mfp h, mv_prio = mail_priority h, mv_policy = policyresult h, mv_rest = []\<rparr>
      | HEnd h rest \<Rightarrow> \<lparr>mv_cnt = h_cnt h, mv_mfp = h_mfp h, mv_prio = mail_priority h, mv_policy = policyresult h, mv_rest = rest\<rparr>
      | HBody h rest \<Rightarrow>
          (case mvdata_body (h_state h) rest (h_cnt h) (h_mfp h) of
             (cnt, mfp, rest) \<Rightarrow>
               \<lparr>mv_cnt = cnt, mv_mfp = mfp, mv_prio = mail_priority h, mv_policy = policyresult h, mv_rest = rest\<rparr>))"

section \<open>BDAT\<close>

text \<open>
  \<open>mvbdata\<close> reads at most \<open>incount\<close> bytes.  \<open>mvbstate\<close> is the last character read, \<open>None\<close> before the
  first (the code's -1); it survives from one chunk to the next.  The message file may be absent.
\<close>

definition mvb_step :: "char option \<Rightarrow> char \<Rightarrow> string" where
  "mvb_step mvbstate c =
     (if c = CR then []
      else if mvbstate = Some CR then (if c \<noteq> LF then [CR, c] else [c])
      else [c])"

fun mvbdata :: "nat \<Rightarrow> string \<Rightarrow> char option \<Rightarrow> ostream option \<Rightarrow> int \<Rightarrow> int \<times> char option \<times> ostream option \<times> string" where
  "mvbdata 0 cs st mfp cnt = (cnt, st, mfp, cs)"
| "mvbdata (Suc n) [] st mfp cnt = (cnt, st, mfp, [])"
| "mvbdata (Suc n) (c # cs) st mfp cnt =
     mvbdata n cs (Some c) (map_option (fold fputc_ok (mvb_step st c)) mfp) (cnt + 1)"


section \<open>Status codes of the policy filter\<close>

text \<open>
  \<open>parsestatcode\<close>: a decimal code (0 unless it is between 200 and 599), an optional enhanced status code
  of the form \<open>d.d.d\<close>, and the rest of the text.
\<close>

definition is_digit :: "char \<Rightarrow> bool" where
  "is_digit c \<longleftrightarrow> 48 \<le> ord c \<and> ord c \<le> 57"

fun parse_digits :: "string \<Rightarrow> int \<Rightarrow> int \<times> string" where
  "parse_digits [] code = (code, [])"
| "parse_digits (c # cs) code =
     (if is_digit c then parse_digits cs ((if code < 0 then 0 else code) * 10 + (int (ord c) - 48)) else (code, c # cs))"

definition parsestatcode :: "string \<Rightarrow> int \<times> string option \<times> string" where
  "parsestatcode s =
     (case parse_digits s (- 1) of
        (code, ss) \<Rightarrow>
          (let ss = skip_space ss;
               enh = is_digit (cur ss) \<and> cur (drop 1 ss) = CHR ''.'' \<and> is_digit (cur (drop 2 ss)) \<and>
                     cur (drop 3 ss) = CHR ''.'' \<and> is_digit (cur (drop 4 ss));
               statcode = (if enh then Some (take 5 ss) else None);
               ss = skip_space (if enh then drop 5 ss else ss)
           in (if code < 200 \<or> code > 599 then 0 else code, statcode, ss)))"

section \<open>The state table as equations\<close>

lemma indexnum_table:
  "\<forall>n\<in>set [0..<256]. indexnum ! Suc n = (if n = 13 then 1 else if n = 10 then 2 else if n = 46 then 3 else 0)"
  by code_simp

lemma indexnum_char:
  "indexnum ! Suc (ord c) = (if c = CR then 1 else if c = LF then 2 else if c = CHR ''.'' then 3 else 0)"
proof -
  have "ord c \<in> set [0..<256]" by simp
  with indexnum_table have "indexnum ! Suc (ord c) =
      (if ord c = ord CR then 1 else if ord c = ord LF then 2 else if ord c = ord (CHR ''.'') then 3 else 0)"
    by (simp add: ord_def)
  then show ?thesis by simp
qed

lemma states_entries:
  "states ! 0 = 0" "states ! Suc 0 = 0x800F" "states ! 2 = 10" "states ! 3 = 0"
  "states ! 5 = 0" "states ! 6 = 0x8014" "states ! 7 = - 1" "states ! 8 = 0"
  "states ! 10 = 0" "states ! 11 = 0x800F" "states ! 12 = 10" "states ! 13 = 0x8005"
  "states ! 15 = 0x0D00" "states ! 16 = 15" "states ! 17 = 10" "states ! 18 = 0x0D00"
  "states ! 20 = 0x0D00" "states ! 21 = 15" "states ! 22 = - 1" "states ! 23 = 0x0D00"
  by code_simp+

lemma states_eof: "\<forall>k\<in>{0, 5, 10, 15, 20}. states ! (k + 4) = - 1"
  by code_simp

lemma char_of_13: "char_of (13::nat) = CR"
  by code_simp

lemma mv_step_table:
  "mv_step 0 (Some c) =
     (if c = CR then Go [] 15 else if c = LF then Go [c] 10 else Go [c] 0)"
  "mv_step 5 (Some c) =
     (if c = CR then Go [] 20 else if c = LF then Exit else Go [c] 0)"
  "mv_step 10 (Some c) =
     (if c = CR then Go [] 15 else if c = LF then Go [c] 10 else if c = CHR ''.'' then Go [] 5 else Go [c] 0)"
  "mv_step 15 (Some c) =
     (if c = CR then Go [c] 15 else if c = LF then Go [c] 10 else Go [CR, c] 0)"
  "mv_step 20 (Some c) =
     (if c = CR then Go [c] 15 else if c = LF then Exit else Go [CR, c] 0)"
  by (simp_all add: mv_step_def indexnum_char states_entries char_of_13 O_flag_def X_exit_def Let_def)

text \<open>An end of input leaves the loop in every state.\<close>

lemma mv_step_eof: "st \<in> {0, 5, 10, 15, 20} \<Longrightarrow> mv_step st None = Exit"
  using states_eof by (auto simp: mv_step_def indexnum_def O_flag_def X_exit_def Let_def)


text \<open>The filter as a decoder: \<open>None\<close> when it leaves the loop.\<close>

definition mv_dec :: "nat \<Rightarrow> char \<Rightarrow> (nat \<times> string) option" where
  "mv_dec st c = (case mv_step st (Some c) of Exit \<Rightarrow> None | Go out st' \<Rightarrow> Some (st', out))"

lemma mv_dec_Some: "mv_dec st c = Some (st', out) \<longleftrightarrow> mv_step st (Some c) = Go out st'"
  by (auto simp: mv_dec_def split: mvact.splits)

lemma mvdata_body_run:
  "dec_run mv_dec st w = Some (st', out) \<Longrightarrow> os_good mfp \<Longrightarrow>
     mvdata_body st (w @ rest) cnt mfp = mvdata_body st' rest (cnt + int (length w)) (os_app mfp out)"
proof (induction w arbitrary: st out cnt mfp)
  case (Cons c w)
  obtain st1 o1 o2 where s: "mv_step st (Some c) = Go o1 st1" "dec_run mv_dec st1 w = Some (st', o2)" "out = o1 @ o2"
    using Cons.prems(1) by (auto simp: mv_dec_Some split: option.splits)
  show ?case using Cons.IH [OF s(2), of "os_app mfp o1"] Cons.prems(2) s by (simp add: ac_simps)
qed simp

section \<open>Write errors do not disturb the dialogue\<close>

text \<open>Where the loops stop reading does not depend on the message file.\<close>

lemma mvdata_body_sync:
  "fst (mvdata_body st cs cnt f) = fst (mvdata_body st cs cnt g) \<and>
   snd (snd (mvdata_body st cs cnt f)) = snd (snd (mvdata_body st cs cnt g))"
  by (induction cs arbitrary: st cnt f g) (auto split: mvact.split)

definition hdr_sim :: "hdrstate \<Rightarrow> hdrstate \<Rightarrow> bool" where
  "hdr_sim h k \<longleftrightarrow> h_state k = h_state h \<and> linebuf k = linebuf h \<and> has8bit k = has8bit h \<and>
     insubject k = insubject h \<and> has8bitsum k = has8bitsum h \<and> linecnt k = linecnt h \<and> h_cnt k = h_cnt h \<and>
     mail_priority k = mail_priority h \<and> policyresult k = policyresult h"

lemma hdr_note_sim: "hdr_sim h k \<Longrightarrow> hdr_sim (hdr_note h) (hdr_note k)"
  by (simp add: hdr_sim_def hdr_note_def Let_def)

lemma hdr_note_fields [simp]:
  "linebuf (hdr_note h) = linebuf h" "h_state (hdr_note h) = h_state h" "h_cnt (hdr_note h) = h_cnt h"
  "linecnt (hdr_note h) = linecnt h" "h_mfp (hdr_note h) = h_mfp h" "has8bit (hdr_note h) = has8bit h"
  "mail_priority (hdr_note h) = mail_priority h"
  by (simp_all add: hdr_note_def Let_def)

lemma write_line_sim: "hdr_sim h k \<Longrightarrow> hdr_sim (write_line h) (write_line k)"
  by (simp add: hdr_sim_def write_line_def)

lemma hdr_tail_sim: "hdr_sim h k \<Longrightarrow> hdr_sim (hdr_tail h) (hdr_tail k)"
  unfolding hdr_tail_def Let_def hdr_sim_def by (simp add: write_line_def)

lemma hdr_line_sim:
  assumes "hdr_sim h k"
  shows "hdr_sim (fst (hdr_line h)) (fst (hdr_line k)) \<and> snd (hdr_line h) = snd (hdr_line k)"
proof -
  have 1: "hdr_sim (h\<lparr>linecnt := linecnt h + 1\<rparr>) (k\<lparr>linecnt := linecnt k + 1\<rparr>)" and l: "linebuf k = linebuf h"
    using assms by (simp_all add: hdr_sim_def)
  show ?thesis
    unfolding hdr_line_def Let_def l using assms write_line_sim [OF 1] hdr_tail_sim [OF hdr_note_sim [OF 1]]
    by (simp add: l) (simp add: hdr_sim_def)
qed

definition hres_sim :: "hdrresult \<Rightarrow> hdrresult \<Rightarrow> bool" where
  "hres_sim r s \<longleftrightarrow>
     (case (r, s) of
        (HEof h, HEof k) \<Rightarrow> hdr_sim h k
      | (HEnd h cs, HEnd k ds) \<Rightarrow> hdr_sim h k \<and> cs = ds
      | (HBody h cs, HBody k ds) \<Rightarrow> hdr_sim h k \<and> cs = ds
      | _ \<Rightarrow> False)"

lemma hres_sim_body: "hdr_sim h k \<Longrightarrow> hres_sim (HBody h cs) (HBody k cs)"
  by (simp add: hres_sim_def)

lemma hres_sim_if:
  "p = q \<Longrightarrow> hres_sim a b \<Longrightarrow> hres_sim c d \<Longrightarrow> hres_sim (if p then a else c) (if q then b else d)"
  by simp

lemma mvdata_headers_Go:
  "mv_step (h_state h) (Some c) = Go out st \<Longrightarrow>
     mvdata_headers (c # cs) h =
       (let g = h\<lparr>h_cnt := h_cnt h + 1, h_state := st, linebuf := fold linebuf_put out (linebuf h),
                  has8bit := has8bit h \<or> ord c \<ge> 128\<rparr>
        in if out = [] then mvdata_headers cs (h\<lparr>h_cnt := h_cnt h + 1, h_state := st\<rparr>)
           else if c \<noteq> LF then mvdata_headers cs g
           else if snd (hdr_line g) then HBody (fst (hdr_line g)) cs
           else mvdata_headers cs (fst (hdr_line g)))"
  by (simp add: Let_def split: prod.split)

lemma mvdata_headers_sim: "hdr_sim h k \<Longrightarrow> hres_sim (mvdata_headers cs h) (mvdata_headers cs k)"
proof (induction cs arbitrary: h k)
  case Nil
  then show ?case by (simp add: hres_sim_def)
next
  case (Cons c cs)
  have s: "h_state k = h_state h" using Cons.prems by (simp add: hdr_sim_def)
  show ?case
  proof (cases "mv_step (h_state h) (Some c)")
    case Exit
    then show ?thesis using Cons.prems s by (simp add: hres_sim_def hdr_sim_def Let_def)
  next
    case (Go out st)
    let ?g = "\<lambda>h. h\<lparr>h_cnt := h_cnt h + 1, h_state := st, linebuf := fold linebuf_put out (linebuf h),
                    has8bit := has8bit h \<or> ord c \<ge> 128\<rparr>"
    have 1: "hdr_sim (h\<lparr>h_cnt := h_cnt h + 1, h_state := st\<rparr>) (k\<lparr>h_cnt := h_cnt k + 1, h_state := st\<rparr>)"
      and 2: "hdr_sim (?g h) (?g k)"
      using Cons.prems by (simp_all add: hdr_sim_def)
    note l = hdr_line_sim [OF 2]
    have Gk: "mv_step (h_state k) (Some c) = Go out st" using Go s by simp
    show ?thesis
      unfolding mvdata_headers_Go [OF Go] mvdata_headers_Go [OF Gk] Let_def
      by (intro hres_sim_if refl Cons.IH 1 2 hres_sim_body l [THEN conjunct1] l [THEN conjunct2])
  qed
qed


section \<open>Where the data ends\<close>

text \<open>
  The state of the filter is determined by the last characters read, here in reverse order and with an
  LF in front of the first one.
\<close>

fun tail_state :: "string \<Rightarrow> nat" where
  "tail_state q =
     (if cur q = LF then 10
      else if cur q = CHR ''.'' \<and> cur (tl q) = LF then 5
      else if cur q = CR then (if cur (tl q) = CHR ''.'' \<and> cur (tl (tl q)) = LF then 20 else 15)
      else 0)"

text \<open>The input read so far ends in a line that holds a single dot.\<close>

definition ends_rev :: "string \<Rightarrow> bool" where
  "ends_rev q \<longleftrightarrow> prefix [LF, CHR ''.'', LF] q \<or> prefix [LF, CR, CHR ''.'', LF] q"

definition ends_data :: "string \<Rightarrow> bool" where
  "ends_data w \<longleftrightarrow> suffix [LF, CHR ''.'', LF] (LF # w) \<or> suffix [LF, CHR ''.'', CR, LF] (LF # w)"

lemma ends_data_rev: "ends_data w \<longleftrightarrow> ends_rev (rev w @ [LF])"
  by (simp add: ends_data_def ends_rev_def suffix_to_prefix)

lemma mv_step_tail:
  "q \<noteq> [] \<Longrightarrow> (case mv_step (tail_state q) (Some c) of
      Exit \<Rightarrow> ends_rev (c # q)
    | Go out st \<Rightarrow> \<not> ends_rev (c # q) \<and> st = tail_state (c # q))"
  by (cases q; cases "tl q"; cases "tl (tl q)")
     (auto simp: mv_step_table ends_rev_def split: if_splits)

declare tail_state.simps [simp del]

text \<open>The characters read after \<open>q\<close> up to and including \<open>w\<close> never end the data before \<open>w\<close> does.\<close>

definition no_end :: "string \<Rightarrow> string \<Rightarrow> bool" where
  "no_end q w \<longleftrightarrow> (\<forall>v. v \<noteq> [] \<longrightarrow> strict_prefix v w \<longrightarrow> \<not> ends_rev (rev v @ q))"

lemma no_end_Nil [simp]: "no_end q []"
  by (simp add: no_end_def)

lemma no_end_Cons: "no_end q (c # w) \<longleftrightarrow> w = [] \<or> \<not> ends_rev (c # q) \<and> no_end (c # q) w"
proof
  assume n: "no_end q (c # w)"
  have "\<not> ends_rev (c # q)" if "w \<noteq> []"
  proof -
    have "strict_prefix [c] (c # w)" using that by (simp add: strict_prefix_def)
    then show ?thesis using n unfolding no_end_def by fastforce
  qed
  moreover have "no_end (c # q) w"
    unfolding no_end_def
  proof (intro allI impI)
    fix v assume "v \<noteq> []" "strict_prefix v w"
    then have "strict_prefix (c # v) (c # w)" by (simp add: strict_prefix_def)
    then show "\<not> ends_rev (rev v @ c # q)" using n unfolding no_end_def by fastforce
  qed
  ultimately show "w = [] \<or> \<not> ends_rev (c # q) \<and> no_end (c # q) w" by blast
next
  assume a: "w = [] \<or> \<not> ends_rev (c # q) \<and> no_end (c # q) w"
  show "no_end q (c # w)"
    unfolding no_end_def
  proof (intro allI impI)
    fix v assume v: "v \<noteq> []" "strict_prefix v (c # w)"
    then obtain v' where v': "v = c # v'" "strict_prefix v' w"
      by (cases v) (auto simp: strict_prefix_def)
    then show "\<not> ends_rev (rev v @ q)"
      using a by (cases "v' = []") (auto simp: no_end_def)
  qed
qed

lemma mvdata_body_end:
  assumes "q \<noteq> []"
  shows "\<exists>w rest f'. cs = w @ rest \<and> no_end q w \<and>
    (if w \<noteq> [] \<and> ends_rev (rev w @ q) then mvdata_body (tail_state q) cs cnt f = (cnt + int (length w), f', rest)
     else rest = [] \<and> mvdata_body (tail_state q) cs cnt f = (cnt + int (length w) + 1, f', []))"
  using assms
proof (induction cs arbitrary: q cnt f)
  case (Cons c cs)
  note t = mv_step_tail [OF Cons.prems, of c]
  show ?case
  proof (cases "mv_step (tail_state q) (Some c)")
    case Exit
    then show ?thesis using t by (intro exI [of _ "[c]"] exI [of _ cs]) (auto simp: no_end_Cons)
  next
    case (Go out st)
    then have st: "\<not> ends_rev (c # q)" "st = tail_state (c # q)" using t by auto
    from Cons.IH [of "c # q" "cnt + 1" "fold fputc_ok out f"] obtain w rest f'
      where w: "cs = w @ rest" "no_end (c # q) w"
        "if w \<noteq> [] \<and> ends_rev (rev w @ c # q)
         then mvdata_body (tail_state (c # q)) cs (cnt + 1) (fold fputc_ok out f) = (cnt + 1 + int (length w), f', rest)
         else rest = [] \<and>
           mvdata_body (tail_state (c # q)) cs (cnt + 1) (fold fputc_ok out f) = (cnt + 1 + int (length w) + 1, f', [])"
      by blast
    then show ?thesis
      using Go st by (intro exI [of _ "c # w"] exI [of _ rest] exI [of _ f'])
        (auto simp: no_end_Cons split: if_splits)
  qed
qed simp


lemma hdr_tail_fields [simp]: "h_state (hdr_tail h) = h_state h" "h_cnt (hdr_tail h) = h_cnt h"
  by (simp_all add: hdr_tail_def write_line_def Let_def)

lemma hdr_line_fields [simp]: "h_state (fst (hdr_line h)) = h_state h" "h_cnt (fst (hdr_line h)) = h_cnt h"
  by (simp_all add: hdr_line_def write_line_def Let_def)

definition hdr_end :: "string \<Rightarrow> string \<Rightarrow> int \<Rightarrow> hdrresult \<Rightarrow> bool" where
  "hdr_end q cs cnt r \<longleftrightarrow>
     (case r of
        HEof k \<Rightarrow> no_end q cs \<and> (cs = [] \<or> \<not> ends_rev (rev cs @ q))
      | HEnd k rest \<Rightarrow> (\<exists>w. cs = w @ rest \<and> w \<noteq> [] \<and> no_end q w \<and> ends_rev (rev w @ q) \<and> h_cnt k = cnt + int (length w))
      | HBody k rest \<Rightarrow> (\<exists>w. cs = w @ rest \<and> w \<noteq> [] \<and> no_end q w \<and> \<not> ends_rev (rev w @ q) \<and>
          h_state k = tail_state (rev w @ q) \<and> h_cnt k = cnt + int (length w)))"

lemma hdr_end_Cons:
  assumes "hdr_end (c # q) cs (cnt + 1) r" "\<not> ends_rev (c # q)"
  shows "hdr_end q (c # cs) cnt r"
proof (cases r)
  case (HEof k)
  then show ?thesis using assms by (auto simp: hdr_end_def no_end_Cons)
next
  case (HEnd k rest)
  with assms obtain w where "cs = w @ rest" "w \<noteq> []" "no_end (c # q) w" "ends_rev (rev w @ c # q)"
      "h_cnt k = cnt + 1 + int (length w)" by (auto simp: hdr_end_def)
  then show ?thesis using HEnd assms(2)
    by (auto simp: hdr_end_def no_end_Cons intro!: exI [of _ "c # w"])
next
  case (HBody k rest)
  with assms obtain w where "cs = w @ rest" "w \<noteq> []" "no_end (c # q) w" "\<not> ends_rev (rev w @ c # q)"
      "h_state k = tail_state (rev w @ c # q)" "h_cnt k = cnt + 1 + int (length w)" by (auto simp: hdr_end_def)
  then show ?thesis using HBody assms(2)
    by (auto simp: hdr_end_def no_end_Cons intro!: exI [of _ "c # w"])
qed

lemma hdr_end_if: "hdr_end q cs cnt r \<Longrightarrow> hdr_end q cs cnt s \<Longrightarrow> hdr_end q cs cnt (if p then r else s)"
  by simp

lemma mvdata_headers_end:
  "q \<noteq> [] \<Longrightarrow> h_state h = tail_state q \<Longrightarrow> hdr_end q cs (h_cnt h) (mvdata_headers cs h)"
proof (induction cs arbitrary: q h)
  case Nil
  then show ?case by (simp add: hdr_end_def)
next
  case (Cons c cs)
  note t = mv_step_tail [OF Cons.prems(1), of c]
  show ?case
  proof (cases "mv_step (h_state h) (Some c)")
    case Exit
    then show ?thesis using t Cons.prems(2)
      by (auto simp: hdr_end_def no_end_Cons Let_def intro!: exI [of _ "[c]"])
  next
    case (Go out st)
    then have st: "\<not> ends_rev (c # q)" "st = tail_state (c # q)" using t Cons.prems(2) by auto
    have step: "hdr_end q (c # cs) (h_cnt h) (mvdata_headers cs k)"
      if "h_state k = st" "h_cnt k = h_cnt h + 1" for k
      using Cons.IH [of "c # q" k] st that by (intro hdr_end_Cons) simp_all
    have body: "hdr_end q (c # cs) (h_cnt h) (HBody k cs)" if "h_state k = st" "h_cnt k = h_cnt h + 1" for k
      using st that by (auto simp: hdr_end_def no_end_Cons intro!: exI [of _ "[c]"])
    show ?thesis
      unfolding mvdata_headers_Go [OF Go] Let_def by (intro hdr_end_if step body) simp_all
  qed
qed

text \<open>
  C13: The data of a DATA command ends at the first line that consists of a single dot, with CR LF or a
  bare LF around it, and nowhere else: \<open>mvdata\<close> reads exactly the shortest initial part of the input
  that ends in such a line, headers and body alike, and reports its length; when there is none it reads
  everything and reports end of file (-1 in the headers, one more than the length in the body).
\<close>

theorem mvdata_terminator:
  "\<exists>w. input = w @ mv_rest (mvdata input policy f) \<and> (\<forall>v. strict_prefix v w \<longrightarrow> \<not> ends_data v) \<and>
    (if ends_data w then mv_cnt (mvdata input policy f) = int (length w)
     else mv_rest (mvdata input policy f) = [] \<and>
       mv_cnt (mvdata input policy f) \<in> {- 1, int (length w) + 1})"
proof -
  have e0: "\<not> ends_data []" by (simp add: ends_data_def suffix_def)
  have conv: "(\<forall>v. strict_prefix v w \<longrightarrow> \<not> ends_data v) \<longleftrightarrow> no_end [LF] w" for w
    using e0 unfolding no_end_def ends_data_rev by (metis append_Nil rev.simps(1))
  have h: "hdr_end [LF] input 0 (mvdata_headers input (hdr_init policy f))"
    using mvdata_headers_end [of "[LF]" "hdr_init policy f" input] by (simp add: hdr_init_def tail_state.simps)
  show ?thesis
  proof (cases "mvdata_headers input (hdr_init policy f)")
    case (HEof k)
    then show ?thesis unfolding conv using h e0 by (auto simp: mvdata_def hdr_end_def ends_data_rev)
  next
    case (HEnd k rest)
    then show ?thesis unfolding conv using h by (auto simp: mvdata_def hdr_end_def ends_data_rev)
  next
    case (HBody k rest)
    with h obtain w where w: "input = w @ rest" "w \<noteq> []" "no_end [LF] w" "\<not> ends_rev (rev w @ [LF])"
        "h_state k = tail_state (rev w @ [LF])" "h_cnt k = int (length w)" by (auto simp: hdr_end_def)
    from mvdata_body_end [of "rev w @ [LF]" rest "h_cnt k" "h_mfp k"] obtain w' rest' f'
      where w': "rest = w' @ rest'" "no_end (rev w @ [LF]) w'"
        "if w' \<noteq> [] \<and> ends_rev (rev w' @ rev w @ [LF])
         then mvdata_body (h_state k) rest (h_cnt k) (h_mfp k) = (h_cnt k + int (length w'), f', rest')
         else rest' = [] \<and> mvdata_body (h_state k) rest (h_cnt k) (h_mfp k) = (h_cnt k + int (length w') + 1, f', [])"
      unfolding w(5) by auto
    have n: "no_end [LF] (w @ w')"
      using w(3,4) w'(2) unfolding no_end_def
      by (auto simp: strict_prefix_def prefix_append) (metis append.right_neutral rev_append append_assoc)+
    have r: "mvdata input policy f = \<lparr>mv_cnt = fst (mvdata_body (h_state k) rest (h_cnt k) (h_mfp k)),
        mv_mfp = fst (snd (mvdata_body (h_state k) rest (h_cnt k) (h_mfp k))), mv_prio = mail_priority k,
        mv_policy = policyresult k, mv_rest = snd (snd (mvdata_body (h_state k) rest (h_cnt k) (h_mfp k)))\<rparr>"
      using HBody by (simp add: mvdata_def split: prod.split)
    show ?thesis
      unfolding conv using w w' n r by (intro exI [of _ "w @ w'"]) (auto simp: ends_data_rev split: if_splits)
  qed
qed


theorem mvdata_terminator_witness:
  "\<exists>w. ''hi'' @ [CR, LF, CHR ''.'', LF] @ ''QUIT'' = w @ mv_rest (mvdata (''hi'' @ [CR, LF, CHR ''.'', LF] @ ''QUIT'') 0 os_new) \<and>
     ends_data w \<and> mv_rest (mvdata (''hi'' @ [CR, LF, CHR ''.'', LF] @ ''QUIT'') 0 os_new) = ''QUIT''"
proof -
  let ?i = "''hi'' @ [CR, LF, CHR ''.'', LF] @ ''QUIT''"
  have r: "mv_rest (mvdata ?i 0 os_new) = ''QUIT''" by code_simp
  from mvdata_terminator [of ?i 0 os_new] r show ?thesis by (auto split: if_splits)
qed


text \<open>
  A failing message file never disturbs the dialogue: the part of the input \<open>mvdata\<close> reads, the
  count it returns, the priority and the policy result are the same whatever the state of the output
  stream, so that the server is still in step with the client when it reports the error.
\<close>

lemma mvdata_sync:
  "mv_rest (mvdata input policy f) = mv_rest (mvdata input policy g) \<and>
   mv_cnt (mvdata input policy f) = mv_cnt (mvdata input policy g) \<and>
   mv_prio (mvdata input policy f) = mv_prio (mvdata input policy g) \<and>
   mv_policy (mvdata input policy f) = mv_policy (mvdata input policy g)"
proof -
  have s: "hres_sim (mvdata_headers input (hdr_init policy f)) (mvdata_headers input (hdr_init policy g))"
    by (rule mvdata_headers_sim) (simp add: hdr_sim_def hdr_init_def)
  have body: "fst (mvdata_body st cs cnt f') = fst (mvdata_body st cs cnt g') \<and>
      snd (snd (mvdata_body st cs cnt f')) = snd (snd (mvdata_body st cs cnt g'))" for st cs cnt f' g'
    by (rule mvdata_body_sync)
  show ?thesis
  proof (cases "mvdata_headers input (hdr_init policy f)")
    case (HBody h cs)
    then obtain k where k: "mvdata_headers input (hdr_init policy g) = HBody k cs" "hdr_sim h k"
      using s by (auto simp: hres_sim_def split: hdrresult.splits)
    then show ?thesis
      using HBody body [of "h_state h" cs "h_cnt h" "h_mfp h" "h_mfp k"]
      by (auto simp: mvdata_def hdr_sim_def split: prod.splits)
  qed (use s in \<open>auto simp: mvdata_def hres_sim_def hdr_sim_def split: hdrresult.splits\<close>)
qed

section \<open>The line buffer\<close>

definition linebuf_ok :: "hdrstate \<Rightarrow> bool" where
  "linebuf_ok h \<longleftrightarrow> length (linebuf h) \<le> linebuf_size - 1"

lemma linebuf_put_length: "length lb \<le> linebuf_size - 1 \<Longrightarrow> length (fold linebuf_put out lb) \<le> linebuf_size - 1"
  by (induction out arbitrary: lb) (auto simp: linebuf_put_def)

lemma linebuf_put_take: "length lb \<le> linebuf_size - 1 \<Longrightarrow> fold linebuf_put out lb = take (linebuf_size - 1) (lb @ out)"
  by (induction out arbitrary: lb) (auto simp: linebuf_put_def take_Cons')

lemma hdr_line_linebuf: "linebuf_ok h \<Longrightarrow> linebuf_ok (fst (hdr_line h))"
  by (simp add: linebuf_ok_def hdr_line_def hdr_tail_def write_line_def Let_def)

lemma mvdata_headers_linebuf:
  "linebuf_ok h \<Longrightarrow> mvdata_headers cs h \<in> {HEof k, HEnd k rest, HBody k rest} \<Longrightarrow> linebuf_ok k"
proof (induction cs arbitrary: h)
  case (Cons c cs)
  show ?case
  proof (cases "mv_step (h_state h) (Some c)")
    case Exit
    then show ?thesis using Cons.prems by (auto simp: linebuf_ok_def Let_def split: if_splits)
  next
    case (Go out st)
    let ?g = "h\<lparr>h_cnt := h_cnt h + 1, h_state := st, linebuf := fold linebuf_put out (linebuf h),
                has8bit := has8bit h \<or> ord c \<ge> 128\<rparr>"
    have 1: "linebuf_ok (h\<lparr>h_cnt := h_cnt h + 1, h_state := st\<rparr>)" and 2: "linebuf_ok ?g"
      using Cons.prems(1) linebuf_put_length by (auto simp: linebuf_ok_def)
    note 3 = hdr_line_linebuf [OF 2]
    show ?thesis
      using Cons.prems(2) Cons.IH [OF 1] Cons.IH [OF 2] Cons.IH [OF 3] 3
      unfolding mvdata_headers_Go [OF Go] Let_def
      by (cases "out = []"; cases "c = LF"; cases "snd (hdr_line ?g)") auto
  qed
qed auto

text \<open>
  The 4000-byte line buffer of the header loop never overflows: at every moment of the header input
  (the state when the input would end there), and when the loop is left, at most 3999 characters are in
  it, so that the terminating NUL the loop writes behind them is inside the buffer.
\<close>

lemma mvdata_linebuf_bound:
  "case mvdata_headers input (hdr_init policy f) of
     HEof h \<Rightarrow> length (linebuf h) < 4000
   | HEnd h rest \<Rightarrow> length (linebuf h) < 4000
   | HBody h rest \<Rightarrow> length (linebuf h) < 4000"
proof -
  have "linebuf_ok (hdr_init policy f)" by (simp add: linebuf_ok_def hdr_init_def)
  note b = mvdata_headers_linebuf [OF this, of input]
  show ?thesis
    using b by (cases "mvdata_headers input (hdr_init policy f)") (auto simp: linebuf_ok_def linebuf_size_def le_less)
qed

section \<open>BDAT chunks\<close>

text \<open>The BDAT filter as a decoder that never stops.\<close>

definition mvb_dec :: "char option \<Rightarrow> char \<Rightarrow> (char option \<times> string) option" where
  "mvb_dec st c = Some (Some c, mvb_step st c)"

lemma mvb_run_Cons:
  "dec_run mvb_dec st (c # w) = map_option (\<lambda>(d, o2). (d, mvb_step st c @ o2)) (dec_run mvb_dec (Some c) w)"
  by (simp add: mvb_dec_def [of st c])

lemma mvbdata_append:
  "mvbdata (m + n) cs st mfp cnt =
     (case mvbdata m cs st mfp cnt of (cnt', st', mfp', rest) \<Rightarrow> mvbdata n rest st' mfp' cnt')"
proof (induction m cs st mfp cnt rule: mvbdata.induct)
  case (2 m st mfp cnt)
  show ?case by (cases n) simp_all
qed simp_all

lemma mvbdata_run:
  "dec_run mvb_dec st w = Some (st', out) \<Longrightarrow> os_good f \<Longrightarrow>
     mvbdata (length w) (w @ rest) st (Some f) cnt = (cnt + int (length w), st', Some (os_app f out), rest)"
proof (induction w arbitrary: st out cnt f)
  case (Cons c w)
  obtain o2 where s: "dec_run mvb_dec (Some c) w = Some (st', o2)" "out = mvb_step st c @ o2"
    using Cons.prems(1) by (auto simp: mvb_run_Cons simp del: dec_run.simps)
  show ?case using Cons.IH [OF s(1), of "os_app f (mvb_step st c)"] Cons.prems(2) s(2) by simp
qed simp


text \<open>What the BDAT filter puts out for a byte sequence, from a given state.\<close>

fun mvb_out :: "char option \<Rightarrow> string \<Rightarrow> string" where
  "mvb_out st [] = []"
| "mvb_out st (c # cs) = mvb_step st c @ mvb_out (Some c) cs"

fun mvb_last :: "char option \<Rightarrow> string \<Rightarrow> char option" where
  "mvb_last st [] = st"
| "mvb_last st (c # cs) = mvb_last (Some c) cs"

lemma mvb_run: "dec_run mvb_dec st w = Some (mvb_last st w, mvb_out st w)"
proof (induction w arbitrary: st)
  case (Cons c w)
  then show ?case by (simp add: mvb_run_Cons del: dec_run.simps)
qed simp

lemma mvb_out_append: "mvb_out st (a @ b) = mvb_out st a @ mvb_out (mvb_last st a) b"
  by (induction a arbitrary: st) auto

lemma mvb_last_snoc: "mvb_last st (a @ [c]) = Some c"
  by (induction a arbitrary: st) auto

text \<open>
  C19: How a client cuts a message into BDAT chunks does not matter: reading \<open>m + n\<close> bytes in one chunk
  has the same effect on the message file, the carried state, the count and the input as reading \<open>m\<close>
  bytes and then \<open>n\<close>, because \<open>mvbstate\<close> carries a CR over the border; and a chunk never reads more than
  its announced size.
\<close>

theorem mvbdata_chunking:
  "mvbdata (m + n) cs st mfp cnt =
     (case mvbdata m cs st mfp cnt of (cnt', st', mfp', rest) \<Rightarrow> mvbdata n rest st' mfp' cnt') \<and>
   (case mvbdata m cs st mfp cnt of (cnt', st', mfp', rest) \<Rightarrow>
      cs = take (nat (cnt' - cnt)) cs @ rest \<and> cnt \<le> cnt' \<and> cnt' \<le> cnt + int m)"
proof -
  have "case mvbdata m cs st mfp cnt of (cnt', st', mfp', rest) \<Rightarrow>
      cs = take (nat (cnt' - cnt)) cs @ rest \<and> cnt \<le> cnt' \<and> cnt' \<le> cnt + int m"
  proof (induction m cs st mfp cnt rule: mvbdata.induct)
    case (3 m c cs st mfp cnt)
    have "nat (k - cnt) = Suc (nat (k - (cnt + 1)))" if "cnt + 1 \<le> k" for k using that by simp
    with 3 show ?case by (auto split: prod.splits)
  qed simp_all
  then show ?thesis using mvbdata_append by (auto split: prod.splits)
qed

text \<open>
  BDAT is not transparent for CR: the filter treats CR CR as a single CR, since a CR that follows a
  CR is never put out, and a CR at the end of the message never reaches the file.
\<close>

lemma mvbdata_loses_cr:
  "os_good f \<Longrightarrow>
     (\<exists>st. mvbdata (length (a @ [CR, CR] @ b)) (a @ [CR, CR] @ b) None (Some f) 0 =
        (int (length a + 2 + length b), st, Some (os_app f (mvb_out None (a @ [CR] @ b))), [])) \<and>
     mvb_out None (a @ [CR]) = mvb_out None a"
proof -
  assume g: "os_good f"
  have "mvb_out None (a @ [CR, CR] @ b) = mvb_out None (a @ [CR] @ b)"
    by (simp add: mvb_out_append mvb_step_def)
  then show ?thesis
    using mvbdata_run [OF mvb_run g, of "a @ [CR, CR] @ b" "[]" None 0]
    by (simp add: mvb_out_append mvb_step_def)
qed

lemma mvbdata_loses_cr_witness:
  "os_out (the (fst (snd (snd (mvbdata 4 [CHR ''x'', CR, CR, LF] None (Some os_new) 0))))) = [CHR ''x'', LF]"
  using mvbdata_loses_cr [of os_new "''x''" "[LF]"] by (simp add: mvb_step_def numeral_eq_Suc)

section \<open>Status codes\<close>

lemma parse_digits_suffix: "parse_digits s code = (c, r) \<Longrightarrow> suffix r s"
  by (induction s arbitrary: code) (auto simp: suffix_Cons split: if_splits)

lemma skip_space_suffix: "suffix (skip_space s) s"
  unfolding skip_space_def by (rule suffix_dropWhile)

text \<open>
  The parser of the policy filter's replies never leaves its text and never invents a reply code:
  the code is 0 or between 200 and 599, an enhanced status code has the form \<open>d.d.d\<close> and is part of the
  text, and the remaining text is a suffix of the input that does not start with a blank.
\<close>

lemma parsestatcode_sound:
  "case parsestatcode s of (code, statcode, rest) \<Rightarrow>
     (code = 0 \<or> 200 \<le> code \<and> code \<le> 599) \<and> suffix rest s \<and> cur rest \<notin> {SPC, HT} \<and>
     (case statcode of
        None \<Rightarrow> True
      | Some t \<Rightarrow> sublist t s \<and> length t = 5 \<and> is_digit (t ! 0) \<and> t ! 1 = CHR ''.'' \<and>
          is_digit (t ! 2) \<and> t ! 3 = CHR ''.'' \<and> is_digit (t ! 4))"
proof -
  obtain code ss where p: "parse_digits s (- 1) = (code, ss)" by fastforce
  have s1: "suffix (skip_space ss) s"
    using parse_digits_suffix [OF p] skip_space_suffix suffix_order.trans by blast
  have s2: "suffix (skip_space (drop n (skip_space ss))) s" for n
    using s1 suffix_drop skip_space_suffix suffix_order.trans by metis
  have c: "cur (skip_space t) \<noteq> SPC \<and> cur (skip_space t) \<noteq> HT" for t
    unfolding skip_space_def by (induction t) auto
  have t: "sublist (take 5 (skip_space ss)) s"
    using s1 by (metis append_take_drop_id sublist_appendI suffixE)
  have n0: "\<not> is_digit NUL" by code_simp
  have e: "length u \<ge> 5 \<and> u ! 0 = cur u \<and> u ! 1 = cur (drop 1 u) \<and> u ! 2 = cur (drop 2 u) \<and> u ! 3 = cur (drop 3 u) \<and>
      u ! 4 = cur (drop 4 u)" if "is_digit (cur (drop 4 u))" for u
    using that n0 by (auto simp: cur_def Cons_nth_drop_Suc [symmetric] hd_drop_conv_nth split: list.splits)
  show ?thesis
    using s1 s2 [of 0] s2 [of 5] c t e [of "skip_space ss"] by (auto simp: parsestatcode_def p Let_def)
qed

end
