(* ===== verification/Session.thy ===== *)
theory Session
  imports Smtpargs Smtpdata
begin

unbundle bit_operations_syntax

text \<open>
  The SMTP session of the server: the handlers of \<^verbatim>\<open>smtpserver/smtpcmds.c\<close> and the handlers of DATA and BDAT of
  \<^verbatim>\<open>smtpserver/smtpdata.c\<close>, and the dispatch of the command loop of \<^verbatim>\<open>smtpserver/smtpserver.c\<close>, in the build
  without OpenSSL, Perl hooks, whoson and SPF.

  A handler takes the state of the session, the argument of the command and what the rest of the system answers during
  the command (policy tests, router, file system, the bytes of the connection).  It returns the new state and the
  events: the code of the final line of each reply, and what happened to the message file.  Using the message file
  when there is none, or running over the end of the command line, is a fault.  The texts and the continuation lines of replies, the
  tarpit delays and the statistics counters are left out.
\<close>

section \<open>State, settings and answers\<close>

datatype Command =
    Null | Hello | Mail | MailOrHello | Recipient | RecipientOrData | Data | Send | SendOrMail | SendAndMail | Reset
  | Verify | Expand | Help | NoOp | Quit | Turn | Tick | Verbose | DebugIdent | Turnme | BData | DebugMode | Auth | Report
  | Hello2 | Mail2 | Send2 | Verify2 | HelloL | Silent

definition WITH_HELO :: nat where "WITH_HELO = 0x0001"
definition WITH_EHLO :: nat where "WITH_EHLO = 0x0002"
definition WITH_SUBMIT :: nat where "WITH_SUBMIT = 0x0008"
definition WITH_TLS :: nat where "WITH_TLS = 0x0020"
definition WITH_AUTH :: nat where "WITH_AUTH = 0x0040"
definition WITH_LMTP :: nat where "WITH_LMTP = 0x0080"
definition WITH_BSMTP :: nat where "WITH_BSMTP = 0x0100"

definition RHOST_REVERSED_OK :: nat where "RHOST_REVERSED_OK = 0x0001"
definition RHOST_REVERSED_FAIL :: nat where "RHOST_REVERSED_FAIL = 0x0002"
definition RHOST_VERIFIED_OK :: nat where "RHOST_VERIFIED_OK = 0x0010"
definition RHOST_VERIFIED_FAIL :: nat where "RHOST_VERIFIED_FAIL = 0x0020"
definition RHOST_HELO_SYNTAX_OK :: nat where "RHOST_HELO_SYNTAX_OK = 0x0100"
definition RHOST_HELO_SYNTAX_FAIL :: nat where "RHOST_HELO_SYNTAX_FAIL = 0x0200"
definition RHOST_HELO_VERIFY_OK :: nat where "RHOST_HELO_VERIFY_OK = 0x1000"
definition RHOST_HELO_VERIFY_FAIL :: nat where "RHOST_HELO_VERIFY_FAIL = 0x2000"

record SmtpState =
  ss_state :: Command
  ss_mfp :: "ostream option"
  ss_messagesize :: int
  ss_sizeoptval :: int
  ss_sizeoptsum :: int
  ss_with :: nat
  ss_policyresult :: int
  ss_rhostflags :: nat
  ss_smtpfrom :: string
  ss_deliverby_time :: int
  ss_deliverby_flags :: nat
  ss_from_box :: bool
  ss_rcpt_count :: nat
  ss_ok_rcpt_count :: nat
  ss_sender_ok :: bool
  ss_bdata_blocknum :: nat
  ss_mvbstate :: "char option"
  ss_authuser :: "string option"
  ss_helobuf :: string
  ss_cfinfo :: "string option"
  ss_availspace :: int
  ss_unknown_cmd_count :: nat

text \<open>The settings of the server and of the connection; \<open>findcf\<close> gives the flags configured for a name.\<close>

record server = settings +
  findcf :: "string \<Rightarrow> string option"
  style :: string
  msa_mode :: bool
  lmtp_mode :: bool
  checkhelo :: bool
  skeptical :: bool
  enable_router :: bool
  maxsize :: int
  sum_sizeoption_value :: bool
  rcptlimitcnt :: nat
  MaxErrorRecipients :: nat
  policydb :: bool
  force_rcpt_notify_never :: bool
  netconnected_flg :: bool
  postmasteronly :: bool
  insecure :: bool
  ident_flag :: bool
  ident_username :: string
  log_rcvd_ident :: bool
  log_rcvd_authuser :: bool
  myhostname :: string
  rhostname :: string
  rhostaddr :: string
  rport :: string
  debugcmdok :: bool
  expncmdok :: bool
  vrfycmdok :: bool
  ehlo_ok :: bool
  etrn_ok :: bool
  chunkingok :: bool
  trusted :: bool
  configuration_ok :: bool
  policystatus :: int
  reject_net :: bool
  unknown_cmd_limit :: nat

text \<open>The router answers with a code, or fails with an error reply of its own.\<close>

datatype routed = Routed int | RouterFailed int

record answers =
  an_policy :: int
  an_postmaster :: int
  an_router :: routed
  an_verify :: bool
  an_stream :: "ostream option"
  an_space :: "int option"
  an_now :: int
  an_content :: "int \<times> string option"
  an_close :: bool
  an_input :: string
  an_auth :: "string option"
  an_other :: int

datatype event =
    Type int
  | Abort
  | Commit string
  | Freeze int string
  | Left string

datatype fault = NullFile | LineOverrun

type_synonym result = "fault + SmtpState \<times> event list"

definition done_with :: "SmtpState \<Rightarrow> event list \<Rightarrow> result" where
  "done_with SS evs = Inr (SS, evs)"

definition STYLE :: "server \<Rightarrow> SmtpState \<Rightarrow> char \<Rightarrow> bool" where
  "STYLE cfg SS c \<longleftrightarrow> c \<in> set (case ss_cfinfo SS of None \<Rightarrow> style cfg | Some f \<Rightarrow> f)"

definition no_err :: scanerr where
  "no_err = \<lparr>rfc821_error = None, rfc821_error_ptr = None\<rparr>"

text \<open>\<open>mail_abort\<close> and \<open>mfp = NULL\<close>, if the file is open.\<close>

definition abort_if :: "SmtpState \<Rightarrow> SmtpState \<times> event list" where
  "abort_if SS = (SS\<lparr>ss_mfp := None\<rparr>, if ss_mfp SS = None then [] else [Abort])"

section \<open>HELO\<close>

definition partridge :: "string \<Rightarrow> bool" where
  "partridge s = (let p = fst (rfc821_domain s no_err) in p = s \<or> p \<noteq> [])"

definition helo_flags :: "bool \<Rightarrow> bool \<Rightarrow> nat \<Rightarrow> nat" where
  "helo_flags rc verified f =
     f OR (if rc then RHOST_HELO_SYNTAX_FAIL else RHOST_HELO_SYNTAX_OK)
       OR (if rc then RHOST_HELO_VERIFY_FAIL else if verified then RHOST_HELO_VERIFY_OK else RHOST_HELO_VERIFY_FAIL)"

definition helo_accept :: "server \<Rightarrow> Command \<Rightarrow> SmtpState \<Rightarrow> SmtpState" where
  "helo_accept cfg cmd SS =
     SS\<lparr>ss_with := (if cmd = Hello2 then ss_with SS OR WITH_EHLO else WITH_HELO), ss_state := MailOrHello\<rparr>"

definition smtp_helo :: "server \<Rightarrow> answers \<Rightarrow> Command \<Rightarrow> string \<Rightarrow> string \<Rightarrow> SmtpState \<Rightarrow> result" where
  "smtp_helo cfg an cmd buf cp0 SS0 =
     (let (SS, evs) = abort_if SS0;
          cp = skip_one cp0;
          rc = partridge cp;
          SS = SS\<lparr>ss_cfinfo := findcf cfg cp, ss_helobuf := take 199 buf, ss_rhostflags := helo_flags rc (an_verify an) (ss_rhostflags SS)\<rparr>;
          cp = (if strict_protocol cfg < 1 then dropWhile blank cp else cp);
          SS = SS\<lparr>ss_policyresult := (if netconnected_flg cfg then an_policy an else 0)\<rparr>
      in if checkhelo cfg \<and> skeptical cfg \<and> rc then done_with (SS\<lparr>ss_helobuf := ''Bad.Helo.Input''\<rparr>) (evs @ [Type 501])
         else
           let SS = SS\<lparr>ss_cfinfo := findcf cfg cp\<rparr>
           in if (case ss_cfinfo SS of None \<Rightarrow> False | Some f \<Rightarrow> cur f = CHR ''!'') then done_with SS (evs @ [Type 501])
              else if STYLE cfg SS (CHR ''h'') then
                (case an_router an of
                   RouterFailed n \<Rightarrow> done_with SS (evs @ [Type n])
                 | Routed n \<Rightarrow>
                     if n div 100 \<noteq> 2 then done_with SS (evs @ [Type n])
                     else done_with (helo_accept cfg cmd SS) (evs @ [Type 250]))
              else done_with (helo_accept cfg cmd SS) (evs @ [Type 250]))"

section \<open>MAIL\<close>

definition octal3 :: "nat \<Rightarrow> string" where
  "octal3 n = map char_of [48 + n div 64 mod 8, 48 + n div 8 mod 8, 48 + n mod (8::nat)]"

definition comment_char :: "char \<Rightarrow> string" where
  "comment_char c =
     (if ord c < 0x20 \<or> ord c > 0x7e then BSLASH # octal3 (ord c)
      else if c \<in> {DQUOTE, BSLASH, CHR ''('', CHR '')''} then [BSLASH, c]
      else [c])"

definition rfc822commentprint :: "string \<Rightarrow> string" where
  "rfc822commentprint str = [DQUOTE] @ concat (map comment_char str) @ [DQUOTE]"

definition flag_text :: "nat \<Rightarrow> nat \<Rightarrow> nat \<Rightarrow> string \<Rightarrow> string" where
  "flag_text f ok fail other = (if f AND ok \<noteq> 0 then ''OK'' else if f AND fail \<noteq> 0 then ''FAIL'' else other)"

definition rhost_flags :: "nat \<Rightarrow> string" where
  "rhost_flags f =
     '' rhost-flags-'' @ flag_text f RHOST_REVERSED_OK RHOST_REVERSED_FAIL ''??'' @ ''-''
     @ flag_text f RHOST_VERIFIED_OK RHOST_VERIFIED_FAIL ''FAIL'' @ ''-''
     @ flag_text f RHOST_HELO_SYNTAX_OK RHOST_HELO_SYNTAX_FAIL ''??'' @ ''-''
     @ flag_text f RHOST_HELO_VERIFY_OK RHOST_HELO_VERIFY_FAIL ''FAIL'' @ '')'' @ [LF]"

definition with_suffix :: "nat \<Rightarrow> string" where
  "with_suffix w = (if w AND WITH_TLS \<noteq> 0 then ''S'' else []) @ (if w AND WITH_AUTH \<noteq> 0 then ''A'' else [])"

definition with_name :: "nat \<Rightarrow> string" where
  "with_name w =
     (if w AND WITH_BSMTP \<noteq> 0 then ''BSMTP''
      else if w AND WITH_LMTP \<noteq> 0 then ''LMTP'' @ with_suffix w
      else if w AND WITH_SUBMIT \<noteq> 0 then ''SUBMIT'' @ with_suffix w
      else if w AND WITH_EHLO \<noteq> 0 then ''ESMTP'' @ with_suffix w
      else ''SMTP'')"

definition auth_text :: "string option \<Rightarrow> string" where
  "auth_text u = (case u of None \<Rightarrow> ''<none>'' | Some a \<Rightarrow> rfc822commentprint a)"

definition peer_text :: "server \<Rightarrow> string" where
  "peer_text cfg = (if rhostaddr cfg = [] then [] else rhostaddr cfg @ '':'' @ rport cfg @ '' '')"

definition rcvdfrom :: "server \<Rightarrow> SmtpState \<Rightarrow> string" where
  "rcvdfrom cfg SS =
     ''rcvdfrom '' @ take 200 (rhostname cfg) @ '' ('' @ peer_text cfg @ rfc822commentprint (ss_helobuf SS)
     @ (if ident_flag cfg \<and> log_rcvd_ident cfg then '' ident: '' @ rfc822commentprint (ident_username cfg) else [])
     @ (if log_rcvd_authuser cfg then '' smtp-auth: '' @ auth_text (ss_authuser SS) else [])
     @ rhost_flags (ss_rhostflags SS)
     @ ''comment '' @ rhostname cfg @ '' '' @ peer_text cfg @ rfc822commentprint (ss_helobuf SS)
     @ '' smtp-auth: '' @ auth_text (ss_authuser SS) @ rhost_flags (ss_rhostflags SS)"

definition body_text :: "body option \<Rightarrow> string" where
  "body_text b =
     (case b of
        None \<Rightarrow> []
      | Some Body8BITMIME \<Rightarrow> ''bodytype 8BITMIME'' @ [LF]
      | Some BodyBINARYMIME \<Rightarrow> ''bodytype BINARYMIME'' @ [LF]
      | Some Body7BIT \<Rightarrow> ''bodytype 7BIT'' @ [LF])"

definition from_text :: "string \<Rightarrow> string" where
  "from_text addr = (if addr = [] then ''channel error'' @ [LF] else ''from <'' @ addr @ ''>'' @ [LF])"

definition opt_line :: "string \<Rightarrow> string option \<Rightarrow> string" where
  "opt_line key v = (case v of None \<Rightarrow> [] | Some x \<Rightarrow> key @ x @ [LF])"

definition mail_envelope :: "server \<Rightarrow> SmtpState \<Rightarrow> string \<Rightarrow> mailopts \<Rightarrow> string" where
  "mail_envelope cfg SS addr m =
     (if insecure cfg then ''external'' @ [LF] else [])
     @ (case ss_authuser SS of None \<Rightarrow> [] | Some a \<Rightarrow> ''comment smtp-auth: '' @ rfc822commentprint a @ [LF])
     @ (if netconnected_flg cfg then rcvdfrom cfg SS else [])
     @ body_text (m_body m) @ ''with '' @ with_name (ss_with SS) @ [LF]
     @ (if ident_flag cfg then ''identinfo '' @ ident_username cfg @ [LF] else [])
     @ from_text addr
     @ (if ss_policyresult SS > 0 then ''comment policytest() reported freeze state'' @ [LF] else [])
     @ opt_line ''envid '' (m_envid m) @ opt_line ''notaryret '' (m_ret m)"

text \<open>\<open>rewind\<close> and \<open>ftruncate\<close> on the message file.\<close>

definition truncated :: "ostream \<Rightarrow> ostream" where
  "truncated f = f\<lparr>os_out := [], os_err := False\<rparr>"

definition policy_code :: "int \<Rightarrow> int \<Rightarrow> int" where
  "policy_code code result = (if result < - 99 then 451 else code)"

text \<open>The call of the router for an address; \<open>None\<close> when it is not asked.\<close>

definition ask_router :: "server \<Rightarrow> answers \<Rightarrow> SmtpState \<Rightarrow> char \<Rightarrow> int option + int" where
  "ask_router cfg an SS c =
     (if enable_router cfg \<and> \<not> STYLE cfg SS c then
        (case an_router an of
           RouterFailed n \<Rightarrow> Inr n
         | Routed n \<Rightarrow> if n div 100 \<noteq> 2 then Inr n else Inl (Some n))
      else Inl None)"

text \<open>The end of \<open>smtp_mail\<close>: the envelope is written and the sizes are checked.\<close>

definition mail_store :: "server \<Rightarrow> answers \<Rightarrow> SmtpState \<Rightarrow> ostream \<Rightarrow> string \<Rightarrow> mailopts \<Rightarrow> int option \<Rightarrow> SmtpState \<times> event list" where
  "mail_store cfg an SS f0 addr m routed =
     (let f = fwrite (mail_envelope cfg SS addr m) (truncated f0);
          avail = (case an_space an of None \<Rightarrow> ss_availspace SS | Some n \<Rightarrow> n);
          SS = SS\<lparr>ss_mfp := Some f, ss_messagesize := 0, ss_smtpfrom := addr, ss_availspace := avail\<rparr>;
          (SS, evs) =
            (if os_err f then (SS\<lparr>ss_mfp := None\<rparr>, [Type 452, Abort])
             else if ss_sizeoptval SS > maxsize cfg \<and> maxsize cfg > 0 then (SS\<lparr>ss_mfp := None\<rparr>, [Type 552, Abort])
             else if ss_sizeoptval SS > avail then (SS\<lparr>ss_mfp := None\<rparr>, [Type 452, Abort])
             else case routed of
                    None \<Rightarrow> (SS\<lparr>ss_sender_ok := True\<rparr>, [Type 250])
                  | Some n \<Rightarrow>
                      if n \<ge> 400 then (SS\<lparr>ss_mfp := None, ss_sender_ok := True\<rparr>, [Abort, Type n])
                      else (SS\<lparr>ss_sender_ok := True\<rparr>, [Type n]))
      in (SS\<lparr>ss_state := (if ss_mfp SS = None then ss_state SS else Recipient), ss_from_box := (addr = [])\<rparr>, evs))"

text \<open>
  The sender is tested by the policy and the router, and the message file is opened.  Parameters of a refused MAIL command
  are not kept: the next MAIL command sets them anew before anything reads them.
\<close>

definition mail_accept :: "server \<Rightarrow> answers \<Rightarrow> string \<Rightarrow> mailopts \<Rightarrow> SmtpState \<Rightarrow> result" where
  "mail_accept cfg an addr m SS0 =
     (let SS = SS0\<lparr>ss_sizeoptval := m_size m, ss_deliverby_time := m_bytime m, ss_deliverby_flags := m_byflags m,
                   ss_policyresult := (if netconnected_flg cfg then an_policy an else 0)\<rparr>
      in if ss_policyresult SS < 0 then done_with SS [Type (policy_code 553 (ss_policyresult SS))]
         else case ask_router cfg an SS (CHR ''F'') of
                Inr n \<Rightarrow> done_with SS [Type n]
              | Inl routed \<Rightarrow>
                  (case (if ss_mfp SS = None then an_stream an else ss_mfp SS) of
                     None \<Rightarrow> done_with SS [Type 452]
                   | Some f \<Rightarrow> Inr (mail_store cfg an SS f addr m routed)))"

definition mail_args :: "server \<Rightarrow> answers \<Rightarrow> bool \<Rightarrow> bool \<Rightarrow> string \<Rightarrow> SmtpState \<Rightarrow> result" where
  "mail_args cfg an strict sloppy cp SS =
     (case mail_path (settings.truncate cfg) strict sloppy cp no_err of
        Overrun \<Rightarrow> Inl LineOverrun
      | Reply n \<Rightarrow> done_with SS [Type n]
      | Value (a, behind, s, _) \<Rightarrow>
          (let SS = SS\<lparr>ss_sizeoptval := - 1, ss_sizeoptsum := - 1\<rparr>
           in case mail_params (settings.truncate cfg) (an_now an) strict sloppy s no_mailopts no_err of
                Overrun \<Rightarrow> Inl LineOverrun
              | Reply n \<Rightarrow> done_with SS [Type n]
              | Value m \<Rightarrow> mail_accept cfg an (rfc821to822quote (a @ behind) (length a)) m SS))"

definition smtp_mail :: "server \<Rightarrow> answers \<Rightarrow> string \<Rightarrow> SmtpState \<Rightarrow> result" where
  "smtp_mail cfg an cp SS0 =
     (let sloppy = STYLE cfg SS0 (CHR ''S''); strict = (STYLE cfg SS0 (CHR ''R'') \<and> \<not> sloppy);
          SS = SS0\<lparr>ss_sender_ok := False, ss_deliverby_time := 0, ss_deliverby_flags := 0\<rparr>
      in if ss_state SS \<noteq> Mail \<and> ss_state SS \<noteq> MailOrHello then done_with SS [Type 503]
         else if msa_mode cfg \<and> ss_authuser SS = None then done_with SS [Type 530]
         else mail_args cfg an strict sloppy cp (SS\<lparr>ss_rcpt_count := 0, ss_ok_rcpt_count := 0\<rparr>))"

section \<open>RCPT\<close>

definition hex_digit :: "nat \<Rightarrow> char" where
  "hex_digit n = char_of (if n < 10 then 48 + n else 55 + n)"

text \<open>\<open>%02X\<close> of a plain \<open>char\<close>: an 8-bit character is a negative \<open>int\<close>.\<close>

definition xtext_char :: "char \<Rightarrow> string" where
  "xtext_char c =
     (if 33 \<le> schar c \<and> schar c \<le> 126 \<and> c \<noteq> CHR ''+'' \<and> c \<noteq> CHR ''='' then [c]
      else ''+'' @ (if schar c < 0 then ''FFFFFF'' else []) @ [hex_digit (ord c div 16), hex_digit (ord c mod 16)])"

definition xtext_print :: "string \<Rightarrow> string" where
  "xtext_print s = concat (map xtext_char s)"

definition notify_text :: "server \<Rightarrow> SmtpState \<Rightarrow> rcptopts \<Rightarrow> string" where
  "notify_text cfg SS q =
     (if force_rcpt_notify_never cfg then '' NOTIFY=NEVER''
      else
        (case r_notify q of
           Some t \<Rightarrow>
             '' '' @ t
             @ (if r_flags q AND NOTIFY_NEVER = 0 \<and> r_flags q AND NOTIFY_DELAY = 0 \<and> ss_deliverby_flags SS AND DELIVERBY_N \<noteq> 0
                then '',DELAY'' else [])
         | None \<Rightarrow> '' NOTIFY=FAILURE,DELAY'')
        @ (if ss_deliverby_flags SS AND DELIVERBY_T \<noteq> 0 then '',TRACE'' else []))"

fun dec_text :: "nat \<Rightarrow> string" where
  "dec_text n = (if n < 10 then [char_of (48 + n)] else dec_text (n div 10) @ [char_of (48 + n mod 10)])"

definition int_text :: "int \<Rightarrow> string" where
  "int_text i = (if i < 0 then ''-'' @ dec_text (nat (- i)) else dec_text (nat i))"

definition by_text :: "SmtpState \<Rightarrow> string" where
  "by_text SS =
     (if ss_deliverby_time SS = 0 then []
      else '' BY='' @ int_text (ss_deliverby_time SS) @ '';''
           @ (if ss_deliverby_flags SS AND DELIVERBY_R \<noteq> 0 then ''R'' else [])
           @ (if ss_deliverby_flags SS AND DELIVERBY_N \<noteq> 0 then ''N'' else [])
           @ (if ss_deliverby_flags SS AND DELIVERBY_T \<noteq> 0 then ''T'' else []))"

definition rcpt_envelope :: "server \<Rightarrow> SmtpState \<Rightarrow> string \<Rightarrow> rcptopts \<Rightarrow> string" where
  "rcpt_envelope cfg SS addr q =
     ''todsn'' @ notify_text cfg SS q @ by_text SS
     @ (case r_orcpt q of Some t \<Rightarrow> '' '' @ t | None \<Rightarrow> '' ORCPT=rfc822;'' @ xtext_print addr)
     @ '' INRCPT=rfc822;'' @ xtext_print addr @ '' INFROM=rfc822;'' @ xtext_print (ss_smtpfrom SS) @ [LF]
     @ ''to <'' @ addr @ ''>'' @ [LF]
     @ (if ss_policyresult SS > 0 then ''comment policytest() reported freeze state '' @ int_text (ss_policyresult SS) @ [LF] else [])"

text \<open>A rejected recipient that looks like the postmaster gets a second chance.\<close>

definition rcpt_policy :: "server \<Rightarrow> answers \<Rightarrow> string \<Rightarrow> int" where
  "rcpt_policy cfg an addr =
     (let result = (if netconnected_flg cfg then an_policy an else 0)
      in if (postmasteronly cfg \<or> result < 0) \<and> CISTREQN addr ''postmaster'' 10 then
           (if length addr = 10 then 0
            else if policydb cfg \<and> result > - 100 \<and> (if netconnected_flg cfg then an_postmaster an else 0) = 0 then 0
            else result)
         else result)"

text \<open>The end of \<open>smtp_rcpt\<close>: the recipient is written to the file before the sizes are checked.\<close>

definition rcpt_store :: "server \<Rightarrow> SmtpState \<Rightarrow> ostream \<Rightarrow> string \<Rightarrow> rcptopts \<Rightarrow> int option \<Rightarrow> SmtpState \<times> event list" where
  "rcpt_store cfg SS f0 addr q routed =
     (let f = fwrite (rcpt_envelope cfg SS addr q) f0;
          sz = (if ss_sizeoptval SS < 0 then 0 else ss_sizeoptval SS);
          total = (if sum_sizeoption_value cfg then ss_sizeoptsum SS + sz else sz);
          SS = SS\<lparr>ss_mfp := Some f, ss_sizeoptval := sz, ss_sizeoptsum := total\<rparr>;
          spam = (ss_from_box SS \<and> ss_rcpt_count SS > MaxErrorRecipients cfg);
          (SS, evs, err) =
            (if os_err f then (SS, [Type 452], 1)
             else if maxsize cfg > 0 \<and> sz > maxsize cfg then (SS, [Type 552], 1)
             else if total > ss_availspace SS then (SS, [Type 452], 1)
             else case routed of
                    Some n \<Rightarrow>
                      if spam then (SS, [Type 552], 1)
                      else if n \<ge> 400 then (SS\<lparr>ss_mfp := None\<rparr>, [Abort, Type n], n)
                      else (SS, [Type n], 0)
                  | None \<Rightarrow> (SS, if spam then [Type 552] else [Type 250], 0))
      in (if err = (0::int) then SS\<lparr>ss_ok_rcpt_count := ss_ok_rcpt_count SS + 1, ss_state := RecipientOrData\<rparr> else SS, evs))"

definition rcpt_accept :: "server \<Rightarrow> answers \<Rightarrow> string \<Rightarrow> rcptopts \<Rightarrow> SmtpState \<Rightarrow> result" where
  "rcpt_accept cfg an addr q SS0 =
     (let SS = SS0\<lparr>ss_policyresult := rcpt_policy cfg an addr\<rparr>
      in if ss_policyresult SS < 0 then
           (case ss_mfp SS of
              None \<Rightarrow> Inl NullFile
            | Some f \<Rightarrow>
                done_with (SS\<lparr>ss_mfp := Some (fwrite (''comment policytest() rejected rcptaddr: <'' @ addr @ ''>'' @ [LF]) f)\<rparr>)
                  [Type (policy_code 550 (ss_policyresult SS))])
         else case ask_router cfg an SS (CHR ''T'') of
                Inr n \<Rightarrow> done_with SS [Type n]
              | Inl routed \<Rightarrow>
                  (case ss_mfp SS of
                     None \<Rightarrow> Inl NullFile
                   | Some f \<Rightarrow> Inr (rcpt_store cfg SS f addr q routed)))"

definition rcpt_args :: "server \<Rightarrow> answers \<Rightarrow> bool \<Rightarrow> bool \<Rightarrow> string \<Rightarrow> SmtpState \<Rightarrow> result" where
  "rcpt_args cfg an strict sloppy cp SS =
     (case rcpt_path (settings.truncate cfg) strict sloppy cp no_err of
        Overrun \<Rightarrow> Inl LineOverrun
      | Reply n \<Rightarrow> done_with SS [Type n]
      | Value (a, behind, s, _) \<Rightarrow>
          (case rcpt_params (settings.truncate cfg) strict sloppy s no_rcptopts no_err of
             Overrun \<Rightarrow> Inl LineOverrun
           | Reply n \<Rightarrow> done_with SS [Type n]
           | Value q \<Rightarrow>
               if ss_rcpt_count SS \<ge> rcptlimitcnt cfg then done_with SS [Type 452]
               else rcpt_accept cfg an (rfc821to822quote (a @ behind) (length a)) q SS))"

definition smtp_rcpt :: "server \<Rightarrow> answers \<Rightarrow> string \<Rightarrow> SmtpState \<Rightarrow> result" where
  "smtp_rcpt cfg an cp SS0 =
     (let sloppy = STYLE cfg SS0 (CHR ''S''); strict = (STYLE cfg SS0 (CHR ''R'') \<and> \<not> sloppy);
          SS = SS0\<lparr>ss_rcpt_count := ss_rcpt_count SS0 + 1\<rparr>
      in if msa_mode cfg \<and> ss_authuser SS = None then done_with SS [Type 530]
         else if (ss_state SS = MailOrHello \<or> ss_state SS = Mail) \<and> policydb cfg \<and> ss_policyresult SS < 0 then done_with SS [Type 550]
         else if ss_state SS \<noteq> Recipient \<and> ss_state SS \<noteq> RecipientOrData then done_with SS [Type 503]
         else rcpt_args cfg an strict sloppy cp SS)"

section \<open>DATA\<close>

text \<open>Whether the connection delivers the final dot; otherwise \<open>mvdata\<close> meets the end of the input.\<close>

fun data_ended :: "nat \<Rightarrow> string \<Rightarrow> bool" where
  "data_ended state [] = False"
| "data_ended state (c # cs) = (case mv_step state (Some c) of Exit \<Rightarrow> True | Go out state \<Rightarrow> data_ended state cs)"

definition msa_comment :: "server \<Rightarrow> SmtpState \<Rightarrow> string" where
  "msa_comment cfg SS =
     (case ss_authuser SS of
        Some u \<Rightarrow>
          (if msa_mode cfg then ''X-Comment: RFC 2476 MSA function at '' @ myhostname cfg @ '' logged sender identity as: '' @ u @ [LF] else [])
      | None \<Rightarrow> [])"

text \<open>In LMTP mode the reply is repeated for every accepted recipient.\<close>

definition replies :: "server \<Rightarrow> SmtpState \<Rightarrow> int \<Rightarrow> event list" where
  "replies cfg SS code = Type code # (if lmtp_mode cfg then replicate (ss_ok_rcpt_count SS - 1) (Type code) else [])"

definition content_code :: "answers \<Rightarrow> int \<Rightarrow> int" where
  "content_code an dflt =
     (case snd (an_content an) of
        None \<Rightarrow> dflt
      | Some msg \<Rightarrow> (let code = fst (parsestatcode msg) in if code = 0 then dflt else code))"

text \<open>
  What the content policy and the file system make of a complete message.  When the file cannot be moved to the freezer
  BDAT sends one reply more than DATA in LMTP mode.
\<close>

definition dispose :: "server \<Rightarrow> answers \<Rightarrow> SmtpState \<Rightarrow> ostream \<Rightarrow> bool \<Rightarrow> int \<Rightarrow> event list" where
  "dispose cfg an SS f bdat ok_code =
     (let result = fst (an_content an)
      in if result < 0 then replies cfg SS (content_code an 552) @ [Abort]
         else if result > 0 then
           (if an_close an then Freeze result (os_out f) # replies cfg SS (content_code an 250)
            else Left (os_out f) # (if bdat \<and> lmtp_mode cfg \<and> ss_ok_rcpt_count SS > 0 then [Type 452] else []) @ replies cfg SS 452)
         else if an_close an then Commit (os_out f) # replies cfg SS ok_code
         else Left (os_out f) # replies cfg SS 452)"

text \<open>The second component tells that the session goes on.\<close>

type_synonym dresult = "fault + SmtpState \<times> event list \<times> bool"

definition data_message :: "server \<Rightarrow> answers \<Rightarrow> SmtpState \<Rightarrow> ostream \<Rightarrow> SmtpState \<times> event list \<times> bool" where
  "data_message cfg an SS f0 =
     (let mv = mvdata (an_input an) (ss_policyresult SS) (fwrite (''env-end'' @ [LF] @ msa_comment cfg SS) f0);
          f = mv_mfp mv;
          avail = (case an_space an of None \<Rightarrow> ss_availspace SS | Some n \<Rightarrow> n);
          SS = SS\<lparr>ss_mfp := None, ss_messagesize := mv_cnt mv, ss_policyresult := mv_policy mv, ss_availspace := avail\<rparr>
      in if \<not> data_ended 10 (an_input an) then
           (SS, [Type 354] @ (if STYLE cfg SS (CHR ''D'') then [Left (os_out f)] else [Abort]), False)
         else
           let (SS, evs) =
             (if avail < 0 \<or> os_err f then (SS, replies cfg SS 452 @ [Abort])
              else if maxsize cfg > 0 \<and> mv_cnt mv > maxsize cfg then (SS, Abort # replies cfg SS 552)
              else (SS\<lparr>ss_policyresult := fst (an_content an)\<rparr>, dispose cfg an SS f False (content_code an 250)))
           in (SS\<lparr>ss_state := MailOrHello\<rparr>, [Type 354] @ evs, True))"

definition smtp_data :: "server \<Rightarrow> answers \<Rightarrow> string \<Rightarrow> SmtpState \<Rightarrow> dresult" where
  "smtp_data cfg an cp0 SS =
     (let cp = (if strict_protocol cfg < 1 then dropWhile blank cp0 else cp0)
      in if strict_protocol cfg > 0 \<and> cp \<noteq> [] then Inr (SS, [Type 501], True)
         else if ss_state SS \<noteq> RecipientOrData then
           (case abort_if SS of (SS, evs) \<Rightarrow> Inr (SS\<lparr>ss_rcpt_count := 0\<rparr>, Type 503 # evs, True))
         else
           case ss_mfp SS of
             None \<Rightarrow> Inl NullFile
           | Some f \<Rightarrow>
               if os_err f then Inr (SS\<lparr>ss_mfp := None\<rparr>, [Type 452, Abort], True)
               else if \<not> ss_sender_ok SS \<or> ss_rcpt_count SS = 0 \<or> ss_from_box SS \<and> ss_rcpt_count SS > MaxErrorRecipients cfg then
                 Inr (SS\<lparr>ss_state := MailOrHello, ss_mfp := None\<rparr>, [Type 550, Abort], True)
               else Inr (data_message cfg an SS f))"

section \<open>BDAT\<close>

text \<open>\<open>sscanf(cp, "%ld %7s %7s", ...)\<close>: the size and whether the only word behind it is LAST.\<close>

definition bdat_args :: "string \<Rightarrow> (nat \<times> bool) option" where
  "bdat_args cp =
     (let t = dropWhile isspace cp; t = (if cur t = CHR ''+'' then tl t else t);
          ds = takeWhile isdigit t; r = dropWhile isspace (dropWhile isdigit t);
          w = takeWhile (\<lambda>c. \<not> isspace c) r; e = dropWhile isspace (dropWhile (\<lambda>c. \<not> isspace c) r)
      in if ds = [] then None
         else if r = [] then Some (dec_value ds, False)
         else if cistrcmp w ''LAST'' = 0 \<and> e = [] then Some (dec_value ds, True)
         else None)"

text \<open>The sizes are checked on the file with the chunk written; an open file without sender or recipients is dropped.\<close>

definition bdat_first :: "server \<Rightarrow> SmtpState \<Rightarrow> bool" where
  "bdat_first cfg SS \<longleftrightarrow>
     ss_bdata_blocknum SS = 1 \<and>
     (\<not> ss_sender_ok SS \<or> ss_rcpt_count SS = 0 \<or> ss_from_box SS \<and> ss_rcpt_count SS > MaxErrorRecipients cfg)"

definition bdat_replies :: "server \<Rightarrow> SmtpState \<Rightarrow> bool \<Rightarrow> int \<Rightarrow> event list" where
  "bdat_replies cfg SS fin code = (if fin then replies cfg SS code else [Type code])"

definition bdat_chunk :: "server \<Rightarrow> answers \<Rightarrow> bool \<Rightarrow> SmtpState \<Rightarrow> ostream \<Rightarrow> bool \<Rightarrow> SmtpState \<times> event list \<times> bool" where
  "bdat_chunk cfg an fin SS f eof =
     (let avail = (case an_space an of None \<Rightarrow> ss_availspace SS | Some n \<Rightarrow> n);
          SS = SS\<lparr>ss_mfp := None, ss_availspace := avail\<rparr>
      in if eof then (SS, if STYLE cfg SS (CHR ''D'') then [Left (os_out f)] else [Abort], False)
         else
           let (SS, evs) =
             (if avail < 0 \<or> os_err f then (SS, bdat_replies cfg SS fin 452 @ [Abort])
              else if maxsize cfg > 0 \<and> int (length (os_out f)) > maxsize cfg then (SS, Abort # bdat_replies cfg SS fin 552)
              else if fin then (SS\<lparr>ss_policyresult := fst (an_content an)\<rparr>, dispose cfg an SS f True 250)
              else (SS\<lparr>ss_mfp := Some f\<rparr>, [Type 250]))
           in (if fin then SS\<lparr>ss_state := MailOrHello\<rparr> else SS, evs, True))"

definition bdat_begin :: "SmtpState \<Rightarrow> SmtpState" where
  "bdat_begin SS0 =
     (let SS = (if ss_state SS0 = RecipientOrData then SS0\<lparr>ss_state := BData, ss_bdata_blocknum := 0, ss_mvbstate := None\<rparr> else SS0)
      in SS\<lparr>ss_bdata_blocknum := ss_bdata_blocknum SS + 1\<rparr>)"

definition bdat_read :: "server \<Rightarrow> answers \<Rightarrow> nat \<Rightarrow> SmtpState \<Rightarrow> SmtpState" where
  "bdat_read cfg an chunk SS =
     (let mfp = (if ss_bdata_blocknum SS = 1 then map_option (fwrite (''env-end'' @ [LF] @ msa_comment cfg SS)) (ss_mfp SS) else ss_mfp SS)
      in case mvbdata chunk (an_input an) (ss_mvbstate SS) mfp 0 of
           (cnt, mvb, mfp, rest) \<Rightarrow> SS\<lparr>ss_mfp := mfp, ss_mvbstate := mvb, ss_messagesize := ss_messagesize SS + cnt\<rparr>)"

definition bdat_finish :: "server \<Rightarrow> answers \<Rightarrow> bool \<Rightarrow> bool \<Rightarrow> SmtpState \<Rightarrow> dresult" where
  "bdat_finish cfg an fin eof SS =
     (if ss_state SS \<noteq> BData then
        (case abort_if SS of (SS, evs) \<Rightarrow> Inr (SS, bdat_replies cfg SS fin 503 @ evs, True))
      else if bdat_first cfg SS then
        (case abort_if SS of (SS, evs) \<Rightarrow> Inr (SS\<lparr>ss_state := MailOrHello\<rparr>, bdat_replies cfg SS fin 550 @ evs, True))
      else
        let SS = (if ss_bdata_blocknum SS = 1 then SS\<lparr>ss_rcpt_count := 0, ss_sender_ok := False\<rparr> else SS)
        in case ss_mfp SS of
             None \<Rightarrow> Inl NullFile
           | Some f \<Rightarrow> Inr (bdat_chunk cfg an fin SS f eof))"

definition smtp_bdata :: "server \<Rightarrow> answers \<Rightarrow> string \<Rightarrow> SmtpState \<Rightarrow> dresult" where
  "smtp_bdata cfg an cp SS0 =
     (let SS = bdat_begin SS0
      in case bdat_args cp of
           None \<Rightarrow> Inr (SS, [Type 501], True)
         | Some (chunk, fin) \<Rightarrow> bdat_finish cfg an fin (length (an_input an) < chunk) (bdat_read cfg an chunk SS))"

section \<open>The command loop\<close>

definition command_list :: "(string \<times> Command) list" where
  "command_list =
     [(''EHLO'', Hello2), (''HELO'', Hello), (''LHLO'', HelloL), (''MAIL'', Mail), (''RCPT'', Recipient), (''DATA'', Data),
      (''BDAT'', BData), (''RSET'', Reset), (''VRFY'', Verify), (''EXPN'', Expand), (''HELP'', Help), (''NOOP'', NoOp),
      (''QUIT'', Quit), (''TURNME'', Turnme), (''ETRN'', Turnme), (''AUTH'', Auth), (''VERB'', Verbose), (''ONEX'', NoOp),
      (''SEND'', Send), (''SOML'', SendOrMail), (''SAML'', SendAndMail), (''TURN'', Turn), (''TICK'', Tick), (''EMAL'', Mail2),
      (''ESND'', Send2), (''ESOM'', Send2), (''ESAM'', Send2), (''EVFY'', Verify2), (''Z-IDENT'', DebugIdent),
      (''Z-DEBUG'', DebugMode), (''Z-REPORT'', Report), (''550'', Silent)]"

definition find_command :: "string \<Rightarrow> Command option" where
  "find_command buf =
     (let verb = takeWhile (\<lambda>c. \<not> blank c) buf
      in if length verb > 8 then None else map_option snd (find (\<lambda>(v, _). cistrcmp v verb = 0) command_list))"

definition refused :: "server \<Rightarrow> Command \<Rightarrow> bool" where
  "refused cfg cmd \<longleftrightarrow>
     \<not> lmtp_mode cfg \<and> cmd = HelloL \<or> lmtp_mode cfg \<and> (cmd = Hello \<or> cmd = Hello2) \<or>
     cmd = DebugMode \<and> \<not> debugcmdok cfg \<or> cmd = Expand \<and> \<not> expncmdok cfg \<or>
     (cmd = Verify \<or> cmd = Verify2) \<and> \<not> vrfycmdok cfg \<or> cmd = Hello2 \<and> \<not> ehlo_ok cfg \<or>
     cmd = Turnme \<and> \<not> etrn_ok cfg \<or> cmd = Auth \<and> \<not> auth_ok cfg \<or> cmd = BData \<and> \<not> chunkingok cfg"

text \<open>Without a configuration only continuation lines are sent, so there is no final reply.\<close>

definition turned_away :: "server \<Rightarrow> SmtpState \<Rightarrow> Command \<Rightarrow> event list option" where
  "turned_away cfg SS cmd =
     (if netconnected_flg cfg \<and> \<not> configuration_ok cfg then Some []
      else if policystatus cfg \<noteq> 0 \<and> cmd \<noteq> Quit \<and> cmd \<noteq> Help then Some [Type 400]
      else if reject_net cfg \<and> cmd \<noteq> Quit \<and> cmd \<noteq> Help then Some [Type 550]
      else if msa_mode cfg \<and> ss_authuser SS = None \<and> \<not> trusted cfg \<and> cmd \<notin> {Auth, Hello, Hello2, NoOp, Reset, Quit} then Some [Type 530]
      else None)"

definition smtp_rset :: "server \<Rightarrow> string \<Rightarrow> SmtpState \<Rightarrow> SmtpState \<times> event list" where
  "smtp_rset cfg cp SS0 =
     (case abort_if SS0 of
        (SS, evs) \<Rightarrow>
          (SS\<lparr>ss_state := (if ss_state SS = Hello then Hello else MailOrHello), ss_policyresult := 0\<rparr>,
           evs @ [Type (if cp \<noteq> [] \<and> strict_protocol cfg > 0 then 501 else 250)]))"

definition go_on :: "result \<Rightarrow> dresult" where
  "go_on r = (case r of Inl e \<Rightarrow> Inl e | Inr (SS, evs) \<Rightarrow> Inr (SS, evs, True))"

definition end_session :: "SmtpState \<Rightarrow> int \<Rightarrow> dresult" where
  "end_session SS0 code = (case abort_if SS0 of (SS, evs) \<Rightarrow> Inr (SS, evs @ [Type code], False))"

definition unknown_command :: "server \<Rightarrow> SmtpState \<Rightarrow> dresult" where
  "unknown_command cfg SS0 =
     (let SS = SS0\<lparr>ss_unknown_cmd_count := ss_unknown_cmd_count SS0 + 1\<rparr>
      in if ss_unknown_cmd_count SS \<ge> unknown_cmd_limit cfg then end_session SS 550 else Inr (SS, [Type 550], True))"

text \<open>The commands that only reply; HELP, VRFY, EXPN, ETRN and the reports answer with the code that is given.\<close>

definition plain_reply :: "server \<Rightarrow> answers \<Rightarrow> Command \<Rightarrow> string \<Rightarrow> SmtpState \<Rightarrow> int" where
  "plain_reply cfg an cmd cp SS =
     (if cmd = NoOp then (if cp \<noteq> [] \<and> STYLE cfg SS (CHR ''R'') then 501 else 250)
      else if cmd = Turn then 502
      else if cmd = Verbose then 250
      else if cmd = DebugIdent then 200
      else if cmd = Null then 550
      else an_other an)"

text \<open>
  One round of the loop on a command line.  AUTH may set the user; a report that is refused counts as an unknown command.
\<close>

definition smtp_switch :: "server \<Rightarrow> answers \<Rightarrow> Command \<Rightarrow> string \<Rightarrow> string \<Rightarrow> SmtpState \<Rightarrow> dresult" where
  "smtp_switch cfg an cmd buf cp SS =
     (if cmd \<in> {Hello, Hello2, HelloL} then go_on (smtp_helo cfg an cmd buf cp SS)
      else if cmd \<in> {Mail, Mail2, Send, Send2, SendOrMail, SendAndMail} then go_on (smtp_mail cfg an cp SS)
      else if cmd = Recipient then go_on (smtp_rcpt cfg an cp SS)
      else if cmd = Data then smtp_data cfg an cp SS
      else if cmd = BData then smtp_bdata cfg an cp SS
      else if cmd = Reset then go_on (Inr (smtp_rset cfg cp SS))
      else if cmd = Auth then
        Inr (SS\<lparr>ss_authuser := (if an_auth an = None then ss_authuser SS else an_auth an)\<rparr>, [Type (an_other an)], True)
      else if cmd = Tick then Inr (SS\<lparr>ss_with := ss_with SS OR WITH_BSMTP\<rparr>, [Type 250], True)
      else if cmd = Quit then end_session SS 221
      else if cmd = Silent then Inr (SS, [], True)
      else if cmd = Report \<and> an_other an < 0 then unknown_command cfg SS
      else Inr (SS, [Type (plain_reply cfg an cmd cp SS)], True))"

definition smtp_line :: "server \<Rightarrow> answers \<Rightarrow> string \<Rightarrow> SmtpState \<Rightarrow> dresult" where
  "smtp_line cfg an buf SS =
     (case find_command buf of
        None \<Rightarrow> unknown_command cfg SS
      | Some cmd \<Rightarrow>
          if refused cfg cmd then unknown_command cfg SS
          else
            (case turned_away cfg SS cmd of
               Some evs \<Rightarrow> Inr (SS, evs, True)
             | None \<Rightarrow> smtp_switch cfg an cmd buf (dropWhile (\<lambda>c. \<not> blank c) buf) SS))"

definition session_start :: "server \<Rightarrow> bool \<Rightarrow> SmtpState" where
  "session_start cfg trusted_peer =
     \<lparr>ss_state = (if strict_protocol cfg \<ge> 0 \<and> \<not> trusted_peer then Hello else MailOrHello), ss_mfp = None, ss_messagesize = 0,
      ss_sizeoptval = 0, ss_sizeoptsum = 0, ss_with = 0, ss_policyresult = 0, ss_rhostflags = 0, ss_smtpfrom = [],
      ss_deliverby_time = 0, ss_deliverby_flags = 0, ss_from_box = False, ss_rcpt_count = 0, ss_ok_rcpt_count = 0,
      ss_sender_ok = False, ss_bdata_blocknum = 0, ss_mvbstate = None, ss_authuser = None, ss_helobuf = [],
      ss_cfinfo = None, ss_availspace = 0, ss_unknown_cmd_count = 0\<rparr>"

end
