(* ===== verification/Sessioninv.thy ===== *)
theory Sessioninv
  imports Session
begin

text \<open>
  What holds of every SMTP session: an invariant on the state of the transaction and the message file, and when a message is
  committed to the queue.
\<close>

section \<open>Properties of results\<close>

definition holds :: "(SmtpState \<Rightarrow> event list \<Rightarrow> bool) \<Rightarrow> result \<Rightarrow> bool" where
  "holds P r \<longleftrightarrow> (case r of Inl e \<Rightarrow> True | Inr (SS, evs) \<Rightarrow> P SS evs)"

definition holdsd :: "(SmtpState \<Rightarrow> event list \<Rightarrow> bool) \<Rightarrow> dresult \<Rightarrow> bool" where
  "holdsd P r \<longleftrightarrow> (case r of Inl e \<Rightarrow> True | Inr (SS, evs, _) \<Rightarrow> P SS evs)"

lemma holds_simps [simp]:
  "holds P (done_with SS evs) = P SS evs" "holds P (Inl e)" "holds P (Inr (SS, evs)) = P SS evs"
  "holdsd P (Inl e')" "holdsd P (Inr (SS, evs, b)) = P SS evs"
  by (simp_all add: holds_def holdsd_def done_with_def)

lemma holds_Inr: "holds P (Inr r) = P (fst r) (snd r)"
  by (simp add: holds_def split: prod.split)

lemma holdsd_go_on [simp]: "holdsd P (go_on r) = holds P r"
  by (auto simp: go_on_def holds_def holdsd_def split: sum.splits prod.splits)

section \<open>The invariant\<close>

text \<open>
  A message file is open only inside a transaction; after an accepted recipient the count of accepted recipients is
  positive and at most that of the RCPT commands.
\<close>

definition session_ok :: "SmtpState \<Rightarrow> bool" where
  "session_ok SS \<longleftrightarrow>
     (ss_mfp SS \<noteq> None \<longrightarrow> ss_state SS \<in> {Recipient, RecipientOrData, BData}) \<and>
     (ss_state SS = RecipientOrData \<longrightarrow> 1 \<le> ss_ok_rcpt_count SS \<and> ss_ok_rcpt_count SS \<le> ss_rcpt_count SS) \<and>
     (ss_state SS = BData \<longrightarrow> 1 \<le> ss_ok_rcpt_count SS) \<and>
     (ss_state SS = Recipient \<longrightarrow> ss_ok_rcpt_count SS = 0) \<and>
     ss_state SS \<in> {Hello, Mail, MailOrHello, Recipient, RecipientOrData, BData}"

lemma abort_if_fields [simp]: "fst (abort_if SS) = SS\<lparr>ss_mfp := None\<rparr>"
  by (simp add: abort_if_def)

lemma smtp_helo_ok:
  "session_ok SS \<Longrightarrow> holds (\<lambda>SS' evs. session_ok SS') (smtp_helo cfg an cmd buf cp SS)"
  by (auto simp: smtp_helo_def Let_def abort_if_def session_ok_def helo_accept_def split: routed.splits option.splits)

lemma mail_store_ok:
  assumes "ss_state SS \<in> {Mail, MailOrHello}" "ss_ok_rcpt_count SS = 0"
  shows "session_ok (fst (mail_store cfg an SS f addr m routed))"
  using assms by (auto simp: mail_store_def Let_def session_ok_def split: option.splits)

lemma mail_accept_ok:
  assumes "session_ok SS" "ss_state SS \<in> {Mail, MailOrHello}" "ss_ok_rcpt_count SS = 0"
  shows "holds (\<lambda>SS' evs. session_ok SS') (mail_accept cfg an addr m SS)"
proof -
  define S1 where "S1 = SS\<lparr>ss_sizeoptval := m_size m, ss_deliverby_time := m_bytime m, ss_deliverby_flags := m_byflags m,
                   ss_policyresult := (if netconnected_flg cfg then an_policy an else 0)\<rparr>"
  have S1: "session_ok S1" "ss_state S1 \<in> {Mail, MailOrHello}" "ss_ok_rcpt_count S1 = 0" using assms by (auto simp: S1_def session_ok_def)
  have "session_ok SS'" if "mail_store cfg an S1 f addr m r = (SS', evs)" for f r SS' evs
    using mail_store_ok [OF S1(2,3), of cfg an f addr m r] that by simp
  then show ?thesis
    unfolding mail_accept_def S1_def [symmetric] Let_def using S1(1)
    by (auto simp: holds_def done_with_def split: sum.splits option.splits prod.splits)
qed

lemma mail_args_ok:
  assumes "session_ok SS" "ss_state SS \<in> {Mail, MailOrHello}" "ss_ok_rcpt_count SS = 0"
  shows "holds (\<lambda>SS' evs. session_ok SS') (mail_args cfg an strict sloppy cp SS)"
proof -
  have "session_ok (SS\<lparr>ss_sizeoptval := - 1, ss_sizeoptsum := - 1\<rparr>)" using assms(1) by (simp add: session_ok_def)
  then show ?thesis
    using assms mail_accept_ok [of "SS\<lparr>ss_sizeoptval := - 1, ss_sizeoptsum := - 1\<rparr>"]
    by (simp add: mail_args_def Let_def split: outcome.split prod.split)
qed

lemma smtp_mail_ok:
  assumes "session_ok SS"
  shows "holds (\<lambda>SS' evs. session_ok SS') (smtp_mail cfg an cp SS)"
proof -
  let ?S = "SS\<lparr>ss_sender_ok := False, ss_deliverby_time := 0, ss_deliverby_flags := 0\<rparr>"
  have "session_ok ?S" using assms by (simp add: session_ok_def)
  moreover have "session_ok (?S\<lparr>ss_rcpt_count := 0, ss_ok_rcpt_count := 0\<rparr>)" if "ss_state SS = Mail \<or> ss_state SS = MailOrHello"
    using assms that by (auto simp: session_ok_def)
  ultimately show ?thesis using mail_args_ok by (auto simp: smtp_mail_def Let_def)
qed

lemma rcpt_store_ok:
  assumes "session_ok SS" "ss_state SS \<in> {Recipient, RecipientOrData}" "ss_ok_rcpt_count SS < ss_rcpt_count SS"
  shows "session_ok (fst (rcpt_store cfg SS f addr q routed))"
  using assms by (auto simp: rcpt_store_def Let_def session_ok_def split: option.splits)

lemma rcpt_accept_ok:
  assumes "session_ok SS" "ss_state SS \<in> {Recipient, RecipientOrData}" "ss_ok_rcpt_count SS < ss_rcpt_count SS"
  shows "holds (\<lambda>SS' evs. session_ok SS') (rcpt_accept cfg an addr q SS)"
proof -
  define S1 where "S1 = SS\<lparr>ss_policyresult := rcpt_policy cfg an addr\<rparr>"
  have S1: "session_ok S1" "ss_state S1 \<in> {Recipient, RecipientOrData}" "ss_ok_rcpt_count S1 < ss_rcpt_count S1"
    using assms by (auto simp: S1_def session_ok_def)
  have "session_ok (S1\<lparr>ss_mfp := Some f\<rparr>)" for f using S1(1,2) by (auto simp: session_ok_def)
  moreover have "session_ok SS'" if "rcpt_store cfg S1 f addr q r = (SS', evs)" for f r SS' evs
    using rcpt_store_ok [OF S1, of cfg f addr q r] that by simp
  ultimately show ?thesis
    unfolding rcpt_accept_def S1_def [symmetric] Let_def using S1(1)
    by (auto simp: holds_def done_with_def split: sum.splits option.splits prod.splits)
qed

lemma smtp_rcpt_ok:
  assumes "session_ok SS"
  shows "holds (\<lambda>SS' evs. session_ok SS') (smtp_rcpt cfg an cp SS)"
proof -
  let ?S = "SS\<lparr>ss_rcpt_count := ss_rcpt_count SS + 1\<rparr>"
  have S: "session_ok ?S" using assms by (auto simp: session_ok_def)
  have "holds (\<lambda>SS' evs. session_ok SS') (rcpt_args cfg an strict sloppy cp ?S)" if "ss_state SS = Recipient \<or> ss_state SS = RecipientOrData" for strict sloppy
  proof -
    have "ss_ok_rcpt_count ?S < ss_rcpt_count ?S" using assms that by (auto simp: session_ok_def)
    then show ?thesis using S that rcpt_accept_ok [of ?S] by (simp add: rcpt_args_def split: outcome.split prod.split)
  qed
  then show ?thesis using S by (simp add: smtp_rcpt_def Let_def)
qed

lemma smtp_data_ok:
  assumes "session_ok SS"
  shows "holdsd (\<lambda>SS' evs. session_ok SS') (smtp_data cfg an cp SS)"
  using assms by (auto simp: smtp_data_def data_message_def Let_def abort_if_def session_ok_def split: option.splits)

lemma bdat_chunk_ok:
  assumes "session_ok SS" "ss_state SS = BData"
  shows "holdsd (\<lambda>SS' evs. session_ok SS') (Inr (bdat_chunk cfg an fin SS f eof))"
  using assms by (auto simp: bdat_chunk_def Let_def session_ok_def split: option.splits)

lemma mvbdata_file: "mvbdata n cs st mfp cnt = (cnt', st', mfp', rest) \<Longrightarrow> mfp' = None \<longleftrightarrow> mfp = None"
  by (induction n cs st mfp cnt rule: mvbdata.induct) auto

lemma bdat_read_fields [simp]:
  "ss_state (bdat_read cfg an chunk SS) = ss_state SS" "ss_ok_rcpt_count (bdat_read cfg an chunk SS) = ss_ok_rcpt_count SS"
  "ss_rcpt_count (bdat_read cfg an chunk SS) = ss_rcpt_count SS" "ss_sender_ok (bdat_read cfg an chunk SS) = ss_sender_ok SS"
  "ss_mfp (bdat_read cfg an chunk SS) = None \<longleftrightarrow> ss_mfp SS = None"
  "ss_bdata_blocknum (bdat_read cfg an chunk SS) = ss_bdata_blocknum SS" "ss_from_box (bdat_read cfg an chunk SS) = ss_from_box SS"
  by (auto simp: bdat_read_def Let_def split: prod.splits dest!: mvbdata_file)

lemma bdat_finish_ok:
  assumes "session_ok SS"
  shows "holdsd (\<lambda>SS' evs. session_ok SS') (bdat_finish cfg an fin eof SS)"
proof -
  have "session_ok (SS\<lparr>ss_mfp := None\<rparr>)" "session_ok (SS\<lparr>ss_mfp := None, ss_state := MailOrHello\<rparr>)" using assms by (auto simp: session_ok_def)
  moreover have "session_ok (SS\<lparr>ss_rcpt_count := 0, ss_sender_ok := False\<rparr>)" if "ss_state SS = BData" using assms that by (auto simp: session_ok_def)
  ultimately show ?thesis
    using assms bdat_chunk_ok by (auto simp: bdat_finish_def Let_def abort_if_def split: option.splits)
qed

lemma smtp_bdata_ok:
  assumes "session_ok SS"
  shows "holdsd (\<lambda>SS' evs. session_ok SS') (smtp_bdata cfg an cp SS)"
proof -
  have b: "session_ok (bdat_begin SS)" using assms by (auto simp: bdat_begin_def Let_def session_ok_def)
  then have "session_ok (bdat_read cfg an chunk (bdat_begin SS))" for chunk by (simp add: session_ok_def)
  then show ?thesis using b bdat_finish_ok by (auto simp: smtp_bdata_def Let_def split: option.splits)
qed

lemma smtp_line_ok:
  assumes "session_ok SS"
  shows "holdsd (\<lambda>SS' evs. session_ok SS') (smtp_line cfg an buf SS)"
proof -
  have u: "holdsd (\<lambda>SS' evs. session_ok SS') (unknown_command cfg SS)" "holdsd (\<lambda>SS' evs. session_ok SS') (end_session SS n)"
    "session_ok (fst (smtp_rset cfg cp SS))" for cp n
    using assms by (auto simp: unknown_command_def end_session_def abort_if_def session_ok_def smtp_rset_def Let_def)
  have a: "session_ok (SS\<lparr>ss_authuser := x\<rparr>)" "session_ok (SS\<lparr>ss_with := w\<rparr>)" for x w using assms by (simp_all add: session_ok_def)
  have "holdsd (\<lambda>SS' evs. session_ok SS') (smtp_switch cfg an cmd buf cp SS)" for cmd cp
    unfolding smtp_switch_def using u a assms smtp_helo_ok smtp_mail_ok smtp_rcpt_ok smtp_data_ok smtp_bdata_ok
    by (simp add: holds_Inr)
  then show ?thesis using u assms by (auto simp: smtp_line_def split: option.splits)
qed

section \<open>Sessions\<close>

text \<open>The states a session reaches with the events so far.\<close>

inductive session :: "server \<Rightarrow> SmtpState \<Rightarrow> event list \<Rightarrow> bool" for cfg where
  start: "session cfg (session_start cfg trusted_peer) []"
| line: "session cfg SS evs \<Longrightarrow> smtp_line cfg an buf SS = Inr (SS', evs', True) \<Longrightarrow> session cfg SS' (evs @ evs')"

section \<open>The message file\<close>

lemma fputc_complete: "\<not> os_err (fputc c f) \<Longrightarrow> \<not> os_err f \<and> os_out (fputc c f) = os_out f @ [c]"
  by (auto simp: fputc_def split: option.splits nat.splits)

lemma fwrite_complete: "\<not> os_err (fwrite s f) \<Longrightarrow> \<not> os_err f \<and> os_out (fwrite s f) = os_out f @ s"
  unfolding fwrite_def by (induction s arbitrary: f) (auto dest!: fputc_complete)

text \<open>
  The parts of the file behind the envelope of MAIL: what an RCPT command with an acceptable address writes (marked), and
  the comments on recipients that the policy has rejected.
\<close>

definition rcpt_item :: "server \<Rightarrow> string \<Rightarrow> bool \<times> string \<Rightarrow> bool" where
  "rcpt_item cfg from it \<longleftrightarrow>
     (if fst it then \<exists>S addr q. snd it = rcpt_envelope cfg S addr q \<and> ss_smtpfrom S = from
      else \<exists>addr. snd it = ''comment policytest() rejected rcptaddr: <'' @ addr @ ''>'' @ [LF])"

definition envelope :: "server \<Rightarrow> string \<Rightarrow> string \<Rightarrow> nat \<Rightarrow> bool" where
  "envelope cfg from text n \<longleftrightarrow>
     (\<exists>S m items. text = mail_envelope cfg S from m @ concat (map snd items) \<and> (\<forall>it\<in>set items. rcpt_item cfg from it)
        \<and> n \<le> length (filter fst items))"

lemma envelope_add:
  assumes "envelope cfg from text n" "rcpt_item cfg from (b, s)"
  shows "envelope cfg from (text @ s) (if b then n + 1 else n)"
proof -
  obtain S m items where e: "text = mail_envelope cfg S from m @ concat (map snd items)" "\<forall>it\<in>set items. rcpt_item cfg from it"
    "n \<le> length (filter fst items)" using assms(1) unfolding envelope_def by blast
  have "text @ s = mail_envelope cfg S from m @ concat (map snd (items @ [(b, s)]))" "\<forall>it\<in>set (items @ [(b, s)]). rcpt_item cfg from it"
    "(if b then n + 1 else n) \<le> length (filter fst (items @ [(b, s)]))" using e assms(2) by auto
  then show ?thesis unfolding envelope_def by blast
qed

lemma envelope_mono: "envelope cfg from text n \<Longrightarrow> m \<le> n \<Longrightarrow> envelope cfg from text m"
  unfolding envelope_def using order_trans by blast

definition file_ok :: "server \<Rightarrow> SmtpState \<Rightarrow> bool" where
  "file_ok cfg SS \<longleftrightarrow>
     (case ss_mfp SS of
        None \<Rightarrow> True
      | Some f \<Rightarrow> ss_state SS \<noteq> BData \<and> \<not> os_err f \<longrightarrow> envelope cfg (ss_smtpfrom SS) (os_out f) (ss_ok_rcpt_count SS))"

definition keeps :: "server \<Rightarrow> SmtpState \<Rightarrow> bool" where
  "keeps cfg SS \<longleftrightarrow> session_ok SS \<and> file_ok cfg SS"

lemma mail_store_file:
  assumes "ss_ok_rcpt_count SS = 0"
  shows "file_ok cfg (fst (mail_store cfg an SS f addr m routed))"
proof -
  define g where "g = fwrite (mail_envelope cfg SS addr m) (truncated f)"
  have "envelope cfg addr (os_out g) 0" if "\<not> os_err g"
    using fwrite_complete [OF that [unfolded g_def]] unfolding g_def envelope_def
    by (intro exI [of _ SS] exI [of _ m] exI [of _ "[]"]) (simp add: truncated_def)
  then show ?thesis using assms by (auto simp: mail_store_def Let_def g_def [symmetric] file_ok_def split: option.splits)
qed

lemma rcpt_store_file:
  assumes "file_ok cfg SS" "ss_mfp SS = Some f" "ss_state SS \<noteq> BData"
  shows "file_ok cfg (fst (rcpt_store cfg SS f addr q routed))"
proof -
  define g where "g = fwrite (rcpt_envelope cfg SS addr q) f"
  have i: "rcpt_item cfg (ss_smtpfrom SS) (True, rcpt_envelope cfg SS addr q)" by (auto simp: rcpt_item_def)
  have "envelope cfg (ss_smtpfrom SS) (os_out g) (Suc (ss_ok_rcpt_count SS))" if "\<not> os_err g"
    using fwrite_complete [OF that [unfolded g_def]] assms envelope_add [OF _ i] unfolding g_def by (auto simp: file_ok_def)
  moreover from this have "envelope cfg (ss_smtpfrom SS) (os_out g) (ss_ok_rcpt_count SS)" if "\<not> os_err g"
    using that envelope_mono le_SucI by blast
  ultimately show ?thesis using assms by (auto simp: rcpt_store_def Let_def g_def [symmetric] file_ok_def split: option.splits)
qed

lemma file_ok_None [simp]: "ss_mfp SS = None \<Longrightarrow> file_ok cfg SS"
  by (simp add: file_ok_def)

lemma file_ok_BData [simp]: "ss_state SS = BData \<Longrightarrow> file_ok cfg SS"
  by (simp add: file_ok_def split: option.split)

lemma file_ok_cong:
  "file_ok cfg SS \<Longrightarrow> ss_mfp SS' = ss_mfp SS \<Longrightarrow> ss_state SS' = ss_state SS \<Longrightarrow> ss_smtpfrom SS' = ss_smtpfrom SS \<Longrightarrow>
   ss_ok_rcpt_count SS' = ss_ok_rcpt_count SS \<Longrightarrow> file_ok cfg SS'"
  by (simp add: file_ok_def split: option.splits)

lemma smtp_helo_file: "holds (\<lambda>SS' evs. file_ok cfg SS') (smtp_helo cfg an cmd buf cp SS)"
  by (auto simp: smtp_helo_def Let_def abort_if_def helo_accept_def split: routed.splits option.splits)

text \<open>MAIL is refused in every state in which the file is open.\<close>

lemma smtp_mail_file:
  assumes "session_ok SS" "file_ok cfg SS"
  shows "holds (\<lambda>SS' evs. file_ok cfg SS') (smtp_mail cfg an cp SS)"
proof (cases "ss_state SS = Mail \<or> ss_state SS = MailOrHello")
  case False
  then show ?thesis using file_ok_cong [OF assms(2)] by (simp add: smtp_mail_def Let_def)
next
  case True
  then have n: "ss_mfp SS = None" using assms(1) by (auto simp: session_ok_def)
  have a: "holds (\<lambda>SS' evs. file_ok cfg SS') (mail_accept cfg an addr m S)" if "ss_mfp S = None" "ss_ok_rcpt_count S = 0" for addr m S
  proof -
    define S1 where "S1 = S\<lparr>ss_sizeoptval := m_size m, ss_deliverby_time := m_bytime m, ss_deliverby_flags := m_byflags m,
                   ss_policyresult := (if netconnected_flg cfg then an_policy an else 0)\<rparr>"
    have S1: "ss_mfp S1 = None" "ss_ok_rcpt_count S1 = 0" using that by (simp_all add: S1_def)
    show ?thesis unfolding mail_accept_def S1_def [symmetric] Let_def
      using S1 mail_store_file [of S1 cfg an _ addr m] by (simp add: holds_Inr split: sum.split option.split)
  qed
  have "holds (\<lambda>SS' evs. file_ok cfg SS') (mail_args cfg an strict sloppy cp S)" if "ss_mfp S = None" "ss_ok_rcpt_count S = 0" for strict sloppy S
    using that a by (simp add: mail_args_def Let_def split: outcome.split prod.split)
  then show ?thesis using n by (simp add: smtp_mail_def Let_def)
qed

lemma rcpt_accept_file:
  assumes "file_ok cfg SS" "ss_state SS \<in> {Recipient, RecipientOrData}"
  shows "holds (\<lambda>SS' evs. file_ok cfg SS') (rcpt_accept cfg an addr q SS)"
proof -
  define S1 where "S1 = SS\<lparr>ss_policyresult := rcpt_policy cfg an addr\<rparr>"
  have S1: "file_ok cfg S1" "ss_state S1 \<noteq> BData" using assms file_ok_cong [OF assms(1)] by (auto simp: S1_def)
  define note_text where "note_text = ''comment policytest() rejected rcptaddr: <'' @ addr @ ''>'' @ [LF]"
  have i: "rcpt_item cfg from (False, note_text)" for "from" by (auto simp: rcpt_item_def note_text_def)
  have "file_ok cfg (S1\<lparr>ss_mfp := Some (fwrite note_text f)\<rparr>)" if "ss_mfp S1 = Some f" for f
    using S1 that fwrite_complete [of note_text f] envelope_add [OF _ i] by (auto simp: file_ok_def)
  then show ?thesis
    unfolding rcpt_accept_def S1_def [symmetric] Let_def note_text_def [symmetric] using S1 rcpt_store_file [OF S1(1) _ S1(2)]
    by (simp add: holds_Inr split: sum.split option.split)
qed

lemma smtp_rcpt_file:
  assumes "file_ok cfg SS"
  shows "holds (\<lambda>SS' evs. file_ok cfg SS') (smtp_rcpt cfg an cp SS)"
proof -
  let ?S = "SS\<lparr>ss_rcpt_count := ss_rcpt_count SS + 1\<rparr>"
  have S: "file_ok cfg ?S" using file_ok_cong [OF assms] by simp
  have "holds (\<lambda>SS' evs. file_ok cfg SS') (rcpt_args cfg an strict sloppy cp ?S)" if "ss_state SS = Recipient \<or> ss_state SS = RecipientOrData" for strict sloppy
    using S that rcpt_accept_file [of cfg ?S] by (simp add: rcpt_args_def split: outcome.split prod.split)
  then show ?thesis using S by (simp add: smtp_rcpt_def Let_def)
qed

lemma smtp_data_file:
  assumes "file_ok cfg SS"
  shows "holdsd (\<lambda>SS' evs. file_ok cfg SS') (smtp_data cfg an cp SS)"
  using assms by (auto simp: smtp_data_def data_message_def Let_def abort_if_def split: option.splits)

lemma smtp_bdata_file:
  assumes "file_ok cfg SS"
  shows "holdsd (\<lambda>SS' evs. file_ok cfg SS') (smtp_bdata cfg an cp SS)"
proof -
  have b: "file_ok cfg (bdat_begin SS)" using file_ok_cong [OF assms] by (cases "ss_state SS = RecipientOrData") (simp_all add: bdat_begin_def Let_def)
  have "holdsd (\<lambda>SS' evs. file_ok cfg SS') (bdat_finish cfg an fin eof S)" for fin eof S
    by (auto simp: bdat_finish_def bdat_chunk_def Let_def abort_if_def split: option.splits)
  then show ?thesis using b by (auto simp: smtp_bdata_def Let_def split: option.splits)
qed

lemma smtp_line_file:
  assumes "session_ok SS" "file_ok cfg SS"
  shows "holdsd (\<lambda>SS' evs. file_ok cfg SS') (smtp_line cfg an buf SS)"
proof -
  have u: "holdsd (\<lambda>SS' evs. file_ok cfg SS') (unknown_command cfg SS)" "holdsd (\<lambda>SS' evs. file_ok cfg SS') (end_session SS n)"
    "file_ok cfg (fst (smtp_rset cfg cp SS))" for cp n
    using file_ok_cong [OF assms(2)] by (auto simp: unknown_command_def end_session_def abort_if_def smtp_rset_def Let_def)
  have a: "file_ok cfg (SS\<lparr>ss_authuser := x\<rparr>)" "file_ok cfg (SS\<lparr>ss_with := w\<rparr>)" for x w using file_ok_cong [OF assms(2)] by simp_all
  have "holdsd (\<lambda>SS' evs. file_ok cfg SS') (smtp_switch cfg an cmd buf cp SS)" for cmd cp
    unfolding smtp_switch_def using u a assms smtp_helo_file smtp_mail_file smtp_rcpt_file smtp_data_file smtp_bdata_file
    by (simp add: holds_Inr)
  then show ?thesis using u assms by (auto simp: smtp_line_def split: option.splits)
qed

lemma session_reachable: "session cfg SS evs \<Longrightarrow> session_ok SS \<and> file_ok cfg SS"
proof (induction rule: session.induct)
  case (start trusted_peer)
  then show ?case by (simp add: session_ok_def session_start_def)
next
  case (line SS evs an buf SS' evs')
  then show ?case using smtp_line_ok [of SS cfg an buf] smtp_line_file [of SS cfg an buf] by simp
qed

section \<open>What is committed\<close>

definition grows :: "ostream \<Rightarrow> ostream \<Rightarrow> bool" where
  "grows f g \<longleftrightarrow> prefix (os_out f) (os_out g) \<and> (os_err f \<longrightarrow> os_err g)"

lemma grows_refl [simp]: "grows f f"
  by (simp add: grows_def)

lemma grows_trans: "grows f g \<Longrightarrow> grows g h \<Longrightarrow> grows f h"
  by (auto simp: grows_def intro: prefix_order.trans)

lemma grows_fputc: "grows f (fputc c f)"
  by (auto simp: grows_def fputc_def split: option.splits nat.splits)

lemma grows_fwrite [simp]: "grows f (fwrite s f)"
  unfolding fwrite_def by (induction s arbitrary: f) (auto intro: grows_trans [OF grows_fputc])

lemma grows_fputc_ok: "grows f (fold fputc_ok s f)"
  by (induction s arbitrary: f) (auto simp: fputc_ok_def intro: grows_trans [OF grows_fputc])

lemma grows_mvbdata: "mvbdata n cs st (Some f) cnt = (cnt', st', Some g, rest) \<Longrightarrow> grows f g"
proof (induction n cs st "Some f" cnt arbitrary: f rule: mvbdata.induct)
  case (3 n c cs st cnt)
  then have "grows (fold fputc_ok (mvb_step st c) f) g" by simp
  then show ?case by (rule grows_trans [OF grows_fputc_ok])
qed auto

lemma grows_mvdata_body: "grows f (fst (snd (mvdata_body state cs cnt f)))"
proof (induction state cs cnt f rule: mvdata_body.induct)
  case (2 state c cs cnt f)
  show ?case
  proof (cases "mv_step state (Some c)")
    case (Go out st)
    then show ?thesis using grows_trans [OF grows_fputc_ok [of f out] 2 [OF Go]] by simp
  qed simp
qed simp

definition hdr_file :: "hdrresult \<Rightarrow> ostream" where
  "hdr_file r = (case r of HEof h \<Rightarrow> h_mfp h | HEnd h _ \<Rightarrow> h_mfp h | HBody h _ \<Rightarrow> h_mfp h)"

lemma hdr_note_mfp [simp]: "h_mfp (hdr_note h) = h_mfp h"
  by (simp add: hdr_note_def Let_def)

lemma grows_hdr_tail: "grows (h_mfp h) (h_mfp (hdr_tail h))"
  by (auto simp: hdr_tail_def write_line_def Let_def)

lemma grows_hdr_line: "grows (h_mfp h) (h_mfp (fst (hdr_line h)))"
  using grows_hdr_tail [of "hdr_note (h\<lparr>linecnt := linecnt h + 1\<rparr>)"] by (auto simp: hdr_line_def write_line_def Let_def)

lemma grows_mvdata_headers: "grows (h_mfp h) (hdr_file (mvdata_headers cs h))"
proof (induction cs arbitrary: h)
  case Nil
  then show ?case by (simp add: hdr_file_def)
next
  case (Cons c cs)
  show ?case
  proof (cases "mv_step (h_state h) (Some c)")
    case Exit
    then show ?thesis by (simp add: hdr_file_def Let_def)
  next
    case (Go out st)
    define k where "k = h\<lparr>h_cnt := h_cnt h + 1, h_state := st, linebuf := fold linebuf_put out (linebuf h), has8bit := has8bit h \<or> ord c \<ge> 128\<rparr>"
    have m: "h_mfp k = h_mfp h" by (simp add: k_def)
    have "grows (h_mfp h) (hdr_file (HBody (fst (hdr_line k)) cs))" "grows (h_mfp h) (hdr_file (mvdata_headers cs (fst (hdr_line k))))"
      "grows (h_mfp h) (hdr_file (mvdata_headers cs k))"
      using grows_hdr_line [of k] grows_trans [OF grows_hdr_line [of k] Cons [of "fst (hdr_line k)"]] Cons [of k] m by (simp_all add: hdr_file_def)
    then show ?thesis using Cons [of "h\<lparr>h_cnt := h_cnt h + 1, h_state := st\<rparr>"]
      unfolding mvdata_headers_Go [OF Go] Let_def k_def [symmetric] by simp
  qed
qed

lemma grows_mvdata: "grows f (mv_mfp (mvdata cs policy f))"
proof -
  have h: "grows f (hdr_file (mvdata_headers cs (hdr_init policy f)))"
    using grows_mvdata_headers [of "hdr_init policy f" cs] by (simp add: hdr_init_def)
  show ?thesis
  proof (cases "mvdata_headers cs (hdr_init policy f)")
    case (HBody k rest)
    then show ?thesis using h grows_trans [OF _ grows_mvdata_body [of "h_mfp k" "h_state k" rest "h_cnt k"]]
      by (simp add: mvdata_def hdr_file_def case_prod_beta)
  qed (use h in \<open>simp_all add: mvdata_def hdr_file_def\<close>)
qed

text \<open>Only the end of DATA and BDAT commits.\<close>

lemma no_commit_replies [simp]: "Commit t \<notin> set (replies cfg SS n)" "Commit t \<notin> set (bdat_replies cfg SS fin n)"
  by (auto simp: replies_def bdat_replies_def)

lemma dispose_commit: "Commit t \<in> set (dispose cfg an SS f b n) \<Longrightarrow> t = os_out f"
  by (auto simp: dispose_def Let_def split: if_splits)

lemma no_commit_abort_if [simp]: "Commit t \<notin> set (snd (abort_if SS))"
  by (simp add: abort_if_def)

lemma no_commit_store [simp]:
  "Commit t \<notin> set (snd (mail_store cfg an SS f addr m r))" "Commit t \<notin> set (snd (rcpt_store cfg SS f addr q r))"
  by (auto simp: mail_store_def rcpt_store_def Let_def split: option.splits)

lemma no_commit_handlers:
  "holds (\<lambda>SS' evs. Commit t \<notin> set evs) (smtp_helo cfg an cmd buf cp SS)"
  "holds (\<lambda>SS' evs. Commit t \<notin> set evs) (mail_accept cfg an addr m SS)"
  "holds (\<lambda>SS' evs. Commit t \<notin> set evs) (rcpt_accept cfg an addr q SS)"
  subgoal by (auto simp: smtp_helo_def Let_def abort_if_def split: routed.splits option.splits)
  subgoal by (simp add: mail_accept_def Let_def holds_Inr split: sum.split option.split)
  subgoal by (simp add: rcpt_accept_def Let_def holds_Inr split: sum.split option.split)
  done

lemma no_commit_mail: "holds (\<lambda>SS' evs. Commit t \<notin> set evs) (smtp_mail cfg an cp SS)"
  using no_commit_handlers(2) by (simp add: smtp_mail_def mail_args_def Let_def split: outcome.split prod.split)

lemma no_commit_rcpt: "holds (\<lambda>SS' evs. Commit t \<notin> set evs) (smtp_rcpt cfg an cp SS)"
  using no_commit_handlers(3) by (simp add: smtp_rcpt_def rcpt_args_def Let_def split: outcome.split prod.split)

text \<open>What a committed text is: the open file, the mark of the end of the envelope unless it is there already, and the text.\<close>

definition commits :: "server \<Rightarrow> SmtpState \<Rightarrow> string \<Rightarrow> bool" where
  "commits cfg SS t \<longleftrightarrow>
     (\<exists>f. ss_mfp SS = Some f \<and>
       (ss_state SS = RecipientOrData \<and> \<not> os_err f \<and> ss_sender_ok SS \<and> prefix (os_out f @ ''env-end'' @ [LF] @ msa_comment cfg SS) t \<or>
        ss_state SS = BData \<and> prefix (os_out f) t))"

lemma commits_data:
  assumes "ss_state SS = RecipientOrData" "ss_mfp SS = Some f" "ss_sender_ok SS" "grows (fwrite (''env-end'' @ [LF] @ msa_comment cfg SS) f) g" "\<not> os_err g"
  shows "commits cfg SS (os_out g)"
proof -
  define mark where "mark = ''env-end'' @ [LF] @ msa_comment cfg SS"
  have g: "prefix (os_out (fwrite mark f)) (os_out g)" "\<not> os_err (fwrite mark f)" using assms(4,5) unfolding mark_def grows_def by blast+
  then have "\<not> os_err f" "prefix (os_out f @ mark) (os_out g)" using fwrite_complete [OF g(2)] by simp_all
  then show ?thesis unfolding commits_def mark_def using assms(1,2,3) by blast
qed

lemma smtp_data_commits: "holdsd (\<lambda>SS' evs. Commit t \<in> set evs \<longrightarrow> commits cfg SS t) (smtp_data cfg an cp SS)"
proof -
  have "Commit t \<in> set (fst (snd (data_message cfg an SS f))) \<longrightarrow> commits cfg SS t"
    if "ss_state SS = RecipientOrData" "ss_mfp SS = Some f" "ss_sender_ok SS" for f
    using commits_data [OF that, of cfg "mv_mfp (mvdata (an_input an) (ss_policyresult SS) (fwrite (''env-end'' @ [LF] @ msa_comment cfg SS) f))"] grows_mvdata
    by (auto simp: data_message_def Let_def dest!: dispose_commit)
  then show ?thesis
    by (auto simp: smtp_data_def Let_def abort_if_def holdsd_def case_prod_beta split: option.splits)
qed

lemma bdat_chunk_commit: "Commit t \<in> set (fst (snd (bdat_chunk cfg an fin SS f eof))) \<Longrightarrow> t = os_out f \<and> \<not> os_err f \<and> fin"
  by (auto simp: bdat_chunk_def Let_def dest: dispose_commit split: if_splits)

lemma bdat_finish_commit:
  "holdsd (\<lambda>SS' evs. Commit t \<in> set evs \<longrightarrow> ss_state SS = BData \<and> \<not> bdat_first cfg SS \<and> (\<exists>g. ss_mfp SS = Some g \<and> \<not> os_err g \<and> t = os_out g))
     (bdat_finish cfg an fin eof SS)"
  using bdat_chunk_commit [of t cfg an fin _ _ eof]
  by (auto simp: bdat_finish_def Let_def abort_if_def holdsd_def case_prod_beta split: option.splits)

lemma bdat_read_file:
  assumes "ss_mfp (bdat_read cfg an chunk SS) = Some g"
  shows "\<exists>f. ss_mfp SS = Some f \<and> grows f g \<and> (ss_bdata_blocknum SS = 1 \<longrightarrow> grows (fwrite (''env-end'' @ [LF] @ msa_comment cfg SS) f) g)"
proof -
  define mark where "mark = ''env-end'' @ [LF] @ msa_comment cfg SS"
  define mfp where "mfp = (if ss_bdata_blocknum SS = 1 then map_option (fwrite mark) (ss_mfp SS) else ss_mfp SS)"
  obtain cnt mvb mfp' rest where m: "mvbdata chunk (an_input an) (ss_mvbstate SS) mfp 0 = (cnt, mvb, mfp', rest)" by (meson prod_cases4)
  have "mfp' = Some g" using assms unfolding bdat_read_def mark_def [symmetric] mfp_def [symmetric] Let_def by (simp add: m)
  then obtain h where h: "mfp = Some h" using mvbdata_file [OF m] by (cases mfp) auto
  have hg: "grows h g" using m h \<open>mfp' = Some g\<close> grows_mvbdata by blast
  show ?thesis
  proof (cases "ss_bdata_blocknum SS = 1")
    case True
    then obtain f where "ss_mfp SS = Some f" "h = fwrite mark f" using h by (auto simp: mfp_def)
    then show ?thesis using hg grows_trans [OF grows_fwrite hg [unfolded \<open>h = fwrite mark f\<close>]] unfolding mark_def by auto
  next
    case False
    then show ?thesis using h hg by (auto simp: mfp_def)
  qed
qed

lemma smtp_bdata_commits: "holdsd (\<lambda>SS' evs. Commit t \<in> set evs \<longrightarrow> commits cfg SS t) (smtp_bdata cfg an cp SS)"
proof -
  have m: "msa_comment cfg (bdat_begin SS) = msa_comment cfg SS" "ss_mfp (bdat_begin SS) = ss_mfp SS" "ss_sender_ok (bdat_begin SS) = ss_sender_ok SS"
    by (simp_all add: msa_comment_def bdat_begin_def Let_def)
  have c: "commits cfg SS t" if a: "ss_state (bdat_begin SS) = BData" "\<not> bdat_first cfg (bdat_read cfg an chunk (bdat_begin SS))"
    "ss_mfp (bdat_read cfg an chunk (bdat_begin SS)) = Some g" "\<not> os_err g" "t = os_out g" for chunk g
  proof -
    obtain f where f: "ss_mfp SS = Some f" "grows f g"
      "ss_bdata_blocknum (bdat_begin SS) = 1 \<longrightarrow> grows (fwrite (''env-end'' @ [LF] @ msa_comment cfg SS) f) g"
      using bdat_read_file [OF a(3)] m by auto
    show ?thesis
    proof (cases "ss_state SS = RecipientOrData")
      case True
      then have "ss_bdata_blocknum (bdat_begin SS) = 1" by (simp add: bdat_begin_def)
      then have "ss_sender_ok SS" using a(2) m(3) by (simp add: bdat_first_def)
      then show ?thesis using commits_data [OF True f(1)] f(3) a(4,5) \<open>ss_bdata_blocknum (bdat_begin SS) = 1\<close> by blast
    next
      case False
      then have "ss_state SS = BData" using a(1) by (simp add: bdat_begin_def)
      then show ?thesis using f(1,2) a(5) by (auto simp: commits_def grows_def)
    qed
  qed
  have "holdsd (\<lambda>SS' evs. Commit t \<in> set evs \<longrightarrow> commits cfg SS t) (bdat_finish cfg an fin eof (bdat_read cfg an chunk (bdat_begin SS)))" for fin eof chunk
    using bdat_finish_commit [of t "bdat_read cfg an chunk (bdat_begin SS)" cfg an fin eof] c [of chunk]
    by (cases "bdat_finish cfg an fin eof (bdat_read cfg an chunk (bdat_begin SS))") (auto simp: holdsd_def)
  then show ?thesis by (simp add: smtp_bdata_def Let_def split: option.split prod.split)
qed

lemma smtp_line_commits: "holdsd (\<lambda>SS' evs. Commit t \<in> set evs \<longrightarrow> commits cfg SS t) (smtp_line cfg an buf SS)"
proof -
  have w: "holds (\<lambda>SS' evs. Commit t \<in> set evs \<longrightarrow> Q) r" if "holds (\<lambda>SS' evs. Commit t \<notin> set evs) r" for r Q
    using that by (auto simp: holds_def split: sum.splits)
  have u: "holdsd (\<lambda>SS' evs. Commit t \<in> set evs \<longrightarrow> commits cfg SS t) (unknown_command cfg SS)"
    "holdsd (\<lambda>SS' evs. Commit t \<in> set evs \<longrightarrow> commits cfg SS t) (end_session SS n)" "Commit t \<notin> set (snd (smtp_rset cfg cp SS))"
    "turned_away cfg SS cmd = Some evs \<Longrightarrow> Commit t \<notin> set evs" for cp n cmd evs
    by (auto simp: unknown_command_def end_session_def abort_if_def smtp_rset_def turned_away_def Let_def split: if_splits)
  have "holdsd (\<lambda>SS' evs. Commit t \<in> set evs \<longrightarrow> commits cfg SS t) (smtp_switch cfg an cmd buf cp SS)" for cmd cp
    unfolding smtp_switch_def
    using u w [OF no_commit_handlers(1)] w [OF no_commit_mail] w [OF no_commit_rcpt] smtp_data_commits smtp_bdata_commits
    by (simp add: holds_Inr)
  then show ?thesis using u by (simp add: smtp_line_def split: option.split)
qed

end
