(* ===== verification/Transaction.thy ===== *)
theory Transaction
  imports Sessioninv
begin

text \<open>
  The transactions of the SMTP server: what a session that starts at the greeting can reach, what it can put into the
  queue, and when a handler uses the message file although there is none.  The examples run whole sessions of the
  model, command line by command line.
\<close>

section \<open>Sessions that run\<close>

text \<open>A session as a list of command lines with the answers of the rest of the system; None when it ends or faults.\<close>

fun run_lines :: "server \<Rightarrow> (answers \<times> string) list \<Rightarrow> SmtpState \<times> event list \<Rightarrow> (SmtpState \<times> event list) option" where
  "run_lines cfg [] s = Some s"
| "run_lines cfg ((an, buf) # ls) (SS, evs) =
     (case smtp_line cfg an buf SS of
        Inl _ \<Rightarrow> None
      | Inr (SS', evs', b) \<Rightarrow> if b then run_lines cfg ls (SS', evs @ evs') else None)"

lemma run_lines_session:
  "run_lines cfg ls (SS, evs) = Some (SS', evs') \<Longrightarrow> session cfg SS evs \<Longrightarrow> session cfg SS' evs'"
proof (induction ls arbitrary: SS evs)
  case (Cons l ls)
  obtain an buf where l: "l = (an, buf)" by fastforce
  with Cons.prems(1) obtain SS1 evs1 where s: "smtp_line cfg an buf SS = Inr (SS1, evs1, True)"
      "run_lines cfg ls (SS1, evs @ evs1) = Some (SS', evs')"
    by (auto split: sum.splits prod.splits if_splits)
  show ?case using Cons.IH [OF s(2) session.line [OF Cons.prems(2) s(1)]] .
qed simp

lemma run_lines_start:
  "run_lines cfg ls (session_start cfg b, []) = Some (SS', evs') \<Longrightarrow> session cfg SS' evs'"
  by (erule run_lines_session) (rule session.start)

text \<open>A server and answers for the examples.\<close>

definition cfg0 :: server where
  "cfg0 = \<lparr>strict_protocol = 0, allow_source_route = False, dsn_ok = True, mime8bitok = True, auth_ok = True, deliverby_ok = 0,
     findcf = (\<lambda>_. None), style = [], msa_mode = False, lmtp_mode = False, checkhelo = False, skeptical = False,
     enable_router = False, maxsize = 0, sum_sizeoption_value = False, rcptlimitcnt = 100, MaxErrorRecipients = 3, policydb = False,
     force_rcpt_notify_never = False, netconnected_flg = False, postmasteronly = False, insecure = False, ident_flag = False,
     ident_username = [], log_rcvd_ident = False, log_rcvd_authuser = False, myhostname = ''h'', rhostname = ''r'', rhostaddr = [],
     rport = [], debugcmdok = False, expncmdok = False, vrfycmdok = False, ehlo_ok = True, etrn_ok = False, chunkingok = True,
     trusted = False, configuration_ok = True, policystatus = 0, reject_net = False, unknown_cmd_limit = 10\<rparr>"

definition an0 :: answers where
  "an0 = \<lparr>an_policy = 0, an_postmaster = 0, an_router = Routed 250, an_verify = True, an_stream = Some os_new, an_space = Some 1000,
     an_now = 0, an_content = (0, None), an_close = True, an_input = ''x'' @ [CR, LF, CHR ''.'', CR, LF], an_auth = None, an_other = 250\<rparr>"

section \<open>When the file is missing\<close>

text \<open>Inside a transaction the file is open.\<close>

definition mfp_open :: "SmtpState \<Rightarrow> bool" where
  "mfp_open SS \<longleftrightarrow> (ss_state SS \<in> {Recipient, RecipientOrData, BData} \<longrightarrow> ss_mfp SS \<noteq> None)"

definition safe :: "result \<Rightarrow> bool" where
  "safe r \<longleftrightarrow> r \<noteq> Inl NullFile \<and> holds (\<lambda>SS' evs. Abort \<notin> set evs \<longrightarrow> mfp_open SS') r"

definition safed :: "dresult \<Rightarrow> bool" where
  "safed r \<longleftrightarrow> r \<noteq> Inl NullFile \<and> (case r of Inl _ \<Rightarrow> True | Inr (SS', evs, b) \<Rightarrow> Abort \<notin> set evs \<longrightarrow> b \<longrightarrow> mfp_open SS')"

lemma safe_simps [simp]:
  "safe (done_with SS evs) \<longleftrightarrow> (Abort \<notin> set evs \<longrightarrow> mfp_open SS)" "safe (Inl LineOverrun)" "\<not> safe (Inl NullFile)"
  "safe (Inr (SS, evs)) \<longleftrightarrow> (Abort \<notin> set evs \<longrightarrow> mfp_open SS)"
  "safed (Inr (SS, evs, b)) \<longleftrightarrow> (Abort \<notin> set evs \<longrightarrow> b \<longrightarrow> mfp_open SS)" "\<not> safed (Inl NullFile)"
  by (simp_all add: safe_def safed_def done_with_def)

lemma safe_Inr: "safe (Inr r) \<longleftrightarrow> (Abort \<notin> set (snd r) \<longrightarrow> mfp_open (fst r))"
  by (simp add: safe_def holds_Inr)

lemma safed_Inr: "safed (Inr r) \<longleftrightarrow> (Abort \<notin> set (fst (snd r)) \<longrightarrow> snd (snd r) \<longrightarrow> mfp_open (fst r))"
  by (cases r) simp

lemma safed_go_on [simp]: "safed (go_on r) = safe r"
  by (auto simp: go_on_def safe_def safed_def holds_def split: sum.splits prod.splits)

lemma abort_if_event: "Abort \<in> set (snd (abort_if SS)) \<longleftrightarrow> ss_mfp SS \<noteq> None"
  by (simp add: abort_if_def)

lemma smtp_helo_safe:
  assumes "mfp_open SS"
  shows "safe (smtp_helo cfg an cmd buf cp SS)"
proof (cases "ss_mfp SS")
  case None
  then have "ss_state SS \<notin> {Recipient, RecipientOrData, BData}" using assms by (simp add: mfp_open_def)
  then show ?thesis
    by (simp add: smtp_helo_def Let_def abort_if_def mfp_open_def helo_accept_def split: routed.split option.split)
next
  case (Some f)
  then show ?thesis by (simp add: smtp_helo_def Let_def abort_if_def split: routed.split option.split)
qed

lemma mail_store_safe:
  "ss_state SS \<in> {Mail, MailOrHello} \<Longrightarrow> safe (Inr (mail_store cfg an SS f addr m routed))"
  by (auto simp: mail_store_def Let_def mfp_open_def split: option.splits)

lemma mail_accept_safe:
  assumes "ss_state SS \<in> {Mail, MailOrHello}"
  shows "safe (mail_accept cfg an addr m SS)"
proof -
  define S1 where "S1 = SS\<lparr>ss_sizeoptval := m_size m, ss_deliverby_time := m_bytime m, ss_deliverby_flags := m_byflags m,
                   ss_policyresult := (if netconnected_flg cfg then an_policy an else 0)\<rparr>"
  have S1: "ss_state S1 \<in> {Mail, MailOrHello}" "mfp_open S1" using assms by (auto simp: S1_def mfp_open_def)
  show ?thesis
    unfolding mail_accept_def S1_def [symmetric] Let_def using S1(2) mail_store_safe [OF S1(1)]
    by (simp split: sum.split option.split)
qed

lemma smtp_mail_safe: "mfp_open SS \<Longrightarrow> safe (smtp_mail cfg an cp SS)"
  using mail_accept_safe
  by (auto simp: smtp_mail_def mail_args_def Let_def mfp_open_def split: outcome.split prod.split)

lemma rcpt_store_safe:
  "safe (Inr (rcpt_store cfg SS f addr q routed))"
  by (auto simp: rcpt_store_def Let_def mfp_open_def split: option.splits)

lemma rcpt_accept_safe:
  assumes "mfp_open SS" "ss_state SS \<in> {Recipient, RecipientOrData}"
  shows "safe (rcpt_accept cfg an addr q SS)"
proof -
  obtain f where "ss_mfp SS = Some f" using assms by (auto simp: mfp_open_def)
  then show ?thesis
    using rcpt_store_safe unfolding rcpt_accept_def Let_def by (simp add: mfp_open_def split: sum.split option.split)
qed

lemma smtp_rcpt_safe: "mfp_open SS \<Longrightarrow> safe (smtp_rcpt cfg an cp SS)"
  using rcpt_accept_safe [of "SS\<lparr>ss_rcpt_count := ss_rcpt_count SS + 1\<rparr>"]
  by (auto simp: smtp_rcpt_def rcpt_args_def Let_def mfp_open_def split: outcome.split prod.split)

lemma smtp_data_safe: "mfp_open SS \<Longrightarrow> safed (smtp_data cfg an cp SS)"
  by (auto simp: smtp_data_def data_message_def Let_def abort_if_def mfp_open_def split: option.split)

lemma bdat_chunk_safe: "safed (Inr (bdat_chunk cfg an fin SS f eof))"
  by (auto simp: bdat_chunk_def Let_def mfp_open_def split: option.split)

lemma bdat_finish_safe:
  assumes "mfp_open SS"
  shows "safed (bdat_finish cfg an fin eof SS)"
proof (cases "ss_state SS = BData")
  case True
  then obtain f where "ss_mfp SS = Some f" using assms by (auto simp: mfp_open_def)
  then show ?thesis using True bdat_chunk_safe by (simp add: bdat_finish_def Let_def abort_if_def)
next
  case False
  then show ?thesis using assms by (auto simp: bdat_finish_def Let_def abort_if_def mfp_open_def)
qed

lemma smtp_bdata_safe:
  assumes "mfp_open SS"
  shows "safed (smtp_bdata cfg an cp SS)"
proof -
  have b: "mfp_open (bdat_begin SS)" using assms by (auto simp: bdat_begin_def Let_def mfp_open_def)
  then have "mfp_open (bdat_read cfg an chunk (bdat_begin SS))" for chunk by (simp add: mfp_open_def)
  then show ?thesis using b bdat_finish_safe by (auto simp: smtp_bdata_def Let_def split: option.split)
qed

lemma smtp_line_safe:
  assumes "mfp_open SS"
  shows "safed (smtp_line cfg an buf SS)"
proof -
  have u: "safed (unknown_command cfg SS)" "safed (end_session SS n)" "safe (Inr (smtp_rset cfg cp SS))" for cp n
    using assms by (auto simp: unknown_command_def end_session_def abort_if_def mfp_open_def smtp_rset_def Let_def)
  have a: "mfp_open (SS\<lparr>ss_authuser := x\<rparr>)" "mfp_open (SS\<lparr>ss_with := w\<rparr>)" for x w using assms by (simp_all add: mfp_open_def)
  have "safed (smtp_switch cfg an cmd buf cp SS)" for cmd cp
    unfolding smtp_switch_def using u a assms smtp_helo_safe smtp_mail_safe smtp_rcpt_safe smtp_data_safe smtp_bdata_safe
    by simp
  then show ?thesis using u assms by (auto simp: smtp_line_def split: option.splits)
qed

lemma session_file_open: "session cfg SS evs \<Longrightarrow> Abort \<notin> set evs \<Longrightarrow> mfp_open SS"
proof (induction rule: session.induct)
  case (start b)
  then show ?case by (simp add: session_start_def mfp_open_def)
next
  case (line SS evs an buf SS' evs')
  then show ?case using smtp_line_safe [of SS cfg an buf] by simp
qed

text \<open>The session after a MAIL command, and after a RCPT command behind it.\<close>

definition after_mail :: SmtpState where
  "after_mail = \<lparr>ss_state = Recipient, ss_mfp = Some (fwrite (''with SMTP'' @ [LF] @ ''from <a>'' @ [LF]) os_new), ss_messagesize = 0,
      ss_sizeoptval = - 1, ss_sizeoptsum = - 1, ss_with = 0, ss_policyresult = 0, ss_rhostflags = 0, ss_smtpfrom = ''a'',
      ss_deliverby_time = 0, ss_deliverby_flags = 0, ss_from_box = False, ss_rcpt_count = 0, ss_ok_rcpt_count = 0,
      ss_sender_ok = True, ss_bdata_blocknum = 0, ss_mvbstate = None, ss_authuser = None, ss_helobuf = [],
      ss_cfinfo = None, ss_availspace = 1000, ss_unknown_cmd_count = 0\<rparr>"

definition rcpt_line :: "string \<Rightarrow> string" where
  "rcpt_line b = ''todsn NOTIFY=FAILURE,DELAY ORCPT=rfc822;'' @ b @ '' INRCPT=rfc822;'' @ b @ '' INFROM=rfc822;a'' @ [LF] @ ''to <'' @ b @ ''>'' @ [LF]"

definition after_rcpt :: SmtpState where
  "after_rcpt = after_mail\<lparr>ss_state := RecipientOrData, ss_mfp := Some (fwrite (rcpt_line ''b'') (the (ss_mfp after_mail))),
      ss_rcpt_count := 1, ss_ok_rcpt_count := 1, ss_sizeoptval := 0, ss_sizeoptsum := 0\<rparr>"

lemma after_mail_run: "run_lines cfg0 [(an0, ''MAIL FROM:<a>'')] (session_start cfg0 True, []) = Some (after_mail, [Type 250])"
  by code_simp

lemma after_rcpt_run: "run_lines cfg0 [(an0, ''RCPT TO:<b>'')] (after_mail, [Type 250]) = Some (after_rcpt, [Type 250, Type 250])"
  by code_simp

lemma after_mail_session: "session cfg0 after_mail [Type 250]"
  by (rule run_lines_start [OF after_mail_run])

lemma after_rcpt_session: "session cfg0 after_rcpt [Type 250, Type 250]"
  by (rule run_lines_session [OF after_rcpt_run after_mail_session])

definition sent :: "dresult \<Rightarrow> event list" where
  "sent r = (case r of Inl _ \<Rightarrow> [] | Inr (SS, evs, b) \<Rightarrow> evs)"

lemma sent_result: "Commit t \<in> set (sent r) \<Longrightarrow> \<exists>SS evs b. r = Inr (SS, evs, b) \<and> Commit t \<in> set evs"
  by (auto simp: sent_def split: sum.splits prod.splits)

lemma after_rcpt_data:
  "sent (smtp_line cfg0 an0 ''DATA'' after_rcpt) =
     [Type 354, Commit (''with SMTP'' @ [LF] @ ''from <a>'' @ [LF] @ rcpt_line ''b'' @ ''env-end'' @ [LF] @ ''x'' @ [LF]), Type 250]"
  by code_simp

section \<open>Properties\<close>

text \<open>
  C9: In every state that a session reaches, whatever the client sends and whatever the rest of the system answers, a message
  file is open only inside a transaction; the counts of recipients are consistent with the state of the protocol; and
  before the message text the file without write errors holds the envelope of the accepted sender followed by at least
  as many recipients as were acknowledged.
\<close>

theorem session_invariant:
  assumes "session cfg SS evs"
  shows "session_ok SS \<and> file_ok cfg SS"
  using assms by (rule session_reachable)

theorem session_invariant_witness: "session_ok after_rcpt \<and> file_ok cfg0 after_rcpt"
  by (rule session_invariant [OF after_rcpt_session])



text \<open>
  C33: The handlers use the message file only when there is one, as long as no file has been dropped: in a session in
  which no \<open>mail_abort\<close> happened no command line whatever makes RCPT, DATA or BDAT write to a file that is not there.
\<close>

theorem no_fault_without_abort:
  assumes "session cfg SS evs" "Abort \<notin> set evs"
  shows "smtp_line cfg an buf SS \<noteq> Inl NullFile"
  using smtp_line_safe [OF session_file_open [OF assms], of cfg an buf] by (auto simp: safed_def)

theorem no_fault_without_abort_witness: "smtp_line cfg0 an0 ''DATA'' after_rcpt \<noteq> Inl NullFile"
  by (rule no_fault_without_abort [OF after_rcpt_session]) simp




text \<open>
  A MAIL command inside a transaction is refused with 503, but it has already withdrawn the sender: the DATA of the
  running transaction is refused and its file is dropped.
\<close>

lemma nested_mail_spoils_transaction:
  "\<exists>SS evs. session cfg0 SS evs \<and> sent (smtp_line cfg0 an0 ''DATA'' SS) = [Type 550, Abort] \<and> evs = [Type 250, Type 250, Type 503]"
proof -
  let ?S = "after_rcpt\<lparr>ss_sender_ok := False\<rparr>"
  have "run_lines cfg0 [(an0, ''MAIL FROM:<c>'')] (after_rcpt, [Type 250, Type 250]) = Some (?S, [Type 250, Type 250, Type 503])"
    by code_simp
  then have "session cfg0 ?S [Type 250, Type 250, Type 503]" using after_rcpt_session by (rule run_lines_session)
  moreover have "sent (smtp_line cfg0 an0 ''DATA'' ?S) = [Type 550, Abort]" by code_simp
  ultimately show ?thesis by blast
qed

end
