(* ===== verification/Appendlet.thy ===== *)
theory Appendlet
  imports Stdio
begin

unbundle bit_operations_syntax

text \<open>
  The message body output of the SMTP client, \<^verbatim>\<open>transports/smtp/appendlet.c\<close>: \<open>writebuf\<close>, which
  turns LF into CR LF and stuffs dots, \<open>writemimeline\<close>, which can also encode to or decode from
  quoted-printable, and \<open>appendlet\<close>, which feeds them the spooled body and makes sure that the last
  thing sent is a line end.

  The connection is written directly (\<open>chunkbuf\<close> is \<open>NULL\<close>), so \<open>ssputc\<close> is a checked \<open>sfputc\<close>.  The
  reports and delay statistics that accompany an error are not modelled, the texts in \<open>remotemsg\<close> are.
\<close>

section \<open>State\<close>

text \<open>The fields of \<open>SmtpState\<close> that the body output uses, and the global \<open>gotalarm\<close>.\<close>

record smtpstate =
  ss_state :: int
  column :: int
  alarmcnt :: int
  lastch :: int
  hsize :: int
  doing_chunking :: bool
  smtpfp :: ostream
  remotemsg :: string
  gotalarm :: bool

definition ALARM_BLOCKSIZE :: int where
  "ALARM_BLOCKSIZE = 2000"

datatype convertmode =
  CONVERT_NONE | CONVERT_QP | CONVERT_MULTIPARTQP | CONVERT_8BIT | CONVERT_UNKNOWN

text \<open>\<open>ssputc\<close> for \<open>chunkbuf == NULL\<close>; the flag tells that it returned \<open>EOF\<close>.\<close>

definition ssputc :: "char \<Rightarrow> smtpstate \<Rightarrow> bool \<times> smtpstate" where
  "ssputc c ss =
     (if os_err (smtpfp ss) then (True, ss)
      else let ss = ss\<lparr>smtpfp := fputc c (smtpfp ss)\<rparr> in (os_err (smtpfp ss), ss))"

text \<open>\<open>ssputc(..) == EOF || ssputc(..) == EOF || ...\<close>\<close>

fun ssputs :: "string \<Rightarrow> smtpstate \<Rightarrow> bool \<times> smtpstate" where
  "ssputs [] ss = (False, ss)"
| "ssputs (c # cs) ss = (case ssputc c ss of (eof, ss) \<Rightarrow> if eof then (True, ss) else ssputs cs ss)"

text \<open>The bookkeeping at the head of both loops: the size so far and the report counter.\<close>

definition count_char :: "smtpstate \<Rightarrow> smtpstate" where
  "count_char ss = ss\<lparr>hsize := hsize ss + 1,
     alarmcnt := (if alarmcnt ss - 1 \<le> 0 then ALARM_BLOCKSIZE else alarmcnt ss - 1)\<rparr>"

section \<open>writebuf\<close>

text \<open>
  The loop of \<open>writebuf\<close>; the result is \<open>None\<close> for \<open>EOF\<close>.  The local copies of \<open>state\<close> and
  \<open>alarmcnt\<close> are written back at the end; on an error the code leaves the fields as they were at entry,
  which no caller reads.
\<close>

fun writebuf_loop :: "string \<Rightarrow> smtpstate \<Rightarrow> bool \<times> smtpstate" where
  "writebuf_loop [] ss = (True, ss)"
| "writebuf_loop (c # cs) ss =
     (if gotalarm ss then (True, ss)
      else
        let ss = count_char ss
        in if ss_state ss \<noteq> 0 \<and> c \<noteq> LF then
             (let ss = ss\<lparr>ss_state := 0\<rparr>
              in if c = CHR ''.'' \<and> \<not> doing_chunking ss then
                   (case ssputs [c, c] ss of (eof, ss) \<Rightarrow>
                      if eof then (False, ss\<lparr>remotemsg := ''write error 1''\<rparr>) else writebuf_loop cs ss)
                 else
                   (case ssputc c ss of (eof, ss) \<Rightarrow>
                      if eof then (False, ss\<lparr>remotemsg := ''write error 2''\<rparr>) else writebuf_loop cs ss))
           else if c = LF then
             (case ssputs [CR, c] ss of (eof, ss) \<Rightarrow>
                if eof then (False, ss\<lparr>remotemsg := ''write error 3''\<rparr>)
                else writebuf_loop cs (ss\<lparr>ss_state := 1\<rparr>))
           else
             (case ssputc c ss of (eof, ss) \<Rightarrow>
                if eof then (False, ss\<lparr>remotemsg := ''write error 4''\<rparr>) else writebuf_loop cs ss))"

definition writebuf :: "smtpstate \<Rightarrow> string \<Rightarrow> int \<times> smtpstate" where
  "writebuf ss buf =
     (case writebuf_loop buf ss of
        (True, ss) \<Rightarrow> (int (length buf), ss)
      | (False, ss) \<Rightarrow> (- 1, ss))"

section \<open>writemimeline\<close>

definition i2h :: "nat \<Rightarrow> char" where
  "i2h n = ''0123456789ABCDEF'' ! n"

definition qp_quote :: "char \<Rightarrow> string" where
  "qp_quote c = [CHR ''='', i2h (drop_bit 4 (ord c) AND 15), i2h (ord c AND 15)]"

definition is_hex :: "char \<Rightarrow> bool" where
  "is_hex c \<longleftrightarrow> (48 \<le> ord c \<and> ord c \<le> 57) \<or> (97 \<le> ord c \<and> ord c \<le> 102) \<or> (65 \<le> ord c \<and> ord c \<le> 70)"

text \<open>\<open>if (c >= 'a') c -= 'a' - 'A'; if (c > '9') c -= 'A' - '9' - 1; ... c & 0x0F\<close>\<close>

definition hex_value :: "char \<Rightarrow> int" where
  "hex_value c =
     (let v = int (ord c);
          v = (if v \<ge> 97 then v - 32 else v);
          v = (if v > 57 then v - 7 else v)
      in v AND 0x0F)"

text \<open>
  The tail of the loop body for a character that is sent as it is: dot stuffing, CR before LF.  Here
  \<open>c\<close> may be the value of a decoded quoted-printable triple.
\<close>

definition mime_put :: "char \<Rightarrow> smtpstate \<Rightarrow> bool \<times> smtpstate" where
  "mime_put c ss =
     (case (if column ss = 0 \<and> c = CHR ''.'' \<and> \<not> doing_chunking ss then ssputc c ss else (False, ss)) of
        (eof, ss) \<Rightarrow>
          if eof then (False, ss\<lparr>remotemsg := ''write error 5''\<rparr>)
          else
            (case (if c = LF then ssputc CR ss else (False, ss)) of
               (eof, ss) \<Rightarrow>
                 if eof then (False, ss\<lparr>remotemsg := ''write error 6''\<rparr>)
                 else
                   let ss = (if c = LF then ss\<lparr>column := - 1\<rparr> else ss)
                   in (case ssputc c ss of
                         (eof, ss) \<Rightarrow>
                           if eof then (False, ss\<lparr>remotemsg := ''write error 7''\<rparr>)
                           else (True, ss\<lparr>lastch := int (ord c)\<rparr>))))"

text \<open>
  The encoding branch before that: a soft line break when the line is long, then quoting, where
  \<open>continue\<close> (the flag) skips the rest.  The results of \<open>ssputc\<close> are not looked at here.
\<close>

definition qp_encode :: "nat \<Rightarrow> char \<Rightarrow> smtpstate \<Rightarrow> bool \<times> smtpstate" where
  "qp_encode n c ss =
     (let ss = (if column ss > 70 \<and> c \<noteq> LF
                then (snd (ssputc LF (snd (ssputc CR (snd (ssputc (CHR ''='') ss))))))\<lparr>lastch := 10, column := 0\<rparr>
                else ss);
          quote = (n < 3 \<and> (c = SPC \<or> c = HT)) \<or>
                  (c = CHR ''='' \<or> ord c > 126 \<or> (column ss = 0 \<and> (c = CHR ''F'' \<or> c = CHR ''.'')) \<or>
                   (c \<noteq> LF \<and> c \<noteq> HT \<and> ord c < 32))
      in if quote then
           (True, (fold (\<lambda>ch ss. snd (ssputc ch ss)) (qp_quote c) ss)
                    \<lparr>lastch := int (ord (i2h (ord c AND 15))), column := column ss + 2\<rparr>)
         else (False, ss))"

text \<open>
  The loop, with the characters left (\<open>n\<close> is their number) and the decoder's \<open>qp_chrs\<close> and \<open>qp_val\<close>.
  A decoded value is kept as a character: it is at most \<open>0xFF\<close>.
\<close>

fun writemimeline_loop :: "convertmode \<Rightarrow> string \<Rightarrow> nat \<Rightarrow> int \<Rightarrow> smtpstate \<Rightarrow> bool \<times> smtpstate" where
  "writemimeline_loop mode [] qp_chrs qp_val ss = (True, ss)"
| "writemimeline_loop mode (c # cs) qp_chrs qp_val ss =
     (let ss = count_char (ss\<lparr>column := column ss + 1\<rparr>)
      in if mode = CONVERT_8BIT then
           (if c = CHR ''='' \<and> qp_chrs = 0 then writemimeline_loop mode cs 2 0 ss
            else if qp_chrs \<noteq> 0 then
              (if c = SPC \<or> c = HT \<or> c = LF \<or> c = CR then (True, ss)
               else
                 let ss = ss\<lparr>column := column ss - 1\<rparr>;
                     qp_val = (if is_hex c then push_bit 4 qp_val OR hex_value c else qp_val)
                 in if qp_chrs - 1 = 0 then
                      let ch = char_of (nat qp_val); ss = ss\<lparr>lastch := qp_val\<rparr>
                      in (case mime_put ch ss of
                            (True, ss) \<Rightarrow> writemimeline_loop mode cs 0 qp_val ss
                          | r \<Rightarrow> r)
                    else writemimeline_loop mode cs (qp_chrs - 1) qp_val ss)
            else
              (case mime_put c (ss\<lparr>lastch := int (ord c)\<rparr>) of
                 (True, ss) \<Rightarrow> writemimeline_loop mode cs 0 qp_val ss
               | r \<Rightarrow> r))
         else if mode = CONVERT_QP \<or> mode = CONVERT_UNKNOWN then
           (case qp_encode (Suc (length cs)) c ss of
              (True, ss) \<Rightarrow> writemimeline_loop mode cs qp_chrs qp_val ss
            | (False, ss) \<Rightarrow>
                (case mime_put c ss of
                   (True, ss) \<Rightarrow> writemimeline_loop mode cs qp_chrs qp_val ss
                 | r \<Rightarrow> r))
         else
           (case mime_put c ss of
              (True, ss) \<Rightarrow> writemimeline_loop mode cs qp_chrs qp_val ss
            | r \<Rightarrow> r))"

definition writemimeline :: "smtpstate \<Rightarrow> string option \<Rightarrow> convertmode \<Rightarrow> int \<times> smtpstate" where
  "writemimeline ss buf mode =
     (case buf of
        None \<Rightarrow> (0, ss)
      | Some s \<Rightarrow>
          (case writemimeline_loop mode s 0 0 (ss\<lparr>lastch := - 1\<rparr>) of
             (True, ss) \<Rightarrow> (int (length s), ss)
           | (False, ss) \<Rightarrow> (- 1, ss)))"

section \<open>appendlet\<close>

text \<open>
  Every failure returns \<open>EX_IOERR\<close>; the value tells which message the code leaves in \<open>remotemsg\<close>
  (the number in brackets of the write errors).
\<close>

datatype append_err = WriteTimeout | WriteError nat | ReadError

text \<open>What \<open>read\<close> can do: deliver a buffer, be interrupted, fail; the end of the list is end of file.\<close>

datatype rdres = RdData string | RdAgain | RdError

text \<open>
  \<open>csfgets\<close> of \<^verbatim>\<open>lib/cfgets.c\<close> with a buffer of \<open>n\<close> bytes: a line including its LF, at most \<open>n - 1\<close>
  characters of it, \<open>None\<close> for \<open>EOF\<close>.
\<close>

fun csfgets_loop :: "nat \<Rightarrow> string \<Rightarrow> string \<times> string" where
  "csfgets_loop 0 cs = ([], cs)"
| "csfgets_loop (Suc n) [] = ([], [])"
| "csfgets_loop (Suc n) (c # cs) =
     (if c = LF then ([c], cs) else case csfgets_loop n cs of (l, r) \<Rightarrow> (c # l, r))"

definition csfgets :: "nat \<Rightarrow> string \<Rightarrow> string option \<times> string" where
  "csfgets n cs =
     (case csfgets_loop (n - 1) cs of
        (l, r) \<Rightarrow> (if l = [] \<and> n > 1 then None else Some l, r))"

lemma csfgets_shorter: "csfgets n cs = (Some l, r) \<Longrightarrow> l \<noteq> [] \<Longrightarrow> length r < length cs"
proof -
  have "csfgets_loop m cs = (l, r) \<Longrightarrow> length cs = length l + length r" for m
    by (induction m cs arbitrary: l r rule: csfgets_loop.induct) (auto split: if_splits prod.splits)
  then show "csfgets n cs = (Some l, r) \<Longrightarrow> l \<noteq> [] \<Longrightarrow> length r < length cs"
    by (fastforce simp: csfgets_def split: prod.splits if_splits)
qed

text \<open>The final line end, at \<open>lastch_processing\<close>.\<close>

definition lastch_processing :: "bool \<Rightarrow> smtpstate \<Rightarrow> append_err option \<times> smtpstate" where
  "lastch_processing lastwasnl ss =
     (if \<not> lastwasnl \<or> lastch ss \<noteq> 10 then
        (case writebuf ss [LF] of
           (rc, ss) \<Rightarrow>
             if rc \<noteq> 1 then (Some (if gotalarm ss then WriteTimeout else WriteError 5), ss) else (None, ss))
      else (None, ss))"

text \<open>The three loops over the body: blocks from \<open>read\<close>, lines from \<open>csfgets\<close>, lines of the mapped file.\<close>

fun read_loop :: "rdres list \<Rightarrow> bool \<Rightarrow> smtpstate \<Rightarrow> append_err option \<times> smtpstate" where
  "read_loop [] lastwasnl ss = lastch_processing lastwasnl ss"
| "read_loop (RdAgain # rs) lastwasnl ss = read_loop rs lastwasnl ss"
| "read_loop (RdError # rs) lastwasnl ss = (Some ReadError, ss)"
| "read_loop (RdData buf # rs) lastwasnl ss =
     (if buf = [] then lastch_processing lastwasnl ss
      else
        (case writebuf ss buf of
           (rc, ss) \<Rightarrow>
             if rc \<noteq> int (length buf) then (Some (if gotalarm ss then WriteTimeout else WriteError 1), ss)
             else read_loop rs (last buf = LF) ss))"

text \<open>The file behind \<open>csfgets\<close> may end in a read error (\<open>failed\<close>) instead of end of file.\<close>

function gets_loop :: "convertmode \<Rightarrow> nat \<Rightarrow> bool \<Rightarrow> string \<Rightarrow> bool \<Rightarrow> smtpstate \<Rightarrow> append_err option \<times> smtpstate" where
  "gets_loop mode bufsz failed cs lastwasnl ss =
     (case csfgets bufsz cs of
        (None, r) \<Rightarrow> if failed then (Some ReadError, ss) else lastch_processing lastwasnl ss
      | (Some l, r) \<Rightarrow>
          if l = [] then lastch_processing lastwasnl ss
          else
            (case writemimeline ss (Some l) mode of
               (rc, ss) \<Rightarrow>
                 if rc \<noteq> int (length l) then (Some (WriteError 2), ss)
                 else gets_loop mode bufsz failed r (last l = LF) ss))"
  by auto
termination
  by (relation "measure (\<lambda>(mode, bufsz, failed, cs, lastwasnl, ss). length cs)") (auto dest: csfgets_shorter [OF sym])

text \<open>
  The line loop over the mapped file.  Without an LF before \<open>let_end\<close> the code looks at the byte there
  (\<open>after\<close>), and takes it for part of the line when it is an LF.
\<close>

fun mmap_loop :: "convertmode \<Rightarrow> char \<Rightarrow> string list \<Rightarrow> bool \<Rightarrow> smtpstate \<Rightarrow> append_err option \<times> smtpstate" where
  "mmap_loop mode after [] lastwasnl ss = lastch_processing lastwasnl ss"
| "mmap_loop mode after (l # ls) lastwasnl ss =
     (let l = (if last l \<noteq> LF \<and> after = LF then l @ [LF] else l)
      in case writemimeline ss (Some l) mode of
           (rc, ss) \<Rightarrow>
             if rc \<noteq> int (length l) then (Some (WriteError 4), ss)
             else mmap_loop mode after ls (last l = LF) ss)"

text \<open>The lines of a text, each with its LF; the last one may lack it.\<close>

fun lines_of :: "string \<Rightarrow> string list" where
  "lines_of [] = []"
| "lines_of (c # cs) =
     (if c = LF then [c] # lines_of cs
      else case lines_of cs of [] \<Rightarrow> [[c]] | l # ls \<Rightarrow> (c # l) # ls)"

definition append_init :: "smtpstate \<Rightarrow> smtpstate" where
  "append_init ss =
     ss\<lparr>ss_state := 1, column := - 1, alarmcnt := ALARM_BLOCKSIZE, lastch := 10, gotalarm := False\<rparr>"

text \<open>
  \<open>appendlet\<close> with the mapped file: \<open>before\<close> is the byte in front of the body (read when the body is
  empty), \<open>after\<close> the one behind it.
\<close>

definition appendlet_mmap :: "smtpstate \<Rightarrow> convertmode \<Rightarrow> char \<Rightarrow> string \<Rightarrow> char \<Rightarrow> append_err option \<times> smtpstate" where
  "appendlet_mmap ss mode before body after =
     (let ss = append_init ss
      in if mode = CONVERT_NONE then
           (case writebuf ss body of
              (rc, ss) \<Rightarrow>
                if rc \<noteq> int (length body) then (Some (if gotalarm ss then WriteTimeout else WriteError 3), ss)
                else lastch_processing (last (before # body) = LF) ss)
         else mmap_loop mode after (lines_of body) False ss)"

text \<open>
  \<open>appendlet\<close> with \<open>read\<close>: \<open>already\<close> is the buffer when an earlier check has read the whole body,
  \<open>reads\<close> what the reads will deliver, \<open>bufsz\<close> the buffer size of the line mode and \<open>failed\<close> whether the
  line mode meets a read error at the end of \<open>body\<close>.
\<close>

definition appendlet_read :: "smtpstate \<Rightarrow> convertmode \<Rightarrow> string option \<Rightarrow> rdres list \<Rightarrow> nat \<Rightarrow> string \<Rightarrow> bool \<Rightarrow>
    append_err option \<times> smtpstate" where
  "appendlet_read ss mode already reads bufsz body failed =
     (let ss = append_init ss
      in if mode = CONVERT_NONE then
           (case already of
              Some buf \<Rightarrow>
                (case writebuf ss buf of
                   (rc, ss) \<Rightarrow>
                     if rc \<noteq> int (length buf) then (Some (if gotalarm ss then WriteTimeout else WriteError 1), ss)
                     else lastch_processing (last buf = LF) ss)
            | None \<Rightarrow> read_loop reads True ss)
         else gets_loop mode bufsz failed body False ss)"


declare gets_loop.simps [simp del]

section \<open>writebuf as an encoder\<close>

text \<open>What one character contributes on a connection that accepts everything.\<close>

definition wb_enc :: "bool \<Rightarrow> int \<Rightarrow> char \<Rightarrow> int \<times> string" where
  "wb_enc chunking st c =
     (if st \<noteq> 0 \<and> c \<noteq> LF then (0, if c = CHR ''.'' \<and> \<not> chunking then [c, c] else [c])
      else if c = LF then (1, [CR, LF])
      else (st, [c]))"

definition ss_good :: "smtpstate \<Rightarrow> bool" where
  "ss_good ss \<longleftrightarrow> os_good (smtpfp ss) \<and> \<not> gotalarm ss"

lemma ssputc_good [simp]:
  "os_good (smtpfp ss) \<Longrightarrow> ssputc c ss = (False, ss\<lparr>smtpfp := os_app (smtpfp ss) [c]\<rparr>)"
proof -
  assume g: "os_good (smtpfp ss)"
  then have "\<not> os_err (smtpfp ss)" "\<not> os_err (os_app (smtpfp ss) [c])"
    using os_app_good [of "smtpfp ss" "[c]"] by (auto simp: os_good_def)
  then show ?thesis using g by (simp add: ssputc_def)
qed

lemma ssputs_good [simp]:
  "os_good (smtpfp ss) \<Longrightarrow> ssputs cs ss = (False, ss\<lparr>smtpfp := os_app (smtpfp ss) cs\<rparr>)"
  by (induction cs arbitrary: ss) auto

lemma count_char_fields [simp]:
  "smtpfp (count_char ss) = smtpfp ss" "ss_state (count_char ss) = ss_state ss"
  "lastch (count_char ss) = lastch ss" "column (count_char ss) = column ss"
  "doing_chunking (count_char ss) = doing_chunking ss" "gotalarm (count_char ss) = gotalarm ss"
  "remotemsg (count_char ss) = remotemsg ss" "hsize (count_char ss) = hsize ss + 1"
  by (simp_all add: count_char_def)

text \<open>Two states that differ at most in what \<open>writebuf\<close> advances.\<close>

definition ss_same :: "smtpstate \<Rightarrow> smtpstate \<Rightarrow> bool" where
  "ss_same ss ss' \<longleftrightarrow> lastch ss' = lastch ss \<and> column ss' = column ss \<and>
     doing_chunking ss' = doing_chunking ss \<and> gotalarm ss' = gotalarm ss \<and> remotemsg ss' = remotemsg ss"

lemma writebuf_loop_good:
  "ss_good ss \<Longrightarrow> enc_run (wb_enc (doing_chunking ss)) (ss_state ss) cs = (e, w) \<Longrightarrow>
     \<exists>ss'. writebuf_loop cs ss = (True, ss') \<and> smtpfp ss' = os_app (smtpfp ss) w \<and> ss_state ss' = e \<and>
       hsize ss' = hsize ss + int (length cs) \<and> ss_same ss ss'"
proof (induction cs arbitrary: ss w)
  case (Cons c cs)
  obtain e1 w1 w2 where s: "wb_enc (doing_chunking ss) (ss_state ss) c = (e1, w1)"
      "enc_run (wb_enc (doing_chunking ss)) e1 cs = (e, w2)" "w = w1 @ w2"
    using Cons.prems(2) by (auto split: prod.splits)
  let ?ss = "(count_char ss)\<lparr>ss_state := e1, smtpfp := os_app (smtpfp ss) w1\<rparr>"
  have l: "writebuf_loop (c # cs) ss = writebuf_loop cs ?ss"
    using Cons.prems(1) s(1)
    by (cases ss) (auto simp: ss_good_def wb_enc_def count_char_def Let_def split: if_splits)
  show ?case
    using Cons.IH [of ?ss w2] Cons.prems(1) s(2,3) unfolding l by (auto simp: ss_good_def ss_same_def)
qed (auto simp: ss_same_def)

lemma writebuf_good:
  "ss_good ss \<Longrightarrow> enc_run (wb_enc (doing_chunking ss)) (ss_state ss) buf = (e, w) \<Longrightarrow>
     \<exists>ss'. writebuf ss buf = (int (length buf), ss') \<and> smtpfp ss' = os_app (smtpfp ss) w \<and> ss_state ss' = e \<and>
       hsize ss' = hsize ss + int (length buf) \<and> ss_same ss ss'"
  using writebuf_loop_good [of ss buf e w] by (fastforce simp: writebuf_def)


section \<open>appendlet without conversion\<close>

text \<open>The text that is sent: the body, with an LF added when it does not end in one.\<close>

definition ended :: "bool \<Rightarrow> string \<Rightarrow> bool" where
  "ended lastwasnl t \<longleftrightarrow> (if t = [] then lastwasnl else last t = LF)"

definition with_lf :: "bool \<Rightarrow> string \<Rightarrow> string" where
  "with_lf lastwasnl t = (if ended lastwasnl t then t else t @ [LF])"

fun rd_text :: "rdres list \<Rightarrow> string" where
  "rd_text [] = []"
| "rd_text (RdData buf # rs) = buf @ rd_text rs"
| "rd_text (_ # rs) = rd_text rs"

fun rd_ok :: "rdres list \<Rightarrow> bool" where
  "rd_ok [] = True"
| "rd_ok (RdData buf # rs) = (buf \<noteq> [] \<and> rd_ok rs)"
| "rd_ok (RdAgain # rs) = rd_ok rs"
| "rd_ok (RdError # rs) = False"

lemma lastch_processing_good:
  assumes "ss_good ss" "lastch ss = 10"
    and "enc_run (wb_enc (doing_chunking ss)) (ss_state ss) (if lw then [] else [LF]) = (e, w)"
  shows "\<exists>ss'. lastch_processing lw ss = (None, ss') \<and> smtpfp ss' = os_app (smtpfp ss) w \<and> ss_state ss' = e"
  using assms writebuf_good [of ss "[LF]" e w] by (cases lw) (auto simp: lastch_processing_def)

lemma writebuf_finish:
  assumes ss: "ss_good ss" "lastch ss = 10"
    and e: "enc_run (wb_enc (doing_chunking ss)) (ss_state ss) (with_lf lw t) = (e, w)"
  shows "\<exists>ss1 ss'. writebuf ss t = (int (length t), ss1) \<and> lastch_processing (ended lw t) ss1 = (None, ss') \<and>
    smtpfp ss' = os_app (smtpfp ss) w \<and> ss_state ss' = e"
proof -
  obtain e1 w1 where 1: "enc_run (wb_enc (doing_chunking ss)) (ss_state ss) t = (e1, w1)" by fastforce
  from writebuf_good [OF ss(1) 1] obtain ss1 where s1: "writebuf ss t = (int (length t), ss1)"
      "smtpfp ss1 = os_app (smtpfp ss) w1" "ss_state ss1 = e1" "ss_same ss ss1" by blast
  then have g: "ss_good ss1" "lastch ss1 = 10" "doing_chunking ss1 = doing_chunking ss"
    using ss by (auto simp: ss_good_def ss_same_def)
  obtain w2 where 2: "enc_run (wb_enc (doing_chunking ss)) e1 (if ended lw t then [] else [LF]) = (e, w2)" "w = w1 @ w2"
    using e 1 by (auto simp: with_lf_def enc_run_append split: prod.splits if_splits)
  from lastch_processing_good [OF g(1,2), of "ended lw t" e w2] 2 s1 g(3) show ?thesis by auto
qed

lemma read_loop_good:
  "rd_ok rs \<Longrightarrow> ss_good ss \<Longrightarrow> lastch ss = 10 \<Longrightarrow>
   enc_run (wb_enc (doing_chunking ss)) (ss_state ss) (with_lf lw (rd_text rs)) = (e, w) \<Longrightarrow>
     \<exists>ss'. read_loop rs lw ss = (None, ss') \<and> smtpfp ss' = os_app (smtpfp ss) w \<and> ss_state ss' = e"
proof (induction rs lw ss arbitrary: w rule: read_loop.induct)
  case (1 lw ss)
  then show ?case using lastch_processing_good [of ss lw e w] by (simp add: with_lf_def ended_def split: if_splits)
next
  case (4 buf rs lw ss)
  have ne: "buf \<noteq> []" "rd_ok rs" using "4.prems"(1) by auto
  obtain e1 w1 where 1: "enc_run (wb_enc (doing_chunking ss)) (ss_state ss) buf = (e1, w1)" by fastforce
  from writebuf_good [OF "4.prems"(2) 1] obtain ss1 where s1: "writebuf ss buf = (int (length buf), ss1)"
      "smtpfp ss1 = os_app (smtpfp ss) w1" "ss_state ss1 = e1" "ss_same ss ss1" by blast
  then have g: "ss_good ss1" "lastch ss1 = 10" "doing_chunking ss1 = doing_chunking ss"
    using "4.prems"(2,3) by (auto simp: ss_good_def ss_same_def)
  have t: "with_lf lw (rd_text (RdData buf # rs)) = buf @ with_lf (last buf = LF) (rd_text rs)"
    using ne(1) by (simp add: with_lf_def ended_def)
  obtain w2 where 2: "enc_run (wb_enc (doing_chunking ss)) e1 (with_lf (last buf = LF) (rd_text rs)) = (e, w2)" "w = w1 @ w2"
    using "4.prems"(4) 1 unfolding t by (auto simp: enc_run_append split: prod.splits)
  from "4.IH" [OF ne(1) s1(1) [symmetric], of w2] ne(2) g s1 2 show ?case using ne(1) by auto
qed auto

text \<open>The client's side of the connection, as \<open>appendlet\<close> starts it.\<close>

lemma appendlet_mmap_good:
  assumes "os_good (smtpfp ss)" "\<not> doing_chunking ss"
    and "enc_run (wb_enc False) 1 (with_lf (before = LF) body) = (e, w)"
  shows "\<exists>ss'. appendlet_mmap ss CONVERT_NONE before body after = (None, ss') \<and> smtpfp ss' = os_app (smtpfp ss) w"
proof -
  let ?ss = "append_init ss"
  have i: "ss_good ?ss" "lastch ?ss = 10" "doing_chunking ?ss = False" "ss_state ?ss = 1" "smtpfp ?ss = smtpfp ss"
    using assms by (simp_all add: append_init_def ss_good_def)
  have "last (before # body) = LF \<longleftrightarrow> ended (before = LF) body" by (simp add: ended_def)
  with writebuf_finish [OF i(1,2), of "before = LF" body e w] i(3-5) assms(3) show ?thesis
    by (auto simp: appendlet_mmap_def Let_def)
qed

lemma appendlet_read_good:
  assumes "os_good (smtpfp ss)" "\<not> doing_chunking ss" "rd_ok reads"
    and "enc_run (wb_enc False) 1 (with_lf True (rd_text reads)) = (e, w)"
  shows "\<exists>ss'. appendlet_read ss CONVERT_NONE None reads bufsz body failed = (None, ss') \<and> smtpfp ss' = os_app (smtpfp ss) w"
proof -
  let ?ss = "append_init ss"
  have i: "ss_good ?ss" "lastch ?ss = 10" "doing_chunking ?ss = False" "ss_state ?ss = 1" "smtpfp ?ss = smtpfp ss"
    using assms by (simp_all add: append_init_def ss_good_def)
  from read_loop_good [OF assms(3) i(1,2), of True e w] i(3-5) assms(4) show ?thesis
    by (auto simp: appendlet_read_def Let_def)
qed


section \<open>Quoted-printable output\<close>

text \<open>The characters that the encoder quotes at column \<open>k\<close> with \<open>n\<close> characters left in the line.\<close>

definition qp_quoted :: "nat \<Rightarrow> int \<Rightarrow> char \<Rightarrow> bool" where
  "qp_quoted n k c \<longleftrightarrow> (n < 3 \<and> (c = SPC \<or> c = HT)) \<or>
     (c = CHR ''='' \<or> ord c > 126 \<or> (k = 0 \<and> (c = CHR ''F'' \<or> c = CHR ''.'')) \<or>
      (c \<noteq> LF \<and> c \<noteq> HT \<and> ord c < 32))"

text \<open>What a character contributes at column \<open>k\<close>, and the column it leaves behind.\<close>

definition qp_col :: "int \<Rightarrow> char \<Rightarrow> int" where
  "qp_col k c = (if k > 70 \<and> c \<noteq> LF then 0 else k)"

definition qp_text :: "nat \<Rightarrow> int \<Rightarrow> char \<Rightarrow> string" where
  "qp_text n k c =
     (if k > 70 \<and> c \<noteq> LF then [CHR ''='', CR, LF] else []) @
     (if qp_quoted n (qp_col k c) c then qp_quote c else if c = LF then [CR, LF] else [c])"

definition qp_next :: "nat \<Rightarrow> int \<Rightarrow> char \<Rightarrow> int" where
  "qp_next n k c =
     (if qp_quoted n (qp_col k c) c then qp_col k c + 2 else if c = LF then - 1 else qp_col k c)"

fun qp_line :: "int \<Rightarrow> string \<Rightarrow> string" where
  "qp_line k [] = []"
| "qp_line k (c # cs) = qp_text (Suc (length cs)) (k + 1) c @ qp_line (qp_next (Suc (length cs)) (k + 1) c) cs"

fun qp_fin :: "int \<Rightarrow> string \<Rightarrow> int" where
  "qp_fin k [] = k"
| "qp_fin k (c # cs) = qp_fin (qp_next (Suc (length cs)) (k + 1) c) cs"

lemma ssputc_fold_good:
  "os_good (smtpfp ss) \<Longrightarrow> fold (\<lambda>ch ss. snd (ssputc ch ss)) s ss = ss\<lparr>smtpfp := os_app (smtpfp ss) s\<rparr>"
  by (induction s arbitrary: ss) auto

lemma qp_encode_good:
  assumes "os_good (smtpfp ss)" "column ss = k"
  shows "\<exists>l. qp_encode n c ss =
    (if qp_quoted n (qp_col k c) c
     then (True, ss\<lparr>smtpfp := os_app (smtpfp ss) (qp_text n k c), column := qp_next n k c, lastch := l\<rparr>)
     else (False, ss\<lparr>smtpfp := os_app (smtpfp ss) (if k > 70 \<and> c \<noteq> LF then [CHR ''='', CR, LF] else []),
                    column := qp_col k c, lastch := l\<rparr>))"
proof -
  define ss1 where "ss1 = (if column ss > 70 \<and> c \<noteq> LF
      then ss\<lparr>smtpfp := os_app (smtpfp ss) [CHR ''='', CR, LF], lastch := 10, column := 0\<rparr> else ss)"
  have c1: "column ss1 = qp_col k c" "os_good (smtpfp ss1)"
      "smtpfp ss1 = os_app (smtpfp ss) (if k > 70 \<and> c \<noteq> LF then [CHR ''='', CR, LF] else [])"
    using assms by (auto simp: ss1_def qp_col_def)
  have q: "qp_encode n c ss =
      (if qp_quoted n (qp_col k c) c
       then (True, (fold (\<lambda>ch ss. snd (ssputc ch ss)) (qp_quote c) ss1)
               \<lparr>lastch := int (ord (i2h (ord c AND 15))), column := column ss1 + 2\<rparr>)
       else (False, ss1))"
  proof -
    have s: "(if column ss > 70 \<and> c \<noteq> LF
        then (snd (ssputc LF (snd (ssputc CR (snd (ssputc (CHR ''='') ss))))))\<lparr>lastch := 10, column := 0\<rparr>
        else ss) = ss1"
      using assms(1) by (simp add: ss1_def)
    show ?thesis unfolding qp_encode_def s Let_def c1(1) qp_quoted_def ..
  qed
  show ?thesis
  proof (cases "qp_quoted n (qp_col k c) c")
    case True
    then show ?thesis
      using q ssputc_fold_good [OF c1(2), of "qp_quote c"] c1 assms
      by (intro exI [of _ "int (ord (i2h (ord c AND 15)))"]) (auto simp: qp_text_def qp_next_def ss1_def)
  next
    case False
    then show ?thesis
      using q c1 assms by (intro exI [of _ "lastch ss1"]) (auto simp: ss1_def qp_col_def)
  qed
qed

lemma mime_put_good:
  assumes "os_good (smtpfp ss)" "\<not> (column ss = 0 \<and> c = CHR ''.'')"
  shows "mime_put c ss =
    (True, ss\<lparr>smtpfp := os_app (smtpfp ss) (if c = LF then [CR, LF] else [c]),
             column := (if c = LF then - 1 else column ss), lastch := int (ord c)\<rparr>)"
  using assms by (auto simp: mime_put_def)

lemma writemimeline_qp:
  "mode = CONVERT_QP \<or> mode = CONVERT_UNKNOWN \<Longrightarrow> os_good (smtpfp ss) \<Longrightarrow>
     \<exists>ss'. writemimeline_loop mode cs qc qv ss = (True, ss') \<and> smtpfp ss' = os_app (smtpfp ss) (qp_line (column ss) cs) \<and>
       column ss' = qp_fin (column ss) cs"
proof (induction cs arbitrary: ss)
  case (Cons c cs)
  let ?ss = "count_char (ss\<lparr>column := column ss + 1\<rparr>)" and ?n = "Suc (length cs)" and ?k = "column ss + 1"
  have m: "mode \<noteq> CONVERT_8BIT" using Cons.prems(1) by auto
  have g: "os_good (smtpfp ?ss)" "column ?ss = ?k" "smtpfp ?ss = smtpfp ss" using Cons.prems(2) by simp_all
  obtain l where q: "qp_encode ?n c ?ss =
    (if qp_quoted ?n (qp_col ?k c) c
     then (True, ?ss\<lparr>smtpfp := os_app (smtpfp ?ss) (qp_text ?n ?k c), column := qp_next ?n ?k c, lastch := l\<rparr>)
     else (False, ?ss\<lparr>smtpfp := os_app (smtpfp ?ss) (if ?k > 70 \<and> c \<noteq> LF then [CHR ''='', CR, LF] else []),
                    column := qp_col ?k c, lastch := l\<rparr>))"
    using qp_encode_good [OF g(1,2)] by blast
  have "\<exists>ss1. writemimeline_loop mode (c # cs) qc qv ss = writemimeline_loop mode cs qc qv ss1 \<and>
      smtpfp ss1 = os_app (smtpfp ss) (qp_text ?n ?k c) \<and> column ss1 = qp_next ?n ?k c"
  proof (cases "qp_quoted ?n (qp_col ?k c) c")
    case True
    then show ?thesis using q m Cons.prems(1) g(3) by (auto simp: Let_def)
  next
    case False
    then have nd: "\<not> (qp_col ?k c = 0 \<and> c = CHR ''.'')" by (auto simp: qp_quoted_def)
    let ?s1 = "?ss\<lparr>smtpfp := os_app (smtpfp ?ss) (if ?k > 70 \<and> c \<noteq> LF then [CHR ''='', CR, LF] else []),
                    column := qp_col ?k c, lastch := l\<rparr>"
    have "mime_put c ?s1 =
      (True, ?s1\<lparr>smtpfp := os_app (smtpfp ?s1) (if c = LF then [CR, LF] else [c]),
             column := (if c = LF then - 1 else column ?s1), lastch := int (ord c)\<rparr>)"
      using nd Cons.prems(2) by (intro mime_put_good) simp_all
    then show ?thesis
      using False q m Cons.prems(1) g(3) by (auto simp: Let_def qp_text_def qp_next_def)
  qed
  then obtain ss1 where s1: "writemimeline_loop mode (c # cs) qc qv ss = writemimeline_loop mode cs qc qv ss1"
      "smtpfp ss1 = os_app (smtpfp ss) (qp_text ?n ?k c)" "column ss1 = qp_next ?n ?k c" by blast
  from Cons.IH [OF Cons.prems(1), of ss1] Cons.prems(2) s1 show ?case by auto
qed simp


text \<open>
  A text that continues a line at position \<open>k\<close>: no line reaches \<open>lim\<close> characters (the CR counted) and
  none starts with a dot.  \<open>out_col\<close> is the position it leaves.
\<close>

fun line_ok :: "nat \<Rightarrow> nat \<Rightarrow> string \<Rightarrow> bool" where
  "line_ok lim k [] = True"
| "line_ok lim k (c # s) =
     (if c = LF then line_ok lim 0 s else k < lim \<and> (k = 0 \<longrightarrow> c \<noteq> CHR ''.'') \<and> line_ok lim (Suc k) s)"

fun out_col :: "nat \<Rightarrow> string \<Rightarrow> nat" where
  "out_col k [] = k"
| "out_col k (c # s) = (if c = LF then out_col 0 s else out_col (Suc k) s)"

definition seven_bit :: "char \<Rightarrow> bool" where
  "seven_bit c \<longleftrightarrow> ord c < 127 \<and> (32 \<le> ord c \<or> c \<in> {CR, LF, HT})"

lemma line_ok_append: "line_ok lim k (s @ t) \<longleftrightarrow> line_ok lim k s \<and> line_ok lim (out_col k s) t"
  by (induction lim k s rule: line_ok.induct) auto

lemma i2h_digit: "\<forall>n\<in>set [0..<16]. seven_bit (i2h n) \<and> i2h n \<noteq> LF"
  by code_simp

lemma and_15_less: "(n::nat) AND 15 < 16"
  using take_bit_eq_mask [of 4 n] by (simp add: take_bit_eq_mod mask_eq_exp_minus_1)

lemma qp_quote_ok:
  "length (qp_quote c) = 3" "\<forall>d\<in>set (qp_quote c). seven_bit d \<and> d \<noteq> LF" "hd (qp_quote c) = CHR ''=''"
proof -
  have "seven_bit (CHR ''='')" by code_simp
  then show "\<forall>d\<in>set (qp_quote c). seven_bit d \<and> d \<noteq> LF"
    using i2h_digit and_15_less [of "drop_bit 4 (ord c)"] and_15_less [of "ord c"] by (auto simp: qp_quote_def)
qed (simp_all add: qp_quote_def)

lemma plain_line:
  "LF \<notin> set s \<Longrightarrow> (s \<noteq> [] \<longrightarrow> k = 0 \<longrightarrow> hd s \<noteq> CHR ''.'') \<Longrightarrow> k + length s \<le> lim \<Longrightarrow>
     line_ok lim k s \<and> out_col k s = k + length s"
  by (induction s arbitrary: k) auto

lemma qp_quote_line: "k + 3 \<le> lim \<Longrightarrow> line_ok lim k (qp_quote c) \<and> out_col k (qp_quote c) = k + 3"
  using plain_line [of "qp_quote c" k lim] qp_quote_ok [of c] by auto

lemma qp_text_ok:
  assumes "0 \<le> k" "k \<le> 73"
  shows "line_ok 75 (nat k) (qp_text n k c) \<and> int (out_col (nat k) (qp_text n k c)) = qp_next n k c + 1 \<and>
    - 1 \<le> qp_next n k c \<and> qp_next n k c \<le> 72 \<and> (\<forall>d\<in>set (qp_text n k c). seven_bit d)"
proof -
  have b: "\<forall>d\<in>{CHR ''='', CR, LF}. seven_bit d" by code_simp
  have LFq: "\<not> qp_quoted n j LF" for j using b by (auto simp: qp_quoted_def seven_bit_def)
  have u: "seven_bit c" "j = 0 \<longrightarrow> c \<noteq> CHR ''.''" if "\<not> qp_quoted n j c" "c \<noteq> LF" for j
    using that by (auto simp: qp_quoted_def seven_bit_def)
  consider (brkq) "k > 70" "c \<noteq> LF" "qp_quoted n 0 c" | (brk) "k > 70" "c \<noteq> LF" "\<not> qp_quoted n 0 c"
    | (lf) "c = LF" | (q) "k \<le> 70" "qp_quoted n k c" "c \<noteq> LF" | (p) "k \<le> 70" "\<not> qp_quoted n k c" "c \<noteq> LF"
    by (cases "c = LF"; cases "k \<le> 70") (auto simp: not_le)
  then show ?thesis
  proof cases
    case brkq
    have e: "qp_text n k c = CHR ''='' # CR # LF # qp_quote c" "qp_next n k c = 2"
      using brkq by (simp_all add: qp_text_def qp_next_def qp_col_def)
    show ?thesis
      unfolding e using assms b qp_quote_line [of 0 75 c] qp_quote_ok(2) [of c] by (simp add: nat_less_iff)
  next
    case brk
    then show ?thesis using assms b u [OF brk(3,2)] by (auto simp: qp_text_def qp_next_def qp_col_def)
  next
    case lf
    then show ?thesis using assms b LFq by (auto simp: qp_text_def qp_next_def qp_col_def)
  next
    case q
    then show ?thesis
      using assms qp_quote_line [of "nat k" 75 c] qp_quote_ok(2) [of c] by (auto simp: qp_text_def qp_next_def qp_col_def)
  next
    case p
    then show ?thesis using assms u [OF p(2,3)] by (auto simp: qp_text_def qp_next_def qp_col_def)
  qed
qed

lemma qp_line_ok:
  "- 1 \<le> k \<Longrightarrow> k \<le> 72 \<Longrightarrow>
     line_ok 75 (nat (k + 1)) (qp_line k cs) \<and> (\<forall>d\<in>set (qp_line k cs). seven_bit d) \<and> - 1 \<le> qp_fin k cs \<and> qp_fin k cs \<le> 72"
proof (induction cs arbitrary: k)
  case (Cons c cs)
  let ?n = "Suc (length cs)"
  have t: "line_ok 75 (nat (k + 1)) (qp_text ?n (k + 1) c) \<and>
      int (out_col (nat (k + 1)) (qp_text ?n (k + 1) c)) = qp_next ?n (k + 1) c + 1 \<and>
      - 1 \<le> qp_next ?n (k + 1) c \<and> qp_next ?n (k + 1) c \<le> 72 \<and> (\<forall>d\<in>set (qp_text ?n (k + 1) c). seven_bit d)"
    using Cons.prems by (intro qp_text_ok) simp_all
  then have "out_col (nat (k + 1)) (qp_text ?n (k + 1) c) = nat (qp_next ?n (k + 1) c + 1)"
    by (metis nat_int)
  with t Cons.IH [of "qp_next ?n (k + 1) c"] show ?case by (auto simp: line_ok_append)
qed simp


text \<open>
  C21: Quoted-printable output is safe for transport.  In the encoding modes, on a connection that
  accepts everything and from a column between -1 and 72 (\<open>appendlet\<close> starts at -1), \<open>writemimeline\<close>
  sends only 7-bit characters without control characters other than CR, LF and HT, no line longer than
  75 characters (the CR included, within the 76 of the MIME limit), and no line that starts with a dot,
  so that no dot stuffing is needed; the column it leaves is again between -1 and 72.
\<close>

theorem qp_output_safe:
  assumes "mode = CONVERT_QP \<or> mode = CONVERT_UNKNOWN" "os_good (smtpfp ss)" "- 1 \<le> column ss" "column ss \<le> 72"
  shows "\<exists>ss' out. writemimeline ss (Some line) mode = (int (length line), ss') \<and>
    smtpfp ss' = os_app (smtpfp ss) out \<and> line_ok 75 (nat (column ss + 1)) out \<and> (\<forall>c\<in>set out. seven_bit c) \<and>
    - 1 \<le> column ss' \<and> column ss' \<le> 72"
  using writemimeline_qp [OF assms(1), of "ss\<lparr>lastch := - 1\<rparr>" line 0 0] assms(2) qp_line_ok [OF assms(3,4), of line]
  by (fastforce simp: writemimeline_def)

definition ss_example :: smtpstate where
  "ss_example = append_init \<lparr>ss_state = 1, column = 0, alarmcnt = 0, lastch = 0, hsize = 0, doing_chunking = False,
     smtpfp = os_new, remotemsg = [], gotalarm = False\<rparr>"

lemma ss_example_simps [simp]: "smtpfp ss_example = os_new" "column ss_example = - 1"
  by (simp_all add: ss_example_def append_init_def)

theorem qp_output_safe_witness:
  "\<exists>ss' out. writemimeline ss_example (Some ''.From=x'') CONVERT_QP = (7, ss') \<and> smtpfp ss' = os_app os_new out \<and>
    line_ok 75 0 out"
  using qp_output_safe [of CONVERT_QP ss_example "''.From=x''"] by auto

end
