(* ===== verification/DataPath.thy ===== *)
theory DataPath
  imports Smtpdata Appendlet
begin

text \<open>
  The two ends of an SMTP connection put together: what the client's \<open>writebuf\<close> and \<open>appendlet\<close> send is
  what the server's \<open>mvdata\<close> stores.  The byte codec of the prelude is interpreted twice, for DATA
  (\<open>writebuf\<close> against the state table) and for BDAT (CR LF line ends against \<open>mvbdata\<close>); the header loop
  is followed line by line.
\<close>

section \<open>DATA as a codec\<close>

text \<open>The states that correspond: at the start of a line, inside a line, and with a CR held back.\<close>

definition data_rel :: "int \<Rightarrow> nat \<Rightarrow> string \<Rightarrow> bool" where
  "data_rel e d p \<longleftrightarrow> (e = 1 \<and> d = 10 \<and> p = []) \<or> (e = 0 \<and> d = 0 \<and> p = []) \<or> (e = 0 \<and> d = 15 \<and> p = [CR])"

lemma data_rel_step:
  assumes "data_rel e d p" "wb_enc False e c = (e', w)"
  shows "\<exists>d' out p'. dec_run mv_dec d w = Some (d', out) \<and> p @ [c] = out @ p' \<and> data_rel e' d' p'"
proof -
  have dot: "CHR ''.'' \<noteq> CR" "CHR ''.'' \<noteq> LF" by simp_all
  consider "c = LF" | "c = CR" | "c = CHR ''.''" | "c \<notin> {LF, CR, CHR ''.''}" by blast
  then show ?thesis
    using assms by cases (auto simp: data_rel_def wb_enc_def mv_dec_def mv_step_table)
qed

interpretation datacodec: byte_codec "wb_enc False" mv_dec data_rel "\<lambda>c. True"
  by unfold_locales (rule data_rel_step)

section \<open>BDAT as a codec\<close>

text \<open>Text with CR LF line ends, and the BDAT filter that has not just read a CR.\<close>

definition crlf_enc :: "unit \<Rightarrow> char \<Rightarrow> unit \<times> string" where
  "crlf_enc u c = ((), if c = LF then [CR, LF] else [c])"

definition crlf :: "string \<Rightarrow> string" where
  "crlf s = concat (map (\<lambda>c. if c = LF then [CR, LF] else [c]) s)"

definition bdat_rel :: "unit \<Rightarrow> char option \<Rightarrow> string \<Rightarrow> bool" where
  "bdat_rel u d p \<longleftrightarrow> p = [] \<and> d \<noteq> Some CR"

interpretation bdatcodec: byte_codec crlf_enc mvb_dec bdat_rel "\<lambda>c. c \<noteq> CR"
  by unfold_locales (auto simp: bdat_rel_def crlf_enc_def mvb_dec_def mvb_step_def split: if_splits)

lemma crlf_run: "enc_run crlf_enc () s = ((), crlf s)"
  by (induction s) (auto simp: crlf_enc_def crlf_def)

text \<open>
  BDAT delivers text.  A message without CR, sent in one or more BDAT chunks with CR LF line ends,
  is stored exactly; the input behind the chunk is left alone.
\<close>

lemma bdat_roundtrip:
  assumes "CR \<notin> set m" "os_good f"
  shows "\<exists>st. mvbdata (length (crlf m)) (crlf m @ rest) None (Some f) 0 =
    (int (length (crlf m)), st, Some (os_app f m), rest)"
proof -
  have "list_all (\<lambda>c. c \<noteq> CR) m" using assms(1) by (auto simp: list_all_iff)
  from bdatcodec.codec_run [OF _ this crlf_run, of None "[]"] obtain st
    where "dec_run mvb_dec None (crlf m) = Some (st, m)" by (auto simp: bdat_rel_def)
  from mvbdata_run [OF this assms(2), of rest 0] show ?thesis by auto
qed

lemma bdat_roundtrip_witness:
  "\<exists>st. mvbdata 4 ([CHR ''a'', CR, LF, CHR ''b''] @ ''QUIT'') None (Some os_new) 0 =
     (4, st, Some (os_app os_new [CHR ''a'', LF, CHR ''b'']), ''QUIT'')"
  using bdat_roundtrip [of "[CHR ''a'', LF, CHR ''b'']" os_new "''QUIT''"] by (simp add: crlf_def numeral_eq_Suc)


section \<open>A line through the header loop\<close>

lemma wb_enc_no_LF: "LF \<notin> set l \<Longrightarrow> LF \<notin> set (snd (enc_run (wb_enc False) e l))"
proof (induction l arbitrary: e)
  case (Cons c l)
  obtain e1 w1 where w: "wb_enc False e c = (e1, w1)" by fastforce
  then have "LF \<notin> set w1" using Cons.prems by (auto simp: wb_enc_def split: if_splits)
  then show ?case using Cons.IH [of e1] Cons.prems w by (auto split: prod.split)
qed simp

lemma enc_line:
  assumes "LF \<notin> set l"
  obtains w where "enc_run (wb_enc False) 1 (l @ [LF]) = (1, w @ [CR, LF])" "LF \<notin> set w"
    "dec_run mv_dec 10 (w @ [CR]) = Some (15, l)"
proof -
  obtain e w where w: "enc_run (wb_enc False) 1 l = (e, w)" by fastforce
  have "data_rel 1 10 []" by (simp add: data_rel_def)
  from datacodec.codec_run [OF this _ w] obtain d out p
    where d: "dec_run mv_dec 10 w = Some (d, out)" "l = out @ p" "data_rel e d p"
    by (auto simp: list_all_iff)
  have "enc_run (wb_enc False) 1 (l @ [LF]) = (1, w @ [CR, LF])"
    by (simp add: enc_run_append w wb_enc_def)
  moreover have "LF \<notin> set w" using wb_enc_no_LF [OF assms, of 1] w by simp
  moreover have "dec_run mv_dec 10 (w @ [CR]) = Some (15, l)"
    using d by (auto simp: dec_run_append data_rel_def mv_dec_def mv_step_table)
  ultimately show ?thesis using that by blast
qed

lemma mvdata_headers_run:
  "dec_run mv_dec (h_state h) w = Some (st, out) \<Longrightarrow> LF \<notin> set w \<Longrightarrow>
     \<exists>b. \<forall>rest. mvdata_headers (w @ rest) h =
       mvdata_headers rest (h\<lparr>h_cnt := h_cnt h + int (length w), h_state := st,
         linebuf := fold linebuf_put out (linebuf h), has8bit := b\<rparr>)"
proof (induction w arbitrary: h out)
  case Nil
  then show ?case by (intro exI [of _ "has8bit h"]) auto
next
  case (Cons c w)
  obtain o1 st1 o2 where s: "mv_step (h_state h) (Some c) = Go o1 st1" "dec_run mv_dec st1 w = Some (st, o2)" "out = o1 @ o2"
    using Cons.prems(1) by (auto simp: mv_dec_Some split: option.splits)
  define g where "g = h\<lparr>h_cnt := h_cnt h + 1, h_state := st1, linebuf := fold linebuf_put o1 (linebuf h),
      has8bit := if o1 = [] then has8bit h else has8bit h \<or> ord c \<ge> 128\<rparr>"
  have 1: "mvdata_headers ((c # w) @ rest) h = mvdata_headers (w @ rest) g" for rest
    unfolding g_def using Cons.prems(2) mvdata_headers_Go [OF s(1), of "w @ rest"] by (auto simp: Let_def)
  from Cons.IH [of g o2] obtain b where 2: "mvdata_headers (w @ rest) g =
      mvdata_headers rest (g\<lparr>h_cnt := h_cnt g + int (length w), h_state := st,
         linebuf := fold linebuf_put o2 (linebuf g), has8bit := b\<rparr>)" for rest
    using s(2) Cons.prems(2) by (auto simp: g_def)
  have 3: "g\<lparr>h_cnt := h_cnt g + int (length w), h_state := st,
         linebuf := fold linebuf_put o2 (linebuf g), has8bit := b\<rparr> =
      h\<lparr>h_cnt := h_cnt h + int (length (c # w)), h_state := st,
         linebuf := fold linebuf_put out (linebuf h), has8bit := b\<rparr>"
    unfolding g_def s(3) by (cases h) simp
  show ?case by (intro exI [of _ b] allI) (simp only: 1 2 3)
qed

text \<open>
  A line arrives in the buffer as it was sent, cut to the 3999 characters that fit; a longer line
  loses its LF with the rest.
\<close>

lemma header_line:
  assumes h: "h_state h = 10" "linebuf h = []" and l: "LF \<notin> set l"
  obtains w b where "enc_run (wb_enc False) 1 (l @ [LF]) = (1, w)"
    "\<And>rest. mvdata_headers (w @ rest) h =
       (let g = h\<lparr>h_cnt := h_cnt h + int (length w), linebuf := take 3999 (l @ [LF]), has8bit := b\<rparr>
        in if snd (hdr_line g) then HBody (fst (hdr_line g)) rest else mvdata_headers rest (fst (hdr_line g)))"
proof -
  obtain w where w: "enc_run (wb_enc False) 1 (l @ [LF]) = (1, w @ [CR, LF])" "LF \<notin> set w"
      "dec_run mv_dec 10 (w @ [CR]) = Some (15, l)"
    using enc_line [OF l] by blast
  from mvdata_headers_run [of h "w @ [CR]" 15 l] w h(1) obtain b
    where b: "mvdata_headers ((w @ [CR]) @ rest) h =
      mvdata_headers rest (h\<lparr>h_cnt := h_cnt h + int (length (w @ [CR])), h_state := 15,
         linebuf := fold linebuf_put l (linebuf h), has8bit := b\<rparr>)" for rest
    by auto
  have put: "fold linebuf_put [LF] (fold linebuf_put l []) = take 3999 (l @ [LF])"
    using linebuf_put_take [of "[]" "l @ [LF]"] by (simp add: linebuf_size_def)
  have o: "\<not> 128 \<le> ord LF" by code_simp
  let ?h = "h\<lparr>h_cnt := h_cnt h + int (length (w @ [CR])), h_state := 15,
         linebuf := fold linebuf_put l (linebuf h), has8bit := b\<rparr>"
  let ?g = "h\<lparr>h_cnt := h_cnt h + int (length (w @ [CR, LF])), linebuf := take 3999 (l @ [LF]), has8bit := b\<rparr>"
  have st: "mv_step (h_state ?h) (Some LF) = Go [LF] 10" by (simp add: mv_step_table)
  have g: "?h\<lparr>h_cnt := h_cnt ?h + 1, h_state := 10, linebuf := fold linebuf_put [LF] (linebuf ?h),
      has8bit := has8bit ?h \<or> 128 \<le> ord LF\<rparr> = ?g"
    using put o h by (cases h) simp
  have "mvdata_headers ((w @ [CR, LF]) @ rest) h =
      (if snd (hdr_line ?g) then HBody (fst (hdr_line ?g)) rest else mvdata_headers rest (fst (hdr_line ?g)))" for rest
    using b [of "LF # rest"] unfolding mvdata_headers_Go [OF st] Let_def g by simp
  then show ?thesis using that [OF w(1), of b] unfolding Let_def by blast
qed


section \<open>A message through the connection\<close>

text \<open>A text as its lines, each ended by LF.\<close>

definition unlines :: "string list \<Rightarrow> string" where
  "unlines ls = concat (map (\<lambda>l. l @ [LF]) ls)"

lemma unlines_simps [simp]: "unlines [] = []" "unlines (l # ls) = l @ LF # unlines ls"
  by (simp_all add: unlines_def)

text \<open>
  The messages whose headers the server passes on unchanged: up to the first blank line, no line is
  longer than the buffer, the first one is not a mailbox \<open>From \<close> line, and there is no \<open>Precedence:\<close>
  header with a value of less than four characters (its LF included).  The body is arbitrary.
\<close>

definition short_precedence :: "string \<Rightarrow> bool" where
  "short_precedence s \<longleftrightarrow> CISTREQN s ''Precedence:'' 11 \<and> length (skip_space (drop 11 s)) < 4"

definition from_line :: "string \<Rightarrow> bool" where
  "from_line s \<longleftrightarrow> take 5 s = ''From '' \<or> take 6 s = ''>From ''"

fun clean_headers :: "bool \<Rightarrow> string list \<Rightarrow> bool" where
  "clean_headers first [] = True"
| "clean_headers first (l # ls) =
     (length l < 3999 \<and>
      (list_all is_blank l \<or>
       \<not> short_precedence (l @ [LF]) \<and> \<not> (first \<and> from_line (l @ [LF])) \<and> clean_headers False ls))"

lemma hdr_line_clean:
  assumes "linebuf h = s" "\<not> list_all is_blank s" "\<not> short_precedence s" "\<not> (linecnt h = 0 \<and> from_line s)"
    and "os_good (h_mfp h)" "linecnt h \<ge> 0"
  shows "\<not> snd (hdr_line h) \<and> linebuf (fst (hdr_line h)) = [] \<and> h_mfp (fst (hdr_line h)) = os_app (h_mfp h) s \<and>
    linecnt (fst (hdr_line h)) = linecnt h + 1"
proof -
  let ?k = "hdr_note (h\<lparr>linecnt := linecnt h + 1\<rparr>)"
  have f: "\<not> (linecnt ?k = 1 \<and> (take 5 (linebuf ?k) = ''From '' \<or> take 6 (linebuf ?k) = ''>From ''))"
    using assms(1,4) by (simp add: from_line_def)
  have p: "\<not> (CISTREQN (linebuf ?k) ''Precedence:'' 11 \<and> length (skip_space (drop 11 (linebuf ?k))) < 4)"
    using assms(1,3) by (simp add: short_precedence_def)
  have t: "hdr_tail ?k = write_line (if CISTREQN (linebuf ?k) ''Precedence:'' 11
      then ?k\<lparr>mail_priority := hdr_priority (skip_space (drop 11 (linebuf ?k))) (mail_priority ?k)\<rparr> else ?k)"
    unfolding hdr_tail_def Let_def if_not_P [OF p] using f by (auto simp only: if_False if_True split: if_split) auto
  have w: "linebuf (write_line k) = []" "h_mfp (write_line k) = fwrite (linebuf k) (h_mfp k)"
      "linecnt (write_line k) = linecnt k" for k
    by (simp_all add: write_line_def)
  have "linebuf (hdr_tail ?k) = [] \<and> h_mfp (hdr_tail ?k) = os_app (h_mfp h) s \<and> linecnt (hdr_tail ?k) = linecnt h + 1"
    unfolding t w using assms(1,5) by simp
  moreover have "linebuf (write_line (h\<lparr>linecnt := linecnt h + 1\<rparr>)) = [] \<and>
      h_mfp (write_line (h\<lparr>linecnt := linecnt h + 1\<rparr>)) = os_app (h_mfp h) s \<and>
      linecnt (write_line (h\<lparr>linecnt := linecnt h + 1\<rparr>)) = linecnt h + 1"
    unfolding w using assms(1,5) by simp
  ultimately show ?thesis using assms(1,2) by (simp add: hdr_line_def Let_def)
qed

lemma hdr_line_blank:
  assumes "linebuf h = s" "list_all is_blank s" "s \<noteq> []" "os_good (h_mfp h)"
  shows "snd (hdr_line h) \<and> h_mfp (fst (hdr_line h)) = os_app (h_mfp h) s"
  using assms by (simp add: hdr_line_def)

text \<open>The body: any text that ends in LF, followed by the dot.\<close>

definition dot_crlf :: string where
  "dot_crlf = [CHR ''.'', CR, LF]"

lemma wire_run:
  assumes "enc_run (wb_enc False) 1 t = (e, w)" "t = [] \<or> last t = LF"
  shows "dec_run mv_dec 10 w = Some (10, t)"
proof -
  have "data_rel 1 10 []" by (simp add: data_rel_def)
  from datacodec.codec_run [OF this _ assms(1)] obtain d out p
    where d: "dec_run mv_dec 10 w = Some (d, out)" "t = out @ p" "data_rel e d p"
    by (auto simp: list_all_iff)
  have "e = 1"
  proof (cases t rule: rev_cases)
    case Nil
    then show ?thesis using assms(1) by simp
  next
    case (snoc t' c)
    then have "c = LF" using assms(2) by simp
    then show ?thesis using assms(1) snoc by (auto simp: enc_run_append wb_enc_def split: prod.splits)
  qed
  with d show ?thesis by (auto simp: data_rel_def)
qed

lemma body_text:
  assumes "enc_run (wb_enc False) 1 t = (e, w)" "t = [] \<or> last t = LF" "os_good f"
  shows "mvdata_body 10 (w @ dot_crlf @ rest) cnt f = (cnt + int (length w) + 3, os_app f t, rest)"
proof -
  have "mvdata_body 10 (w @ dot_crlf @ rest) cnt f = mvdata_body 10 (dot_crlf @ rest) (cnt + int (length w)) (os_app f t)"
    using mvdata_body_run [OF wire_run [OF assms(1,2)] assms(3), of "dot_crlf @ rest" cnt] by simp
  moreover have "mvdata_body 10 (dot_crlf @ rest) c g = (c + 3, g, rest)" for c g
    by (simp add: dot_crlf_def mv_step_table)
  ultimately show ?thesis by simp
qed

lemma unlines_ended: "unlines ls = [] \<or> last (unlines ls) = LF"
proof (cases ls rule: rev_cases)
  case (snoc ls' l)
  then have "unlines ls = (unlines ls' @ l) @ [LF]" by (simp add: unlines_def)
  then show ?thesis by simp
qed simp

definition finish :: "hdrresult \<Rightarrow> int \<times> ostream \<times> string" where
  "finish r =
     (case r of
        HEof h \<Rightarrow> (- 1, h_mfp h, [])
      | HEnd h rest \<Rightarrow> (h_cnt h, h_mfp h, rest)
      | HBody h rest \<Rightarrow> mvdata_body (h_state h) rest (h_cnt h) (h_mfp h))"

lemma mvdata_finish:
  "(mv_cnt (mvdata i p f), mv_mfp (mvdata i p f), mv_rest (mvdata i p f)) = finish (mvdata_headers i (hdr_init p f))"
  by (auto simp: mvdata_def finish_def split: hdrresult.split prod.split)

lemma headers_message:
  "clean_headers (linecnt h = 0) ls \<Longrightarrow> \<forall>l\<in>set ls. LF \<notin> set l \<Longrightarrow> h_state h = 10 \<Longrightarrow> linebuf h = [] \<Longrightarrow>
     os_good (h_mfp h) \<Longrightarrow> linecnt h \<ge> 0 \<Longrightarrow> enc_run (wb_enc False) 1 (unlines ls) = (e, w) \<Longrightarrow>
     finish (mvdata_headers (w @ dot_crlf @ rest) h) =
       (h_cnt h + int (length w) + 3, os_app (h_mfp h) (unlines ls), rest)"
proof (induction ls arbitrary: h w)
  case Nil
  then show ?case by (simp add: dot_crlf_def mv_step_table finish_def Let_def)
next
  case (Cons l ls)
  have "LF \<notin> set l" using Cons.prems(2) by simp
  from header_line [OF Cons.prems(3,4) this] obtain w1 b where w1: "enc_run (wb_enc False) 1 (l @ [LF]) = (1, w1)"
      "\<And>rest. mvdata_headers (w1 @ rest) h =
        (let g = h\<lparr>h_cnt := h_cnt h + int (length w1), linebuf := take 3999 (l @ [LF]), has8bit := b\<rparr>
         in if snd (hdr_line g) then HBody (fst (hdr_line g)) rest else mvdata_headers rest (fst (hdr_line g)))"
    by blast
  obtain w2 where w2: "enc_run (wb_enc False) 1 (unlines ls) = (e, w2)" "w = w1 @ w2"
    using Cons.prems(7) w1(1) enc_run_append [of "wb_enc False" 1 "l @ [LF]" "unlines ls"] by (auto split: prod.splits)
  have "length (l @ [LF]) \<le> 3999" using Cons.prems(1) by simp
  then have len: "take 3999 (l @ [LF]) = l @ [LF]" by (rule take_all)
  define g where "g = h\<lparr>h_cnt := h_cnt h + int (length w1), linebuf := l @ [LF], has8bit := b\<rparr>"
  have m: "mvdata_headers (w @ dot_crlf @ rest) h =
      (if snd (hdr_line g) then HBody (fst (hdr_line g)) (w2 @ dot_crlf @ rest)
       else mvdata_headers (w2 @ dot_crlf @ rest) (fst (hdr_line g)))"
    using w1(2) [of "w2 @ dot_crlf @ rest"] unfolding w2(2) len g_def Let_def by simp
  have g: "linebuf g = l @ [LF]" "os_good (h_mfp g)" "linecnt g = linecnt h" "h_mfp g = h_mfp h"
      "h_state (fst (hdr_line g)) = 10" "h_cnt (fst (hdr_line g)) = h_cnt h + int (length w1)"
    using Cons.prems(3,5) by (simp_all add: g_def)
  have bl: "list_all is_blank (l @ [LF]) = list_all is_blank l" by (simp add: is_blank_def)
  show ?case
  proof (cases "list_all is_blank l")
    case True
    from hdr_line_blank [OF g(1) _ _ g(2)] True bl
    have "snd (hdr_line g)" "h_mfp (fst (hdr_line g)) = os_app (h_mfp h) (l @ [LF])" using g(4) by auto
    then show ?thesis
      using g m body_text [OF w2(1) unlines_ended, of "os_app (h_mfp h) (l @ [LF])" rest "h_cnt h + int (length w1)"] Cons.prems(5)
      by (simp add: finish_def w2(2))
  next
    case False
    have c: "\<not> snd (hdr_line g) \<and> linebuf (fst (hdr_line g)) = [] \<and>
        h_mfp (fst (hdr_line g)) = os_app (h_mfp g) (l @ [LF]) \<and> linecnt (fst (hdr_line g)) = linecnt g + 1"
      using Cons.prems(1,6) False bl g by (intro hdr_line_clean) auto
    have "finish (mvdata_headers (w2 @ dot_crlf @ rest) (fst (hdr_line g))) =
        (h_cnt (fst (hdr_line g)) + int (length w2) + 3, os_app (h_mfp (fst (hdr_line g))) (unlines ls), rest)"
      using Cons.prems(1,2,5,6) False c g by (intro Cons.IH [OF _ _ _ _ _ _ w2(1)]) auto
    then show ?thesis using c g m by (simp add: w2(2))
  qed
qed

lemma mvdata_message:
  assumes "clean_headers True ls" "\<forall>l\<in>set ls. LF \<notin> set l" "os_good f"
    and "enc_run (wb_enc False) 1 (unlines ls) = (e, w)"
  shows "mv_cnt (mvdata (w @ dot_crlf @ rest) policy f) = int (length w) + 3 \<and>
    mv_mfp (mvdata (w @ dot_crlf @ rest) policy f) = os_app f (unlines ls) \<and>
    mv_rest (mvdata (w @ dot_crlf @ rest) policy f) = rest"
  using headers_message [of "hdr_init policy f" ls e w rest] mvdata_finish [of "w @ dot_crlf @ rest" policy f] assms
  by (simp add: hdr_init_def)


section \<open>Properties\<close>

text \<open>
  C5: A message survives the DATA exchange.  Whatever its bytes, a message of LF-terminated lines whose
  header lines fit the server's buffer, do not start with a mailbox \<open>From \<close> line and have no truncated
  \<open>Precedence:\<close> value is stored by \<open>mvdata\<close> exactly as it was given to \<open>writebuf\<close>, when the client
  follows it with the dot; the server stops reading right behind the dot and reports the bytes it read.
  Lines that start with a dot, bare CRs, 8-bit bytes and lines consisting of a dot are all covered.
\<close>

theorem smtp_message_roundtrip:
  assumes "ss_good ss" "os_out (smtpfp ss) = []" "ss_state ss = 1" "\<not> doing_chunking ss" "os_good f"
    and "\<forall>l\<in>set ls. LF \<notin> set l" "clean_headers True ls"
  shows "\<exists>w ss'. writebuf ss (unlines ls) = (int (length (unlines ls)), ss') \<and> os_out (smtpfp ss') = w \<and>
    os_out (mv_mfp (mvdata (w @ dot_crlf @ rest) policy f)) = os_out f @ unlines ls \<and>
    mv_rest (mvdata (w @ dot_crlf @ rest) policy f) = rest \<and>
    mv_cnt (mvdata (w @ dot_crlf @ rest) policy f) = int (length w) + 3"
proof -
  obtain e w where w: "enc_run (wb_enc False) 1 (unlines ls) = (e, w)" by fastforce
  with writebuf_good [OF assms(1), of "unlines ls" e w] assms(2-4) obtain ss'
    where "writebuf ss (unlines ls) = (int (length (unlines ls)), ss')" "os_out (smtpfp ss') = w" by auto
  then show ?thesis
    using mvdata_message [OF assms(7,6,5) w, of rest policy] by auto
qed

text \<open>A fresh connection, for the witnesses.\<close>

definition ss_new :: smtpstate where
  "ss_new = \<lparr>ss_state = 1, column = - 1, alarmcnt = ALARM_BLOCKSIZE, lastch = 10, hsize = 0, doing_chunking = False,
     smtpfp = os_new, remotemsg = [], gotalarm = False\<rparr>"

lemma ss_new_simps [simp]:
  "ss_good ss_new" "smtpfp ss_new = os_new" "ss_state ss_new = 1" "doing_chunking ss_new = False"
  by (simp_all add: ss_new_def ss_good_def)

definition example_lines :: "string list" where
  "example_lines = [''Subject: dots'', [], ''.'', ''..x'', ''end'']"

lemma example_lines_clean: "\<forall>l\<in>set example_lines. LF \<notin> set l" "clean_headers True example_lines"
  by code_simp+

theorem smtp_message_roundtrip_witness:
  "\<exists>w ss'. writebuf ss_new (unlines example_lines) = (int (length (unlines example_lines)), ss') \<and> os_out (smtpfp ss') = w \<and>
    os_out (mv_mfp (mvdata (w @ dot_crlf @ ''QUIT'') 0 os_new)) = unlines example_lines \<and>
    mv_rest (mvdata (w @ dot_crlf @ ''QUIT'') 0 os_new) = ''QUIT''"
  using smtp_message_roundtrip [of ss_new os_new example_lines "''QUIT''" 0] example_lines_clean by auto

text \<open>
  C17: Any body is delivered.  Read in blocks (whatever their sizes, with interrupted reads in between)
  or from the mapped file, \<open>appendlet\<close> without conversion sends a text from which the server's body loop
  restores exactly the spooled body, with an LF added when it does not end in one, and the loop stops
  right behind the final dot.
\<close>

theorem appendlet_body_delivered:
  assumes "os_good (smtpfp ss)" "os_out (smtpfp ss) = []" "\<not> doing_chunking ss" "rd_ok reads" "os_good f"
  shows "(\<exists>ss'. appendlet_read ss CONVERT_NONE None reads bufsz body failed = (None, ss') \<and>
      mvdata_body 10 (os_out (smtpfp ss') @ dot_crlf @ rest) cnt f =
        (cnt + int (length (os_out (smtpfp ss'))) + 3, os_app f (with_lf True (rd_text reads)), rest)) \<and>
    (\<exists>ss'. appendlet_mmap ss CONVERT_NONE before (rd_text reads) after = (None, ss') \<and>
      mvdata_body 10 (os_out (smtpfp ss') @ dot_crlf @ rest) cnt f =
        (cnt + int (length (os_out (smtpfp ss'))) + 3, os_app f (with_lf (before = LF) (rd_text reads)), rest))"
proof -
  have w: "with_lf b t = [] \<or> last (with_lf b t) = LF" for b t
    by (simp add: with_lf_def ended_def)
  obtain e1 w1 where 1: "enc_run (wb_enc False) 1 (with_lf True (rd_text reads)) = (e1, w1)" by fastforce
  obtain e2 w2 where 2: "enc_run (wb_enc False) 1 (with_lf (before = LF) (rd_text reads)) = (e2, w2)" by fastforce
  show ?thesis
    using appendlet_read_good [OF assms(1,3,4) 1, of bufsz body failed] appendlet_mmap_good [OF assms(1,3) 2, of after]
      body_text [OF 1 w assms(5), of rest cnt] body_text [OF 2 w assms(5), of rest cnt] assms(2)
    by (auto simp del: mvdata_body.simps)
qed

theorem appendlet_body_delivered_witness:
  "\<exists>ss'. appendlet_read ss_new CONVERT_NONE None [RdData ''.a'', RdAgain, RdData ''b''] 1024 [] False = (None, ss') \<and>
     os_out (fst (snd (mvdata_body 10 (os_out (smtpfp ss') @ dot_crlf @ ''QUIT'') 0 os_new))) = ''.ab'' @ [LF]"
  using appendlet_body_delivered [of ss_new "[RdData ''.a'', RdAgain, RdData ''b'']" os_new 1024 "[]" False "''QUIT''" 0 LF LF]
  by (auto simp: with_lf_def ended_def simp del: mvdata_body.simps)

end
