(* ===== verification/Delivery.thy ===== *)
theory Delivery
  imports Transaction DataPath
begin

text \<open>
  A message from the client's spool file to the server's queue: the session of the server put together with the client
  side of the data phase.
\<close>

section \<open>The data phase of the session\<close>

lemma data_ended_run: "dec_run mv_dec st w = Some (st', out) \<Longrightarrow> data_ended st (w @ v) = data_ended st' v"
proof (induction w arbitrary: st out)
  case (Cons c w)
  then obtain o1 st1 o2 where "mv_step st (Some c) = Go o1 st1" "dec_run mv_dec st1 w = Some (st', o2)"
    by (auto simp: mv_dec_Some split: option.splits)
  then show ?case using Cons.IH by simp
qed simp

lemma data_ended_message:
  assumes "enc_run (wb_enc False) 1 (unlines ls) = (e, w)"
  shows "data_ended 10 (w @ dot_crlf @ rest)"
  unfolding data_ended_run [OF wire_run [OF assms unlines_ended]] by (simp add: dot_crlf_def mv_step_table)

lemma find_DATA: "find_command ''DATA'' = Some Data"
  by code_simp

lemma smtp_line_DATA:
  assumes "turned_away cfg SS Data = None"
  shows "smtp_line cfg an ''DATA'' SS = smtp_data cfg an [] SS"
proof -
  have "dropWhile (\<lambda>c. \<not> blank c) ''DATA'' = []" by (simp add: blank_def)
  moreover have "\<not> refused cfg Data" by (simp add: refused_def)
  ultimately show ?thesis using assms by (simp add: smtp_line_def find_DATA smtp_switch_def)
qed

lemma data_message_accepted:
  assumes "os_good f" "clean_headers True ls" "\<forall>l\<in>set ls. LF \<notin> set l" "enc_run (wb_enc False) 1 (unlines ls) = (e, w)"
    and "an_input an = w @ dot_crlf @ rest" "an_space an = Some n" "n \<ge> 0" "maxsize cfg > 0 \<longrightarrow> int (length w) + 3 \<le> maxsize cfg"
    and "fst (an_content an) = 0" "an_close an"
  shows "\<exists>SS'. data_message cfg an SS f =
    (SS', Type 354 # Commit (os_out f @ ''env-end'' @ [LF] @ msa_comment cfg SS @ unlines ls) # replies cfg SS (content_code an 250), True) \<and>
    SmtpState.ss_state SS' = MailOrHello \<and> ss_mfp SS' = None"
proof -
  let ?f = "fwrite (''env-end'' @ [LF] @ msa_comment cfg SS) f"
  have g: "os_good ?f" "os_out ?f = os_out f @ ''env-end'' @ [LF] @ msa_comment cfg SS" using assms(1) by simp_all
  let ?mv = "mvdata (an_input an) (ss_policyresult SS) ?f"
  have m: "mv_cnt ?mv = int (length w) + 3" "mv_mfp ?mv = os_app ?f (unlines ls)"
    using mvdata_message [OF assms(2,3) g(1) assms(4), of rest "ss_policyresult SS"] assms(5) by simp_all
  have d: "data_ended 10 (an_input an)" using data_ended_message [OF assms(4)] assms(5) by simp
  have e: "\<not> os_err (os_app ?f (unlines ls))" "os_out (os_app ?f (unlines ls)) = os_out f @ ''env-end'' @ [LF] @ msa_comment cfg SS @ unlines ls"
    using g by (simp_all add: os_good_def os_app_def)
  have "\<not> (maxsize cfg > 0 \<and> int (length w) + 3 > maxsize cfg)" using assms(8) by auto
  then show ?thesis
    unfolding data_message_def m Let_def using d e assms(6,7,9,10)
    by (auto simp: dispose_def replies_def simp del: data_ended.simps)
qed

section \<open>The message in the queue\<close>



end
