(* ===== verification/Replies.thy ===== *)
theory Replies
  imports Transaction
begin

text \<open>
  The replies of the SMTP server: every command line gets its final reply, and a message gets as many as the protocol
  asks for, so that client and server agree on which reply belongs to which command.
\<close>

section \<open>The codes of the replies\<close>

fun codes :: "event list \<Rightarrow> int list" where
  "codes [] = []"
| "codes (Type n # evs) = n # codes evs"
| "codes (e # evs) = codes evs"

lemma codes_append [simp]: "codes (xs @ ys) = codes xs @ codes ys"
  by (induction xs rule: codes.induct) auto

lemma codes_replicate [simp]: "codes (replicate k (Type n)) = replicate k n"
  by (induction k) auto

lemma codes_abort_if [simp]: "codes (snd (abort_if SS)) = []"
  by (simp add: abort_if_def)

definition single :: "result \<Rightarrow> bool" where
  "single r \<longleftrightarrow> holds (\<lambda>SS' evs. length (codes evs) = 1) r"

lemma single_simps [simp]:
  "single (done_with SS evs) \<longleftrightarrow> length (codes evs) = 1" "single (Inl e)" "single (Inr (SS, evs)) \<longleftrightarrow> length (codes evs) = 1"
  by (simp_all add: single_def)

lemma single_Inr: "single (Inr r) \<longleftrightarrow> length (codes (snd r)) = 1"
  by (simp add: single_def holds_Inr)

lemma smtp_helo_single: "single (smtp_helo cfg an cmd buf cp SS)"
  by (simp add: smtp_helo_def Let_def abort_if_def split: routed.split option.split)

lemma mail_store_single: "single (Inr (mail_store cfg an SS f addr m r))"
  by (simp add: mail_store_def Let_def split: option.split)

lemma smtp_mail_single: "single (smtp_mail cfg an cp SS)"
  using mail_store_single
  by (simp add: smtp_mail_def mail_args_def mail_accept_def Let_def split: outcome.split prod.split sum.split option.split)

lemma rcpt_store_single: "single (Inr (rcpt_store cfg SS f addr q r))"
  by (simp add: rcpt_store_def Let_def split: option.split)

lemma smtp_rcpt_single: "single (smtp_rcpt cfg an cp SS)"
  using rcpt_store_single
  by (simp add: smtp_rcpt_def rcpt_args_def rcpt_accept_def Let_def split: outcome.split prod.split sum.split option.split)

text \<open>The replies to a message: one, or in LMTP mode one for each accepted recipient.\<close>

definition reply_count :: "server \<Rightarrow> SmtpState \<Rightarrow> nat" where
  "reply_count cfg SS = (if lmtp_mode cfg then ss_ok_rcpt_count SS else 1)"

lemma codes_replies:
  "1 \<le> ss_ok_rcpt_count SS \<Longrightarrow> codes (replies cfg SS n) = replicate (reply_count cfg SS) n"
  by (cases "ss_ok_rcpt_count SS") (auto simp: replies_def reply_count_def)

lemma replies_cong: "ss_ok_rcpt_count SS = ss_ok_rcpt_count SS' \<Longrightarrow> replies cfg SS n = replies cfg SS' n"
  by (simp add: replies_def)

lemma codes_dispose:
  "1 \<le> ss_ok_rcpt_count SS \<Longrightarrow> \<not> (bdat \<and> lmtp_mode cfg) \<Longrightarrow> \<exists>n. codes (dispose cfg an SS f bdat ok) = replicate (reply_count cfg SS) n"
  by (auto simp: dispose_def Let_def codes_replies)

lemma codes_data_message:
  assumes "1 \<le> ss_ok_rcpt_count SS" "data_message cfg an SS f = (SS', evs, True)"
  shows "\<exists>n. codes evs = 354 # replicate (reply_count cfg SS) n"
proof -
  define avail where "avail = (case an_space an of None \<Rightarrow> ss_availspace SS | Some n \<Rightarrow> n)"
  define mv where "mv = mvdata (an_input an) (ss_policyresult SS) (fwrite (''env-end'' @ [LF] @ msa_comment cfg SS) f)"
  define S1 where "S1 = SS\<lparr>ss_mfp := None, ss_messagesize := mv_cnt mv, ss_policyresult := mv_policy mv, ss_availspace := avail\<rparr>"
  have S1: "1 \<le> ss_ok_rcpt_count S1" "reply_count cfg S1 = reply_count cfg SS" using assms(1) by (simp_all add: S1_def reply_count_def)
  show ?thesis
    using assms(2) codes_dispose [OF S1(1), of False cfg an "mv_mfp mv" "content_code an 250"] codes_replies [OF S1(1)] S1(2)
    unfolding data_message_def avail_def [symmetric] mv_def [symmetric] Let_def S1_def [symmetric]
    by (auto split: if_splits)
qed

lemma codes_smtp_data:
  assumes "session_ok SS" "smtp_data cfg an cp SS = Inr (SS', evs, True)"
  shows "length (codes evs) = 1 \<or> (\<exists>n. codes evs = 354 # replicate (reply_count cfg SS) n)"
proof (cases "ss_state SS = RecipientOrData \<and> data_message cfg an SS (the (ss_mfp SS)) = (SS', evs, True)")
  case True
  then have "1 \<le> ss_ok_rcpt_count SS" using assms(1) by (simp add: session_ok_def)
  then show ?thesis using codes_data_message True by blast
next
  case False
  then show ?thesis
    using assms(2) by (auto simp: smtp_data_def Let_def abort_if_def split: if_splits option.splits)
qed

lemma codes_smtp_bdata:
  assumes "session_ok SS" "\<not> lmtp_mode cfg" "smtp_bdata cfg an cp SS = Inr (SS', evs, True)"
  shows "length (codes evs) = 1"
proof -
  have r: "length (codes (bdat_replies cfg S fin n)) = 1" for S fin n
    using assms(2) by (simp add: bdat_replies_def replies_def)
  have d: "length (codes (dispose cfg an S f True n)) = 1" for S f n
    using assms(2) by (simp add: dispose_def replies_def Let_def)
  have c: "length (codes evs) = 1" if "bdat_chunk cfg an fin S f eof = (SS', evs, True)" for fin S f eof
    using that r d by (auto simp: bdat_chunk_def Let_def split: if_splits)
  have "length (codes evs) = 1" if "bdat_finish cfg an fin eof S = Inr (SS', evs, True)" for fin eof S
    using that r c by (auto simp: bdat_finish_def Let_def abort_if_def split: if_splits option.splits)
  then show ?thesis using assms(3) by (auto simp: smtp_bdata_def Let_def split: option.splits)
qed

lemma codes_go_on: "single r \<Longrightarrow> go_on r = Inr (SS', evs, True) \<Longrightarrow> length (codes evs) = 1"
  by (auto simp: go_on_def single_def holds_def split: sum.splits prod.splits)

lemma codes_unknown: "unknown_command cfg SS = Inr (SS', evs, True) \<Longrightarrow> length (codes evs) = 1"
  by (auto simp: unknown_command_def end_session_def abort_if_def Let_def split: if_splits)

lemma codes_smtp_switch:
  assumes "session_ok SS" "smtp_switch cfg an cmd buf cp SS = Inr (SS', evs, True)" "cmd \<noteq> Silent" "cmd = BData \<longrightarrow> \<not> lmtp_mode cfg"
  shows "length (codes evs) = 1 \<or> cmd = Data \<and> (\<exists>n. codes evs = 354 # replicate (reply_count cfg SS) n)"
proof -
  have h: "length (codes evs) = 1" if "go_on (smtp_helo cfg an cmd buf cp SS) = Inr (SS', evs, True)"
    using codes_go_on [OF smtp_helo_single that] .
  have m: "length (codes evs) = 1" if "go_on (smtp_mail cfg an cp SS) = Inr (SS', evs, True)"
    using codes_go_on [OF smtp_mail_single that] .
  have r: "length (codes evs) = 1" if "go_on (smtp_rcpt cfg an cp SS) = Inr (SS', evs, True)"
    using codes_go_on [OF smtp_rcpt_single that] .
  have s: "single (Inr (smtp_rset cfg cp SS))" by (simp add: smtp_rset_def abort_if_def)
  have q: "end_session SS n \<noteq> Inr (SS', evs, True)" for n by (simp add: end_session_def abort_if_def)
  show ?thesis
    using assms(2-4) h m r codes_go_on [OF s] codes_smtp_data [OF assms(1)] codes_smtp_bdata [OF assms(1)] codes_unknown q
    unfolding smtp_switch_def by (auto split: if_splits)
qed

section \<open>Properties\<close>


lemma after_rcpt_goes_on: "case smtp_line cfg0 an0 ''DATA'' after_rcpt of Inl _ \<Rightarrow> False | Inr (SS', evs, b) \<Rightarrow> b"
  by code_simp


end
