(* ===== verification/Mailfile.thy ===== *)
theory Mailfile
  imports Session
begin

text \<open>
  The files of the messages under way, \<^verbatim>\<open>libc/mail.c\<close>: a message is written to a file of its own in the public directory and
  then renamed into a directory of the router.  A file system is the names with their inodes and the contents of the
  inodes; what the system calls answer is an argument.
\<close>

section \<open>File system and process\<close>

record fs =
  names :: "string \<Rightarrow> nat option"
  contents :: "nat \<Rightarrow> string"
  isdir :: "string \<Rightarrow> bool"

text \<open>The static variables: the name and the type of the message on each descriptor, and the remembered hash setting.\<close>

record mproc =
  mail_file :: "string option list"
  mail_type :: "string option list"
  routersubdirhash :: int

definition mproc_new :: mproc where
  "mproc_new = \<lparr>mail_file = [], mail_type = [], routersubdirhash = - 1\<rparr>"

definition PUBLICDIR :: string where "PUBLICDIR = ''public''"
definition ROUTERDIR :: string where "ROUTERDIR = ''router''"
definition SUFFIXCHARS :: string where "SUFFIXCHARS = '' abcdefghijklmnopqrstuvwxyz''"

text \<open>
  \<open>rename\<close> succeeds, or is busy or interrupted (then the target is unlinked, which may fail too), or fails otherwise.
  Two names of the same inode are left alone.
\<close>

datatype ren = RenDone | RenBusy bool | RenFailed

definition rename_fs :: "string \<Rightarrow> string \<Rightarrow> fs \<Rightarrow> (bool \<times> fs)" where
  "rename_fs from to F =
     (case names F from of
        None \<Rightarrow> (False, F)
      | Some i \<Rightarrow> (True, if names F to = Some i then F else F\<lparr>names := (names F)(from := None, to := Some i)\<rparr>))"

text \<open>The loop ends at the first call that is not busy; \<open>None\<close> says that there was none.\<close>

fun eqrename :: "ren list \<Rightarrow> string \<Rightarrow> string \<Rightarrow> fs \<Rightarrow> (bool \<times> fs) option" where
  "eqrename [] from to F = None"
| "eqrename (RenDone # rs) from to F = Some (rename_fs from to F)"
| "eqrename (RenFailed # rs) from to F = Some (False, F)"
| "eqrename (RenBusy u # rs) from to F =
     eqrename rs from to (if u then F\<lparr>names := (names F)(to := None)\<rparr> else F)"

section \<open>Opening\<close>

text \<open>The names that are tried for a template: the first percent sign is replaced by each suffix, the blank by nothing.\<close>

definition candidates :: "string \<Rightarrow> string list" where
  "candidates name =
     (let pre = takeWhile (\<lambda>c. c \<noteq> CHR ''%'') name; rest = dropWhile (\<lambda>c. c \<noteq> CHR ''%'') name
      in map (\<lambda>c. if rest = [] then name else pre @ (if c = CHR '' '' then [] else [c]) @ tl rest) SUFFIXCHARS)"

text \<open>
  \<open>open\<close> with \<open>O_CREAT|O_EXCL\<close>: a name that exists is refused; otherwise the answer is a descriptor and a new inode, or a failure.
\<close>

fun fopen_loop :: "string list \<Rightarrow> (nat \<times> nat) option list \<Rightarrow> fs \<Rightarrow> (string \<times> nat \<times> nat) option \<times> fs" where
  "fopen_loop (path # ps) (a # as) F =
     (case (if names F path = None then a else None) of
        None \<Rightarrow> fopen_loop ps as F
      | Some (fd, ino) \<Rightarrow>
          (Some (path, fd, ino), F\<lparr>names := (names F)(path := Some ino), contents := (contents F)(ino := [])\<rparr>))"
| "fopen_loop _ _ F = (None, F)"

definition mail_fopen :: "string \<Rightarrow> string \<Rightarrow> (nat \<times> nat) option list \<Rightarrow> bool \<Rightarrow> fs \<Rightarrow> (string \<times> nat \<times> nat) option \<times> fs" where
  "mail_fopen postoffice name opens fdopen_ok F =
     (case fopen_loop (map (\<lambda>n. postoffice @ ''/'' @ n) (candidates name)) opens F of
        (r, F) \<Rightarrow> (if fdopen_ok then r else None, F))"

text \<open>\<open>mail_link\<close>: a rename to the first name for which it succeeds; \<open>None\<close> when a rename does not end.\<close>

fun link_loop :: "string list \<Rightarrow> ren list list \<Rightarrow> string \<Rightarrow> fs \<Rightarrow> (string option \<times> fs) option" where
  "link_loop (path # ps) (rs # rss) from F =
     (case eqrename rs from path F of
        None \<Rightarrow> None
      | Some (ok, F) \<Rightarrow> if ok then Some (Some path, F) else link_loop ps rss from F)"
| "link_loop _ _ from F = Some (None, F)"

definition mail_link :: "string \<Rightarrow> string \<Rightarrow> string \<Rightarrow> ren list list \<Rightarrow> fs \<Rightarrow> (string option \<times> fs) option" where
  "mail_link postoffice from name rss F = link_loop (map (\<lambda>n. postoffice @ ''/'' @ n) (candidates name)) rss from F"

record openenv =
  oe_host :: "string option"
  oe_pid :: nat
  oe_opens :: "(nat \<times> nat) option list"
  oe_fdopen :: bool
  oe_fstat :: bool
  oe_fullname :: "string option"
  oe_prettylogin :: "string option"
  oe_myhostname :: "string option"
  oe_user :: "string option"
  oe_stream :: ostream

definition scratch_name :: "openenv \<Rightarrow> string" where
  "scratch_name e =
     PUBLICDIR @ ''/'' @ take 19 (case oe_host e of None \<Rightarrow> ''I'' | Some h \<Rightarrow> h) @ '':'' @ dec_text (oe_pid e) @ ''%''"

definition open_header :: "openenv \<Rightarrow> string \<Rightarrow> string" where
  "open_header e type =
     (if type = [] then [] else ''type '' @ type @ [LF])
     @ (case oe_fullname e of None \<Rightarrow> [] | Some n \<Rightarrow> ''fullname '' @ n @ [LF])
     @ (case oe_prettylogin e of None \<Rightarrow> [] | Some n \<Rightarrow> ''loginname '' @ n @ [LF])
     @ (case oe_myhostname e of
          None \<Rightarrow> []
        | Some h \<Rightarrow> ''rcvdfrom STDIN ('' @ (case oe_user e of None \<Rightarrow> [DQUOTE] @ ''??'' @ [DQUOTE] | Some u \<Rightarrow> u) @ ''@'' @ h @ '')'' @ [LF])"

text \<open>The tables grow to the descriptor.\<close>

definition grow_table :: "nat \<Rightarrow> 'a option list \<Rightarrow> 'a option list" where
  "grow_table n xs = xs @ replicate (n - length xs) None"

definition mail_open :: "string \<Rightarrow> openenv \<Rightarrow> string option \<Rightarrow> mproc \<Rightarrow> fs \<Rightarrow> (nat \<times> nat \<times> ostream) option \<times> mproc \<times> fs" where
  "mail_open postoffice e type0 P F =
     (case mail_fopen postoffice (scratch_name e) (oe_opens e) (oe_fdopen e) F of
        (None, F) \<Rightarrow> (None, P, F)
      | (Some (path, fd, ino), F) \<Rightarrow>
          if \<not> oe_fstat e then (None, P, F)
          else
            let type = (case type0 of None \<Rightarrow> [] | Some t \<Rightarrow> t);
                P = P\<lparr>mail_file := (grow_table (fd + 1) (mail_file P))[fd := Some path],
                      mail_type := (grow_table (fd + 1) (mail_type P))[fd := Some type]\<rparr>
            in (Some (fd, ino, fwrite (open_header e type) (oe_stream e)), P, F))"

section \<open>Aborting and closing\<close>

text \<open>
  A call returns a value, or kills the process (a descriptor out of the tables), or overruns the buffer of the new name, or frees
  memory of the stack, or does not return.
\<close>

datatype mret = Ret int | Killed | Overran | BadFree | Hangs

definition table_get :: "'a option list \<Rightarrow> nat \<Rightarrow> 'a option" where
  "table_get xs i = (if i < length xs then xs ! i else None)"

definition mail_fname :: "nat \<Rightarrow> mproc \<Rightarrow> string option" where
  "mail_fname fd P = table_get (mail_file P) fd"

definition mail_abort :: "nat \<Rightarrow> mproc \<Rightarrow> fs \<Rightarrow> mret \<times> mproc \<times> fs" where
  "mail_abort fd P F =
     (if fd \<ge> length (mail_file P) then (Killed, P, F)
      else
        let P = P\<lparr>mail_type := (mail_type P)[fd := None]\<rparr>
        in case mail_file P ! fd of
             None \<Rightarrow> (Ret (- 1), P, F)
           | Some message \<Rightarrow>
               (Ret (if names F message = None then - 1 else 0), P\<lparr>mail_file := (mail_file P)[fd := None]\<rparr>,
                F\<lparr>names := (names F)(message := None)\<rparr>))"

record closeenv =
  ce_flush :: bool
  ce_fsync :: bool
  ce_fclose :: bool
  ce_rename :: "ren list"
  ce_priority :: int
  ce_inputdirs :: "string option"
  ce_routerdirs :: "string option"
  ce_inputdirhash :: "string option"
  ce_routerdirhash :: "string option"
  ce_alloca :: bool

text \<open>\<open>strchr(rd, ':')\<close> as the rest of the text from the colon on.\<close>

definition colon :: "string \<Rightarrow> string option" where
  "colon rd = (let t = dropWhile (\<lambda>c. c \<noteq> CHR '':'') rd in if t = [] then None else Some t)"

definition upto_colon :: "string \<Rightarrow> string" where
  "upto_colon rd = takeWhile (\<lambda>c. c \<noteq> CHR '':'') rd"

text \<open>
  \<open>while (i-- && (s = strchr(rd,':')))\<close>: the counter, the text at \<open>rd\<close>, the last directory that exists, and \<open>s\<close>.
\<close>

function pick_loop :: "(string \<Rightarrow> bool) \<Rightarrow> int \<Rightarrow> string \<Rightarrow> string option \<Rightarrow> string option \<Rightarrow> int \<times> string \<times> string option \<times> string option" where
  "pick_loop ok i rd best s =
     (if i = 0 then (- 1, rd, best, s)
      else case colon rd of
             None \<Rightarrow> (i - 1, rd, best, None)
           | Some t \<Rightarrow> pick_loop ok (i - 1) (tl t) (if ok (upto_colon rd) then Some rd else best) (Some t))"
  by pat_completeness auto
termination
proof (relation "measure (\<lambda>(ok, i, rd, best, s). length rd)")
  fix ok i rd best s t
  assume "colon rd = Some t"
  then have t: "t = dropWhile (\<lambda>c. c \<noteq> CHR '':'') rd" "t \<noteq> []" by (auto simp: colon_def Let_def split: if_splits)
  then have "length (tl t) < length t" "length t \<le> length rd" by (simp_all add: length_dropWhile_le)
  then show "((ok, i - 1, tl t, if ok (upto_colon rd) then Some rd else best, Some t), ok, i, rd, best, s) \<in> measure (\<lambda>(ok, i, rd, best, s). length rd)"
    by simp
qed simp

text \<open>\<open>*s = 0\<close> cuts the text at \<open>rd\<close> only when \<open>s\<close> points into it.\<close>

definition cut_at :: "string option \<Rightarrow> string \<Rightarrow> string" where
  "cut_at s rd =
     (case s of None \<Rightarrow> rd | Some t \<Rightarrow> if length t \<le> length rd then take (length rd - length t) rd else rd)"

definition input_dir :: "(string \<Rightarrow> bool) \<Rightarrow> int \<Rightarrow> string \<Rightarrow> string option" where
  "input_dir ok priority dirs =
     (case pick_loop ok priority dirs None (colon dirs) of
        (i, rd, best, s) \<Rightarrow> if best = None \<and> rd \<noteq> [] \<and> ok (cut_at s rd) then Some rd else best)"

definition router_dir :: "(string \<Rightarrow> bool) \<Rightarrow> int \<Rightarrow> string \<Rightarrow> string" where
  "router_dir ok priority dirs =
     (case pick_loop ok priority dirs (Some ROUTERDIR) None of
        (i, rd, best, s) \<Rightarrow> if s = None \<and> i > 0 \<and> rd \<noteq> [] \<and> ok rd then rd else the best)"

text \<open>The directory, whether it is an input directory, and the bytes that are allocated for the new name beside those of office and type.\<close>

definition pick_dir :: "closeenv \<Rightarrow> string \<Rightarrow> fs \<Rightarrow> string \<times> bool \<times> nat" where
  "pick_dir e postoffice F =
     (let ok = (\<lambda>d. isdir F (postoffice @ ''/'' @ d));
          best = Option.bind (ce_inputdirs e) (input_dir ok (ce_priority e));
          space = (case ce_inputdirs e of Some d \<Rightarrow> length d + 16 | None \<Rightarrow> length ROUTERDIR + 16)
      in case best of
           Some d \<Rightarrow> (d, True, space)
         | None \<Rightarrow>
             if ce_priority e \<noteq> 0 then
               (case ce_routerdirs e of
                  Some dirs \<Rightarrow> (router_dir ok (ce_priority e) dirs, False, length dirs + 16)
                | None \<Rightarrow> (ROUTERDIR, False, space))
             else (ROUTERDIR, False, space))"

definition hash_setting :: "closeenv \<Rightarrow> bool \<Rightarrow> mproc \<Rightarrow> int" where
  "hash_setting e input P =
     (if routersubdirhash P < 0 then
        (case (if input then ce_inputdirhash e else ce_routerdirhash e) of
           Some v \<Rightarrow> if cur v = CHR ''1'' then 1 else 0
         | None \<Rightarrow> 0)
      else routersubdirhash P)"

definition hash_text :: "int \<Rightarrow> nat \<Rightarrow> string" where
  "hash_text h ino = (if h > 0 then [char_of (65 + ino mod 26), CHR ''/''] else [])"

definition queue_name :: "string \<Rightarrow> string \<Rightarrow> string \<Rightarrow> nat \<Rightarrow> string \<Rightarrow> string" where
  "queue_name postoffice dir hash ino type = postoffice @ ''/'' @ dir @ ''/'' @ hash @ dec_text ino @ type"

text \<open>\<open>fflush\<close>, \<open>fsync\<close> and \<open>fclose\<close>, after interrupted calls were repeated.\<close>

definition stored :: "closeenv \<Rightarrow> bool \<Rightarrow> nat \<Rightarrow> ostream \<Rightarrow> fs \<Rightarrow> bool \<times> fs" where
  "stored e async ino out F =
     (if \<not> ce_flush e then (False, F)
      else ((async \<or> ce_fsync e) \<and> ce_fclose e, F\<lparr>contents := (contents F)(ino := os_out out)\<rparr>))"

text \<open>The process with the hash setting, the new name and the bytes allocated for it.\<close>

definition close_name :: "string \<Rightarrow> closeenv \<Rightarrow> nat \<Rightarrow> string \<Rightarrow> mproc \<Rightarrow> fs \<Rightarrow> mproc \<times> string \<times> nat" where
  "close_name postoffice e ino type P F =
     (let (dir, input, space) = pick_dir e postoffice F;
          P = P\<lparr>routersubdirhash := hash_setting e input P\<rparr>
      in (P, queue_name postoffice (upto_colon dir) (hash_text (routersubdirhash P) ino) ino type, length postoffice + space + length type))"

definition msg_type :: "mproc \<Rightarrow> nat \<Rightarrow> string" where
  "msg_type P fd = (case table_get (mail_type P) fd of None \<Rightarrow> [] | Some t \<Rightarrow> t)"

definition forget :: "nat \<Rightarrow> mproc \<Rightarrow> mproc" where
  "forget fd P = P\<lparr>mail_file := (mail_file P)[fd := None], mail_type := (mail_type P)[fd := None]\<rparr>"

definition mail_close :: "string \<Rightarrow> closeenv \<Rightarrow> bool \<Rightarrow> nat \<Rightarrow> nat \<Rightarrow> ostream \<Rightarrow> mproc \<Rightarrow> fs \<Rightarrow> mret \<times> mproc \<times> fs" where
  "mail_close postoffice e async fd ino out P F =
     (if fd \<ge> length (mail_file P) then (Killed, P, F)
      else
        case mail_file P ! fd of
          None \<Rightarrow> (Ret (- 1), P, F)
        | Some message \<Rightarrow>
            let type = msg_type P fd; P = forget fd P; (ok, F) = stored e async ino out F
            in if \<not> ok then (Ret (- 1), P, F)
               else
                 let (P, nmessage, space) = close_name postoffice e ino type P F
                 in if length nmessage + 1 > space then (Overran, P, F)
                    else
                      case eqrename (ce_rename e) message nmessage F of
                        None \<Rightarrow> (Hangs, P, F)
                      | Some (ok, F) \<Rightarrow> (if ok then Ret 0 else if ce_alloca e then BadFree else Ret (- 1), P, F))"

definition mail_close_alternate :: "string \<Rightarrow> closeenv \<Rightarrow> string \<Rightarrow> string \<Rightarrow> nat \<Rightarrow> nat \<Rightarrow> ostream \<Rightarrow> mproc \<Rightarrow> fs \<Rightarrow> mret \<times> mproc \<times> fs" where
  "mail_close_alternate postoffice e subdir sfx fd ino out P F =
     (if fd \<ge> length (mail_file P) then (Killed, P, F)
      else
        case mail_file P ! fd of
          None \<Rightarrow> (Ret (- 1), P, F)
        | Some message \<Rightarrow>
            let type = msg_type P fd; P = forget fd P; (ok, F) = stored e False ino out F
            in if \<not> ok then (Ret (- 1), P, F)
               else
                 let nmessage = queue_name postoffice subdir [] ino (sfx @ type)
                 in if length nmessage + 1 > length postoffice + 1 + length subdir + 1 + 20 + length sfx + 1 + length type then (Overran, P, F)
                    else
                      case eqrename (ce_rename e) message nmessage F of
                        None \<Rightarrow> (Hangs, P, F)
                      | Some (ok, F) \<Rightarrow> (Ret (if ok then 0 else - 1), P, F))"

section \<open>Numbers and names\<close>

lemma ord_digit: "n < 10 \<Longrightarrow> ord (char_of (48 + n :: nat)) = 48 + n"
  by simp

declare dec_text.simps [simp del]

lemma dec_text_digits: "c \<in> set (dec_text n) \<Longrightarrow> isdigit c"
proof (induction n arbitrary: c rule: dec_text.induct)
  case (1 n)
  then show ?case
    by (subst (asm) dec_text.simps) (auto simp: isdigit_def split: if_splits)
qed

lemma dec_text_nonempty [simp]: "dec_text n \<noteq> []"
  by (subst dec_text.simps) simp

lemma dec_value_snoc: "dec_value (ds @ [c]) = dec_value ds * 10 + (ord c - 48)"
  by (simp add: dec_value_def)

lemma dec_value_text [simp]: "dec_value (dec_text n) = n"
proof (induction n rule: dec_text.induct)
  case (1 n)
  then show ?case
    by (subst dec_text.simps) (auto simp: dec_value_snoc, simp add: dec_value_def)
qed

lemma dec_text_inject [simp]: "dec_text m = dec_text n \<longleftrightarrow> m = n"
  by (metis dec_value_text)

lemma dec_text_length: "0 < k \<Longrightarrow> n < 10 ^ k \<longleftrightarrow> length (dec_text n) \<le> k"
proof (induction n arbitrary: k rule: dec_text.induct)
  case (1 n)
  show ?case
  proof (cases "n < 10")
    case True
    then have "n < 10 ^ k" using 1(2) self_le_power [of "10::nat" k] by simp
    then show ?thesis using True 1(2) by (subst dec_text.simps) simp
  next
    case False
    obtain j where k: "k = Suc j" using 1(2) by (cases k) auto
    show ?thesis
    proof (cases "j = 0")
      case True
      then show ?thesis using False k by (subst dec_text.simps) simp
    next
      case j: False
      have "n < 10 ^ k \<longleftrightarrow> n div 10 < 10 ^ j" unfolding k by (simp add: div_less_iff_less_mult mult.commute)
      then show ?thesis using 1(1) [OF False, of j] j False k by (subst dec_text.simps) simp
    qed
  qed
qed

definition basename :: "string \<Rightarrow> string" where
  "basename p = rev (takeWhile (\<lambda>c. c \<noteq> CHR ''/'') (rev p))"

lemma basename_append: "CHR ''/'' \<notin> set t \<Longrightarrow> basename (x @ CHR ''/'' # t) = t"
proof -
  assume "CHR ''/'' \<notin> set t"
  then have "takeWhile (\<lambda>c. c \<noteq> CHR ''/'') (rev t @ CHR ''/'' # rev x) = rev t" by (subst takeWhile_append2) auto
  then show ?thesis by (simp add: basename_def)
qed

lemma colon_in_basename: "CHR ''/'' \<notin> set t \<Longrightarrow> CHR '':'' \<in> set (basename (x @ CHR '':'' # t))"
proof -
  assume "CHR ''/'' \<notin> set t"
  then have "takeWhile (\<lambda>c. c \<noteq> CHR ''/'') (rev t @ CHR '':'' # rev x) = rev t @ CHR '':'' # takeWhile (\<lambda>c. c \<noteq> CHR ''/'') (rev x)"
    by (subst takeWhile_append2) auto
  then show ?thesis by (simp add: basename_def)
qed

text \<open>The number a file name starts with.\<close>

definition file_id :: "string \<Rightarrow> string" where
  "file_id p = takeWhile isdigit (basename p)"

text \<open>The types and suffixes in use: nothing, or a text that does not start with a digit and has neither slash nor colon.\<close>

definition plain_suffix :: "string \<Rightarrow> bool" where
  "plain_suffix t \<longleftrightarrow> CHR ''/'' \<notin> set t \<and> CHR '':'' \<notin> set t \<and> (t = [] \<or> \<not> isdigit (hd t))"

lemma digit_not_sep: "isdigit c \<Longrightarrow> c \<noteq> CHR ''/'' \<and> c \<noteq> CHR '':''"
  by (auto simp: isdigit_def ord_def)

lemma queue_name_base:
  assumes "plain_suffix t"
  shows "basename (queue_name po dir (hash_text h ino) ino t) = dec_text ino @ t"
proof -
  have "CHR ''/'' \<notin> set (dec_text ino @ t)" using assms dec_text_digits digit_not_sep by (fastforce simp: plain_suffix_def)
  from basename_append [OF this, of "po @ ''/'' @ dir"] basename_append [OF this, of "po @ ''/'' @ dir @ ''/'' @ [char_of (65 + ino mod 26)]"]
  show ?thesis by (simp add: queue_name_def hash_text_def)
qed

lemma queue_name_id:
  assumes "plain_suffix t"
  shows "file_id (queue_name po dir (hash_text h ino) ino t) = dec_text ino"
    "CHR '':'' \<notin> set (basename (queue_name po dir (hash_text h ino) ino t))"
proof -
  have "takeWhile isdigit (dec_text ino @ t) = dec_text ino"
    using assms dec_text_digits by (cases t) (auto simp: plain_suffix_def takeWhile_append)
  then show "file_id (queue_name po dir (hash_text h ino) ino t) = dec_text ino"
    by (simp add: file_id_def queue_name_base [OF assms])
  show "CHR '':'' \<notin> set (basename (queue_name po dir (hash_text h ino) ino t))"
    using assms dec_text_digits digit_not_sep by (fastforce simp: queue_name_base plain_suffix_def)
qed

end
