(* ===== verification/Spool.thy ===== *)
theory Spool
  imports Mailfile
begin

text \<open>
  The spool directory under the hands of several processes that open, write, close and abort message files
  (\<^verbatim>\<open>libc/mail.c\<close>) while the router takes finished ones away, in any order.
\<close>

section \<open>Renaming to a free name\<close>

lemma eqrename_free:
  assumes "names F to = None" "names F from = Some i"
  shows "eqrename rs from to F = None \<or>
    eqrename rs from to F = Some (True, F\<lparr>names := (names F)(from := None, to := Some i)\<rparr>) \<or> eqrename rs from to F = Some (False, F)"
proof (induction rs)
  case (Cons r rs)
  have F: "F\<lparr>names := (names F)(to := None)\<rparr> = F" using assms(1) by (cases F) (simp add: fun_upd_idem)
  show ?case
  proof (cases r)
    case RenDone
    then show ?thesis using assms by (simp add: rename_fs_def fun_upd_def)
  next
    case (RenBusy u)
    then show ?thesis using Cons F by (cases u) simp_all
  qed simp
qed simp

text \<open>The loop of \<open>eqrename\<close> ends with the first call that is not busy.\<close>

lemma eqrename_ends: "eqrename rs from to F \<noteq> None \<longleftrightarrow> (\<exists>r\<in>set rs. \<forall>u. r \<noteq> RenBusy u)"
proof (induction rs arbitrary: F)
  case (Cons r rs)
  then show ?case by (cases r) auto
qed simp

section \<open>What a call does to the file system\<close>

lemma stored_fields [simp]:
  "names (snd (stored e async ino out F)) = names F" "isdir (snd (stored e async ino out F)) = isdir F"
  by (simp_all add: stored_def)

lemma stored_ok: "stored e async ino out F = (True, G) \<Longrightarrow> contents G ino = os_out out"
  by (auto simp: stored_def split: if_splits)

lemma stored_contents: "j \<noteq> ino \<Longrightarrow> contents (snd (stored e async ino out F)) j = contents F j"
  by (simp add: stored_def)

text \<open>
  The effect of closing on a file system, for a message whose new name is free: the contents of its inode may change, and
  it may get its new name.
\<close>

definition moved :: "string \<Rightarrow> string \<Rightarrow> nat \<Rightarrow> ostream \<Rightarrow> fs \<Rightarrow> mret \<Rightarrow> fs \<Rightarrow> bool" where
  "moved message nmessage ino out F r F' \<longleftrightarrow>
     (\<forall>j. j \<noteq> ino \<longrightarrow> contents F' j = contents F j) \<and>
     (if r = Ret 0 then names F' = (names F)(message := None, nmessage := Some ino) \<and> contents F' ino = os_out out
      else names F' = names F)"

definition close_target :: "string \<Rightarrow> closeenv \<Rightarrow> nat \<Rightarrow> nat \<Rightarrow> mproc \<Rightarrow> fs \<Rightarrow> string" where
  "close_target po e fd ino P F = fst (snd (close_name po e ino (msg_type P fd) (forget fd P) F))"

lemma close_name_fs: "isdir F = isdir G \<Longrightarrow> close_name po e ino t P F = close_name po e ino t P G"
  by (simp add: close_name_def pick_dir_def)

lemma close_name_proc: "mail_file (fst (close_name po e ino t P F)) = mail_file P" "mail_type (fst (close_name po e ino t P F)) = mail_type P"
  by (simp_all add: close_name_def Let_def split: prod.split)

lemma mail_close_moves:
  assumes "table_get (mail_file P) fd = Some m" "names F m = Some ino" "names F (close_target po e fd ino P F) = None"
    and "mail_close po e async fd ino out P F = (r, P', F')"
  shows "moved m (close_target po e fd ino P F) ino out F r F' \<and>
    mail_file P' = (mail_file P)[fd := None] \<and> mail_type P' = (mail_type P)[fd := None]"
proof -
  have fd: "fd < length (mail_file P)" "mail_file P ! fd = Some m" using assms(1) by (auto simp: table_get_def split: if_splits)
  define G where "G = snd (stored e async ino out F)"
  obtain ok where st: "stored e async ino out F = (ok, G)" by (cases "stored e async ino out F") (simp add: G_def)
  have G: "names G = names F" "isdir G = isdir F" "\<forall>j. j \<noteq> ino \<longrightarrow> contents G j = contents F j"
    using stored_contents by (auto simp: G_def)
  obtain P1 n sp where cn: "close_name po e ino (msg_type P fd) (forget fd P) G = (P1, n, sp)" by (metis prod_cases3)
  have n: "n = close_target po e fd ino P F" using cn close_name_fs [OF G(2)] by (simp add: close_target_def)
  have P1: "mail_file P1 = (mail_file P)[fd := None]" "mail_type P1 = (mail_type P)[fd := None]"
    using close_name_proc [of po e ino "msg_type P fd" "forget fd P" G] cn by (simp_all add: forget_def)
  have c: "contents G ino = os_out out" if ok using that st stored_ok by simp
  have "names G n = None" "names G m = Some ino" using assms(2,3) G(1) n by simp_all
  note ren = eqrename_free [OF this, of "ce_rename e"]
  have fg: "mail_file (forget fd P) = (mail_file P)[fd := None]" "mail_type (forget fd P) = (mail_type P)[fd := None]"
    by (simp_all add: forget_def)
  show ?thesis
  proof (cases "ok \<and> length n + 1 \<le> sp")
    case True
    then have "mail_close po e async fd ino out P F =
      (case eqrename (ce_rename e) m n G of
         None \<Rightarrow> (Hangs, P1, G)
       | Some (ok, F) \<Rightarrow> (if ok then Ret 0 else if ce_alloca e then BadFree else Ret (- 1), P1, F))"
      using fd by (simp add: mail_close_def st cn)
    then show ?thesis using ren assms(4) True G c P1 unfolding moved_def n [symmetric] by (auto split: if_splits)
  next
    case False
    then have "(r, P', F') = (if ok then Overran else Ret (- 1), if ok then P1 else forget fd P, G)"
      using assms(4) fd by (auto simp: mail_close_def st cn)
    then show ?thesis using G P1 fg by (simp add: moved_def)
  qed
qed

definition alternate_target :: "string \<Rightarrow> string \<Rightarrow> string \<Rightarrow> nat \<Rightarrow> nat \<Rightarrow> mproc \<Rightarrow> string" where
  "alternate_target po subdir sfx fd ino P = queue_name po subdir [] ino (sfx @ msg_type P fd)"

lemma mail_close_alternate_moves:
  assumes "table_get (mail_file P) fd = Some m" "names F m = Some ino" "names F (alternate_target po subdir sfx fd ino P) = None"
    and "mail_close_alternate po e subdir sfx fd ino out P F = (r, P', F')"
  shows "moved m (alternate_target po subdir sfx fd ino P) ino out F r F' \<and>
    mail_file P' = (mail_file P)[fd := None] \<and> mail_type P' = (mail_type P)[fd := None]"
proof -
  have fd: "fd < length (mail_file P)" "mail_file P ! fd = Some m" using assms(1) by (auto simp: table_get_def split: if_splits)
  define G where "G = snd (stored e False ino out F)"
  obtain ok where st: "stored e False ino out F = (ok, G)" by (cases "stored e False ino out F") (simp add: G_def)
  have G: "names G = names F" "\<forall>j. j \<noteq> ino \<longrightarrow> contents G j = contents F j"
    using stored_contents by (auto simp: G_def)
  have c: "contents G ino = os_out out" if ok using that st stored_ok by simp
  let ?n = "alternate_target po subdir sfx fd ino P"
  let ?sp = "length po + 1 + length subdir + 1 + 20 + length sfx + 1 + length (msg_type P fd)"
  have "names G ?n = None" "names G m = Some ino" using assms(2,3) G(1) by simp_all
  note ren = eqrename_free [OF this, of "ce_rename e"]
  have fg: "mail_file (forget fd P) = (mail_file P)[fd := None]" "mail_type (forget fd P) = (mail_type P)[fd := None]"
    by (simp_all add: forget_def)
  show ?thesis
  proof (cases "ok \<and> length ?n + 1 \<le> ?sp")
    case True
    then have "mail_close_alternate po e subdir sfx fd ino out P F =
      (case eqrename (ce_rename e) m ?n G of
         None \<Rightarrow> (Hangs, forget fd P, G)
       | Some (ok, F) \<Rightarrow> (Ret (if ok then 0 else - 1), forget fd P, F))"
      using fd by (simp add: mail_close_alternate_def st alternate_target_def Let_def)
    then show ?thesis using ren assms(4) True G c fg unfolding moved_def by auto
  next
    case False
    then have "(r, P', F') = (if ok then Overran else Ret (- 1), forget fd P, G)"
      using assms(4) fd by (auto simp: mail_close_alternate_def st alternate_target_def Let_def)
    then show ?thesis using G fg by (simp add: moved_def)
  qed
qed

section \<open>The processes\<close>

text \<open>
  The file system, the static variables of every process, the message files that are open (process, descriptor, inode), and the
  finished messages with their names.
\<close>

record spool =
  sp_fs :: fs
  sp_procs :: "nat \<Rightarrow> mproc"
  sp_open :: "(nat \<times> nat \<times> nat) list"
  sp_queue :: "(string \<times> string) list"

definition spool_new :: "fs \<Rightarrow> spool" where
  "spool_new F = \<lparr>sp_fs = F, sp_procs = (\<lambda>_. mproc_new), sp_open = [], sp_queue = []\<rparr>"

text \<open>The kernel gives a new file an inode without a name and a descriptor that the process does not use.\<close>

definition legal_opens :: "spool \<Rightarrow> nat \<Rightarrow> openenv \<Rightarrow> bool" where
  "legal_opens S k e \<longleftrightarrow>
     (\<forall>fd ino. Some (fd, ino) \<in> set (oe_opens e) \<longrightarrow> (\<forall>p. names (sp_fs S) p \<noteq> Some ino) \<and> (\<forall>i. (k, fd, i) \<notin> set (sp_open S)))"

inductive spooling :: "string \<Rightarrow> spool \<Rightarrow> bool" for po where
  start: "names F = (\<lambda>_. None) \<Longrightarrow> spooling po (spool_new F)"
| opens: "spooling po S \<Longrightarrow> legal_opens S k e \<Longrightarrow> plain_suffix (case ty of None \<Rightarrow> [] | Some t \<Rightarrow> t) \<Longrightarrow>
    mail_open po e ty (sp_procs S k) (sp_fs S) = (r, P, F) \<Longrightarrow>
    spooling po (S\<lparr>sp_fs := F, sp_procs := (sp_procs S)(k := P),
      sp_open := (case r of None \<Rightarrow> sp_open S | Some (fd, ino, out) \<Rightarrow> (k, fd, ino) # sp_open S)\<rparr>)"
| closes: "spooling po S \<Longrightarrow> (k, fd, ino) \<in> set (sp_open S) \<Longrightarrow>
    mail_close po e async fd ino out (sp_procs S k) (sp_fs S) = (r, P, F) \<Longrightarrow>
    spooling po (S\<lparr>sp_fs := F, sp_procs := (sp_procs S)(k := P), sp_open := removeAll (k, fd, ino) (sp_open S),
      sp_queue := (if r = Ret 0 then (close_target po e fd ino (sp_procs S k) (sp_fs S), os_out out) # sp_queue S else sp_queue S)\<rparr>)"
| alternates: "spooling po S \<Longrightarrow> (k, fd, ino) \<in> set (sp_open S) \<Longrightarrow> plain_suffix (sfx @ msg_type (sp_procs S k) fd) \<Longrightarrow>
    mail_close_alternate po e subdir sfx fd ino out (sp_procs S k) (sp_fs S) = (r, P, F) \<Longrightarrow>
    spooling po (S\<lparr>sp_fs := F, sp_procs := (sp_procs S)(k := P), sp_open := removeAll (k, fd, ino) (sp_open S),
      sp_queue := (if r = Ret 0 then (alternate_target po subdir sfx fd ino (sp_procs S k), os_out out) # sp_queue S else sp_queue S)\<rparr>)"
| aborts: "spooling po S \<Longrightarrow> (k, fd, ino) \<in> set (sp_open S) \<Longrightarrow> mail_abort fd (sp_procs S k) (sp_fs S) = (r, P, F) \<Longrightarrow>
    spooling po (S\<lparr>sp_fs := F, sp_procs := (sp_procs S)(k := P), sp_open := removeAll (k, fd, ino) (sp_open S)\<rparr>)"
| takes: "spooling po S \<Longrightarrow> (p, t) \<in> set (sp_queue S) \<Longrightarrow>
    spooling po (S\<lparr>sp_fs := (sp_fs S)\<lparr>names := (names (sp_fs S))(p := None)\<rparr>, sp_queue := filter (\<lambda>(q, u). q \<noteq> p) (sp_queue S)\<rparr>)"

section \<open>The invariant\<close>

text \<open>Every inode has one name, and a name without a colon starts with the number of its inode.\<close>

definition names_ok :: "fs \<Rightarrow> bool" where
  "names_ok F \<longleftrightarrow>
     (\<forall>p q i. names F p = Some i \<longrightarrow> names F q = Some i \<longrightarrow> p = q) \<and>
     (\<forall>p i. names F p = Some i \<longrightarrow> CHR '':'' \<notin> set (basename p) \<longrightarrow> file_id p = dec_text i)"

text \<open>An open file has its name in the table, with a colon in it.\<close>

definition open_ok :: "spool \<Rightarrow> nat \<times> nat \<times> nat \<Rightarrow> bool" where
  "open_ok S h \<longleftrightarrow>
     (case h of (k, fd, i) \<Rightarrow>
        \<exists>m t. table_get (mail_file (sp_procs S k)) fd = Some m \<and> table_get (mail_type (sp_procs S k)) fd = Some t \<and> plain_suffix t \<and>
          names (sp_fs S) m = Some i \<and> CHR '':'' \<in> set (basename m))"

definition queue_ok :: "spool \<Rightarrow> string \<times> string \<Rightarrow> bool" where
  "queue_ok S q \<longleftrightarrow>
     (case q of (p, t) \<Rightarrow> CHR '':'' \<notin> set (basename p) \<and> (\<exists>i. names (sp_fs S) p = Some i \<and> contents (sp_fs S) i = t))"

definition spool_ok :: "spool \<Rightarrow> bool" where
  "spool_ok S \<longleftrightarrow>
     names_ok (sp_fs S) \<and> (\<forall>h\<in>set (sp_open S). open_ok S h) \<and> (\<forall>q\<in>set (sp_queue S). queue_ok S q) \<and>
     (\<forall>k fd i j. (k, fd, i) \<in> set (sp_open S) \<longrightarrow> (k, fd, j) \<in> set (sp_open S) \<longrightarrow> i = j) \<and>
     (\<forall>g h. g \<in> set (sp_open S) \<longrightarrow> h \<in> set (sp_open S) \<longrightarrow> snd (snd g) = snd (snd h) \<longrightarrow> g = h)"

text \<open>A name that starts with the number of an inode that has another name is free.\<close>

lemma target_free:
  assumes "names_ok F" "names F m = Some i" "CHR '':'' \<in> set (basename m)" "CHR '':'' \<notin> set (basename n)" "file_id n = dec_text i"
  shows "names F n = None"
proof (rule ccontr)
  assume "names F n \<noteq> None"
  then obtain j where j: "names F n = Some j" by auto
  then have "file_id n = dec_text j" using assms(1,4) by (auto simp: names_ok_def)
  then have "j = i" using assms(5) by simp
  then have "n = m" using j assms(1,2) by (auto simp: names_ok_def)
  then show False using assms(3,4) by simp
qed

lemma names_ok_move:
  assumes "names_ok F" "names F m = Some i" "CHR '':'' \<notin> set (basename n)" "file_id n = dec_text i"
    and "names F' = (names F)(m := None, n := Some i)"
  shows "names_ok F'"
  using assms unfolding names_ok_def by (auto split: if_splits)

lemma names_ok_delete: "names_ok F \<Longrightarrow> names F' = (names F)(m := None) \<Longrightarrow> names_ok F'"
  unfolding names_ok_def by auto


lemma table_get_update [simp]: "fd \<noteq> fd' \<Longrightarrow> table_get (xs[fd := x]) fd' = table_get xs fd'"
  by (simp add: table_get_def)

lemma open_handleD:
  assumes "spool_ok S" "(k, fd, ino) \<in> set (sp_open S)"
  obtains m t where "table_get (mail_file (sp_procs S k)) fd = Some m" "table_get (mail_type (sp_procs S k)) fd = Some t" "plain_suffix t"
    "names (sp_fs S) m = Some ino" "CHR '':'' \<in> set (basename m)"
  using assms by (fastforce simp: spool_ok_def open_ok_def)

lemma others_distinct:
  assumes "spool_ok S" "(k, fd, ino) \<in> set (sp_open S)" "(k', fd', i) \<in> set (removeAll (k, fd, ino) (sp_open S))"
  shows "i \<noteq> ino" "k' = k \<Longrightarrow> fd' \<noteq> fd"
proof -
  have h: "(k', fd', i) \<in> set (sp_open S)" "(k', fd', i) \<noteq> (k, fd, ino)" using assms(3) by auto
  show "i \<noteq> ino" using assms(1,2) h by (force simp: spool_ok_def)
  show "fd' \<noteq> fd" if "k' = k" using assms(1,2) h that unfolding spool_ok_def by blast
qed

lemma others_open_ok:
  assumes "spool_ok S" "(k, fd, ino) \<in> set (sp_open S)" "h \<in> set (removeAll (k, fd, ino) (sp_open S))"
    and "mail_file P = (mail_file (sp_procs S k))[fd := None]" "mail_type P = (mail_type (sp_procs S k))[fd := None]"
    and "sp_procs S' = (sp_procs S)(k := P)"
    and "\<And>q i. names (sp_fs S) q = Some i \<Longrightarrow> i \<noteq> ino \<Longrightarrow> CHR '':'' \<in> set (basename q) \<Longrightarrow> names (sp_fs S') q = Some i"
  shows "open_ok S' h"
proof -
  obtain k' fd' i where h: "h = (k', fd', i)" by (metis prod_cases3)
  note d = others_distinct [OF assms(1,2) assms(3) [unfolded h]]
  have "(k', fd', i) \<in> set (sp_open S)" using assms(3) h by simp
  then obtain m t where m: "table_get (mail_file (sp_procs S k')) fd' = Some m" "table_get (mail_type (sp_procs S k')) fd' = Some t" "plain_suffix t"
    "names (sp_fs S) m = Some i" "CHR '':'' \<in> set (basename m)" by (rule open_handleD [OF assms(1)])
  have "table_get (mail_file (sp_procs S' k')) fd' = Some m" "table_get (mail_type (sp_procs S' k')) fd' = Some t"
    using m(1,2) d(2) unfolding assms(4-6) fun_upd_apply by (auto simp: assms(4,5))
  then show ?thesis using m(3,5) assms(7) [OF m(4) d(1) m(5)] unfolding open_ok_def h by auto
qed

lemma removeAll_functional:
  assumes "spool_ok S"
  shows "\<forall>k fd i j. (k, fd, i) \<in> set (removeAll x (sp_open S)) \<longrightarrow> (k, fd, j) \<in> set (removeAll x (sp_open S)) \<longrightarrow> i = j"
    "\<forall>g h. g \<in> set (removeAll x (sp_open S)) \<longrightarrow> h \<in> set (removeAll x (sp_open S)) \<longrightarrow> snd (snd g) = snd (snd h) \<longrightarrow> g = h"
  using assms unfolding spool_ok_def set_removeAll by blast+

lemma finish_ok:
  assumes "spool_ok S" "(k, fd, ino) \<in> set (sp_open S)"
    and m: "table_get (mail_file (sp_procs S k)) fd = Some m" "names (sp_fs S) m = Some ino" "CHR '':'' \<in> set (basename m)"
    and n: "CHR '':'' \<notin> set (basename n)" "file_id n = dec_text ino"
    and mv: "moved m n ino out (sp_fs S) r F"
    and P: "mail_file P = (mail_file (sp_procs S k))[fd := None]" "mail_type P = (mail_type (sp_procs S k))[fd := None]"
  shows "spool_ok (S\<lparr>sp_fs := F, sp_procs := (sp_procs S)(k := P), sp_open := removeAll (k, fd, ino) (sp_open S),
      sp_queue := (if r = Ret 0 then (n, os_out out) # sp_queue S else sp_queue S)\<rparr>)" (is "spool_ok ?S")
proof -
  have ok: "names_ok (sp_fs S)" using assms(1) by (simp add: spool_ok_def)
  have free: "names (sp_fs S) n = None" using target_free [OF ok m(2,3) n] .
  have other: "names F q = Some i" if "names (sp_fs S) q = Some i" "i \<noteq> ino" for q i
    using that mv m(2) free by (auto simp: moved_def split: if_splits)
  have nf: "names_ok F"
  proof (cases "r = Ret 0")
    case True
    then show ?thesis using names_ok_move [OF ok m(2) n] mv by (simp add: moved_def)
  next
    case False
    then show ?thesis using ok mv by (simp add: moved_def names_ok_def)
  qed
  define S' where "S' = ?S"
  have S': "sp_fs S' = F" "sp_procs S' = (sp_procs S)(k := P)" "sp_open S' = removeAll (k, fd, ino) (sp_open S)"
    "sp_queue S' = (if r = Ret 0 then (n, os_out out) # sp_queue S else sp_queue S)"
    by (simp_all add: S'_def)
  have op: "\<forall>h\<in>set (sp_open S'). open_ok S' h"
    unfolding S'(3) using others_open_ok [OF assms(1,2) _ P S'(2)] other S'(1) by blast
  have old: "queue_ok S' q" if "q \<in> set (sp_queue S)" for q
  proof -
    obtain p t where q: "q = (p, t)" by fastforce
    have "queue_ok S q" using assms(1) that unfolding spool_ok_def by blast
    then obtain i where i: "CHR '':'' \<notin> set (basename p)" "names (sp_fs S) p = Some i" "contents (sp_fs S) i = t"
      by (auto simp: queue_ok_def q)
    have "i \<noteq> ino" using i(1,2) m(2,3) ok by (auto simp: names_ok_def)
    then show ?thesis using other [OF i(2)] i mv by (simp add: queue_ok_def q moved_def S'(1))
  qed
  have new: "queue_ok S' (n, os_out out)" if "r = Ret 0"
    using that mv n by (simp add: queue_ok_def moved_def S'(1))
  have "\<forall>q\<in>set (sp_queue S'). queue_ok S' q" using old new unfolding S'(4) by simp
  then have "spool_ok S'"
    unfolding spool_ok_def S'(1) using nf op removeAll_functional [OF assms(1), of "(k, fd, ino)"] unfolding S'(3) by blast
  then show ?thesis unfolding S'_def .
qed


lemma abort_ok:
  assumes "spool_ok S" "(k, fd, ino) \<in> set (sp_open S)" "mail_abort fd (sp_procs S k) (sp_fs S) = (r, P, F)"
  shows "spool_ok (S\<lparr>sp_fs := F, sp_procs := (sp_procs S)(k := P), sp_open := removeAll (k, fd, ino) (sp_open S)\<rparr>)" (is "spool_ok ?S")
proof -
  obtain m t where m: "table_get (mail_file (sp_procs S k)) fd = Some m" "names (sp_fs S) m = Some ino" "CHR '':'' \<in> set (basename m)"
    by (rule open_handleD [OF assms(1,2)])
  have fd: "fd < length (mail_file (sp_procs S k))" "mail_file (sp_procs S k) ! fd = Some m"
    using m(1) by (auto simp: table_get_def split: if_splits)
  have F: "F = (sp_fs S)\<lparr>names := (names (sp_fs S))(m := None)\<rparr>"
    and P: "mail_file P = (mail_file (sp_procs S k))[fd := None]" "mail_type P = (mail_type (sp_procs S k))[fd := None]"
    using assms(3) fd by (auto simp: mail_abort_def Let_def)
  have ok: "names_ok (sp_fs S)" using assms(1) by (simp add: spool_ok_def)
  define S' where "S' = ?S"
  have S': "sp_fs S' = F" "sp_procs S' = (sp_procs S)(k := P)" "sp_open S' = removeAll (k, fd, ino) (sp_open S)" "sp_queue S' = sp_queue S"
    by (simp_all add: S'_def)
  have other: "names F q = Some i" if "names (sp_fs S) q = Some i" "i \<noteq> ino" for q i
    using that m(2) by (auto simp: F)
  have op: "\<forall>h\<in>set (sp_open S'). open_ok S' h"
    unfolding S'(3) using others_open_ok [OF assms(1,2) _ P S'(2)] other S'(1) by blast
  have "queue_ok S' q" if "q \<in> set (sp_queue S)" for q
  proof -
    have "queue_ok S q" using assms(1) that unfolding spool_ok_def by blast
    then show ?thesis using m(3) by (auto simp: queue_ok_def S'(1) F)
  qed
  moreover have "names_ok F" using names_ok_delete [OF ok, of F m] by (simp add: F)
  ultimately have "spool_ok S'"
    unfolding spool_ok_def S'(1,4) using op removeAll_functional [OF assms(1), of "(k, fd, ino)"] unfolding S'(3) by blast
  then show ?thesis unfolding S'_def .
qed

lemma take_ok:
  assumes "spool_ok S" "(p, t) \<in> set (sp_queue S)"
  shows "spool_ok (S\<lparr>sp_fs := (sp_fs S)\<lparr>names := (names (sp_fs S))(p := None)\<rparr>, sp_queue := filter (\<lambda>(q, u). q \<noteq> p) (sp_queue S)\<rparr>)" (is "spool_ok ?S")
proof -
  have p: "CHR '':'' \<notin> set (basename p)" using assms by (auto simp: spool_ok_def queue_ok_def)
  have "names_ok (sp_fs ?S)" using assms(1) names_ok_delete [of "sp_fs S" "sp_fs ?S" p] by (simp add: spool_ok_def)
  moreover have "open_ok ?S h" if "open_ok S h" for h
    using that p by (cases h) (auto simp: open_ok_def)
  moreover have "queue_ok ?S q" if "queue_ok S q" "fst q \<noteq> p" for q
    using that by (cases q) (auto simp: queue_ok_def)
  ultimately show ?thesis using assms(1) unfolding spool_ok_def by auto
qed

section \<open>Opening\<close>

lemma candidates_colon:
  assumes "CHR ''/'' \<notin> set t" "n \<in> set (candidates (y @ CHR '':'' # t))"
  shows "\<exists>x t'. n = x @ CHR '':'' # t' \<and> CHR ''/'' \<notin> set t'"
proof -
  have sx: "CHR ''/'' \<notin> set SUFFIXCHARS" by (simp add: SUFFIXCHARS_def)
  obtain c where c: "c \<in> set SUFFIXCHARS" "n = (let pre = takeWhile (\<lambda>c. c \<noteq> CHR ''%'') (y @ CHR '':'' # t);
      rest = dropWhile (\<lambda>c. c \<noteq> CHR ''%'') (y @ CHR '':'' # t)
      in if rest = [] then y @ CHR '':'' # t else pre @ (if c = CHR '' '' then [] else [c]) @ tl rest)"
    using assms(2) unfolding candidates_def Let_def set_map by (elim imageE) blast
  have "c \<noteq> CHR ''/''" using c(1) sx by auto
  show ?thesis
  proof (cases "CHR ''%'' \<in> set y")
    case True
    then have "dropWhile (\<lambda>c. c \<noteq> CHR ''%'') y \<noteq> []" "takeWhile (\<lambda>c. c \<noteq> CHR ''%'') (y @ CHR '':'' # t) = takeWhile (\<lambda>c. c \<noteq> CHR ''%'') y"
      "dropWhile (\<lambda>c. c \<noteq> CHR ''%'') (y @ CHR '':'' # t) = dropWhile (\<lambda>c. c \<noteq> CHR ''%'') y @ CHR '':'' # t"
      by (auto simp: dropWhile_append takeWhile_append)
    then have "n = (takeWhile (\<lambda>c. c \<noteq> CHR ''%'') y @ (if c = CHR '' '' then [] else [c]) @ tl (dropWhile (\<lambda>c. c \<noteq> CHR ''%'') y)) @ CHR '':'' # t"
      using c(2) by (simp add: Let_def)
    then show ?thesis using assms(1) by blast
  next
    case False
    then have "takeWhile (\<lambda>c. c \<noteq> CHR ''%'') (y @ CHR '':'' # t) = y @ CHR '':'' # takeWhile (\<lambda>c. c \<noteq> CHR ''%'') t"
      "dropWhile (\<lambda>c. c \<noteq> CHR ''%'') (y @ CHR '':'' # t) = dropWhile (\<lambda>c. c \<noteq> CHR ''%'') t"
      by (auto simp: takeWhile_append dropWhile_append)
    moreover have "CHR ''/'' \<notin> set (takeWhile (\<lambda>c. c \<noteq> CHR ''%'') t)" "CHR ''/'' \<notin> set (tl (dropWhile (\<lambda>c. c \<noteq> CHR ''%'') t))"
      using assms(1) by (meson set_takeWhileD) (metis assms(1) dropWhile_eq_Nil_conv list.set_sel(2) set_dropWhileD tl_Nil)
    ultimately have "n = y @ CHR '':'' # t \<or>
        n = y @ CHR '':'' # (takeWhile (\<lambda>c. c \<noteq> CHR ''%'') t @ (if c = CHR '' '' then [] else [c]) @ tl (dropWhile (\<lambda>c. c \<noteq> CHR ''%'') t))"
      and "CHR ''/'' \<notin> set (takeWhile (\<lambda>c. c \<noteq> CHR ''%'') t @ (if c = CHR '' '' then [] else [c]) @ tl (dropWhile (\<lambda>c. c \<noteq> CHR ''%'') t))"
      using c(2) \<open>c \<noteq> CHR ''/''\<close> by (simp_all add: Let_def)
    then show ?thesis using assms(1) by blast
  qed
qed

lemma fopen_loop_result:
  "fopen_loop ps opens F = (r, F') \<Longrightarrow>
     (case r of
        None \<Rightarrow> F' = F
      | Some (path, fd, ino) \<Rightarrow>
          path \<in> set ps \<and> names F path = None \<and> Some (fd, ino) \<in> set opens \<and>
          F' = F\<lparr>names := (names F)(path := Some ino), contents := (contents F)(ino := [])\<rparr>)"
  by (induction ps opens F rule: fopen_loop.induct) (auto split: option.splits if_splits)


lemma scratch_candidates:
  assumes "n \<in> set (candidates (scratch_name e))"
  shows "CHR '':'' \<in> set (basename (po @ ''/'' @ n))"
proof -
  have "CHR ''/'' \<notin> set (dec_text (oe_pid e) @ ''%'')" using dec_text_digits digit_not_sep by fastforce
  from candidates_colon [OF this] assms obtain x t' where "n = x @ CHR '':'' # t'" "CHR ''/'' \<notin> set t'"
    unfolding scratch_name_def by (metis append.assoc append_Cons append_Nil)
  then show ?thesis using colon_in_basename [of t' "po @ ''/'' @ x"] by simp
qed

lemma mail_fopen_result:
  assumes "mail_fopen po (scratch_name e) opens b F = (r, F')"
  shows "F' = F \<and> r = None \<or>
    (\<exists>path fd ino. names F path = None \<and> CHR '':'' \<in> set (basename path) \<and> Some (fd, ino) \<in> set opens \<and>
       F' = F\<lparr>names := (names F)(path := Some ino), contents := (contents F)(ino := [])\<rparr> \<and> (r = None \<or> r = Some (path, fd, ino)))"
proof -
  obtain r1 where f: "fopen_loop (map (\<lambda>n. po @ ''/'' @ n) (candidates (scratch_name e))) opens F = (r1, F')" "r = (if b then r1 else None)"
    using assms by (auto simp: mail_fopen_def split: prod.splits)
  show ?thesis
  proof (cases r1)
    case None
    then show ?thesis using f fopen_loop_result [OF f(1)] by simp
  next
    case (Some x)
    obtain path fd ino where x: "x = (path, fd, ino)" by (metis prod_cases3)
    have q: "path \<in> set (map (\<lambda>n. po @ ''/'' @ n) (candidates (scratch_name e)))" "names F path = None" "Some (fd, ino) \<in> set opens"
        "F' = F\<lparr>names := (names F)(path := Some ino), contents := (contents F)(ino := [])\<rparr>"
      using fopen_loop_result [OF f(1)] Some x by simp_all
    then have "CHR '':'' \<in> set (basename path)" using scratch_candidates by auto
    then show ?thesis using q f(2) Some x by auto
  qed
qed

lemma mail_open_result:
  assumes "mail_open po e ty P F = (r, P', F')"
  shows "F' = F \<and> P' = P \<and> r = None \<or>
    (\<exists>path fd ino. names F path = None \<and> CHR '':'' \<in> set (basename path) \<and> Some (fd, ino) \<in> set (oe_opens e) \<and>
       F' = F\<lparr>names := (names F)(path := Some ino), contents := (contents F)(ino := [])\<rparr> \<and>
       (r = None \<and> P' = P \<or>
        (\<exists>out. r = Some (fd, ino, out)) \<and> mail_file P' = (grow_table (fd + 1) (mail_file P))[fd := Some path] \<and>
        mail_type P' = (grow_table (fd + 1) (mail_type P))[fd := Some (case ty of None \<Rightarrow> [] | Some t \<Rightarrow> t)]))"
proof -
  obtain r1 where m: "mail_fopen po (scratch_name e) (oe_opens e) (oe_fdopen e) F = (r1, F')"
    using assms by (auto simp: mail_open_def Let_def split: prod.splits option.splits if_splits)
  from mail_fopen_result [OF m] consider "F' = F" "r1 = None"
    | path fd ino where "names F path = None" "CHR '':'' \<in> set (basename path)" "Some (fd, ino) \<in> set (oe_opens e)"
       "F' = F\<lparr>names := (names F)(path := Some ino), contents := (contents F)(ino := [])\<rparr>" "r1 = None \<or> r1 = Some (path, fd, ino)"
    by blast
  then show ?thesis
  proof cases
    case 1
    then show ?thesis using assms m by (simp add: mail_open_def)
  next
    case 2
    then have "r = None \<and> P' = P \<or>
        (\<exists>out. r = Some (fd, ino, out)) \<and> mail_file P' = (grow_table (fd + 1) (mail_file P))[fd := Some path] \<and>
        mail_type P' = (grow_table (fd + 1) (mail_type P))[fd := Some (case ty of None \<Rightarrow> [] | Some t \<Rightarrow> t)]"
      using assms m by (auto simp: mail_open_def Let_def split: if_splits)
    then show ?thesis using 2 by blast
  qed
qed

lemma table_get_extend [simp]: "table_get (grow_table n xs) i = table_get xs i"
  by (simp add: table_get_def grow_table_def nth_append)

lemma table_get_new [simp]: "table_get ((grow_table (Suc fd) xs)[fd := Some x]) fd = Some x"
  by (simp add: table_get_def grow_table_def)


lemma new_file_ok:
  assumes "spool_ok S" "names (sp_fs S) path = None" "\<forall>p. names (sp_fs S) p \<noteq> Some ino" "CHR '':'' \<in> set (basename path)"
    and "F = (sp_fs S)\<lparr>names := (names (sp_fs S))(path := Some ino), contents := (contents (sp_fs S))(ino := [])\<rparr>"
  shows "spool_ok (S\<lparr>sp_fs := F\<rparr>)"
proof -
  have "names_ok (sp_fs S)" using assms(1) by (simp add: spool_ok_def)
  then have "names_ok F" using assms(2-4) unfolding names_ok_def assms(5) by simp metis
  moreover have n: "names F p = Some i" if "names (sp_fs S) p = Some i" for p i
    using that assms(2) unfolding assms(5) by auto
  have c: "contents F i = contents (sp_fs S) i" if "names (sp_fs S) p = Some i" for p i
    using that assms(3) unfolding assms(5) by auto
  have "open_ok (S\<lparr>sp_fs := F\<rparr>) h" if "open_ok S h" for h
    using that n unfolding open_ok_def by (cases h) (simp, blast)
  moreover have "queue_ok (S\<lparr>sp_fs := F\<rparr>) q" if "queue_ok S q" for q
    using that n c unfolding queue_ok_def by (cases q) (simp, metis)
  ultimately show ?thesis using assms(1) unfolding spool_ok_def by simp
qed

lemma add_handle_ok:
  assumes ok: "spool_ok S" and new: "names (sp_fs S) path = Some ino" "CHR '':'' \<in> set (basename path)" "\<forall>h\<in>set (sp_open S). snd (snd h) \<noteq> ino"
    and fd: "\<forall>i. (k, fd, i) \<notin> set (sp_open S)" and t: "plain_suffix t"
    and P: "mail_file P = (grow_table (fd + 1) (mail_file (sp_procs S k)))[fd := Some path]"
      "mail_type P = (grow_table (fd + 1) (mail_type (sp_procs S k)))[fd := Some t]"
  shows "spool_ok (S\<lparr>sp_procs := (sp_procs S)(k := P), sp_open := (k, fd, ino) # sp_open S\<rparr>)" (is "spool_ok ?S")
proof -
  define S' where "S' = ?S"
  have S': "sp_fs S' = sp_fs S" "sp_procs S' = (sp_procs S)(k := P)" "sp_open S' = (k, fd, ino) # sp_open S" "sp_queue S' = sp_queue S"
    by (simp_all add: S'_def)
  have old: "names_ok (sp_fs S)" "\<And>h. h \<in> set (sp_open S) \<Longrightarrow> open_ok S h" "\<And>q. q \<in> set (sp_queue S) \<Longrightarrow> queue_ok S q"
    "\<And>k fd i j. (k, fd, i) \<in> set (sp_open S) \<Longrightarrow> (k, fd, j) \<in> set (sp_open S) \<Longrightarrow> i = j"
    "\<And>g h. g \<in> set (sp_open S) \<Longrightarrow> h \<in> set (sp_open S) \<Longrightarrow> snd (snd g) = snd (snd h) \<Longrightarrow> g = h"
    using ok unfolding spool_ok_def by blast+
  have h: "open_ok S' (k, fd, ino)" using new t P by (simp add: open_ok_def S')
  have o: "open_ok S' h" if "h \<in> set (sp_open S)" for h
  proof -
    obtain k' fd' i where h: "h = (k', fd', i)" by (metis prod_cases3)
    have "k' = k \<Longrightarrow> fd \<noteq> fd'" using fd that h by auto
    then show ?thesis using old(2) [OF that] unfolding open_ok_def h using P S'(1,2) by auto
  qed
  have q: "queue_ok S' q" if "q \<in> set (sp_queue S)" for q using old(3) [OF that] by (simp add: queue_ok_def S')
  have f: "i = j" if "(k', fd', i) \<in> set (sp_open S')" "(k', fd', j) \<in> set (sp_open S')" for k' fd' i j
    using that fd old(4) unfolding S'(3) by auto
  have g: "g = h" if "g \<in> set (sp_open S')" "h \<in> set (sp_open S')" "snd (snd g) = snd (snd h)" for g h
  proof -
    have "g = (k, fd, ino) \<or> g \<in> set (sp_open S)" "h = (k, fd, ino) \<or> h \<in> set (sp_open S)" using that(1,2) S'(3) by auto
    then show ?thesis using that(3) new(3) old(5) by (metis snd_conv)
  qed
  have "\<forall>h\<in>set (sp_open S'). open_ok S' h" using h o S'(3) by simp
  then have "spool_ok S'" unfolding spool_ok_def S'(1,4) using old(1) q f g by blast
  then show ?thesis unfolding S'_def .
qed

lemma opens_ok:
  assumes ok: "spool_ok S" and "legal_opens S k e" "plain_suffix (case ty of None \<Rightarrow> [] | Some t \<Rightarrow> t)"
    and m: "mail_open po e ty (sp_procs S k) (sp_fs S) = (r, P, F)"
  shows "spool_ok (S\<lparr>sp_fs := F, sp_procs := (sp_procs S)(k := P),
      sp_open := (case r of None \<Rightarrow> sp_open S | Some (fd, ino, out) \<Rightarrow> (k, fd, ino) # sp_open S)\<rparr>)"
  using mail_open_result [OF m]
proof (elim disjE conjE exE)
  assume "F = sp_fs S" "P = sp_procs S k" "r = None"
  then show ?thesis using ok by simp
next
  fix path fd ino
  assume q: "names (sp_fs S) path = None" "CHR '':'' \<in> set (basename path)" "Some (fd, ino) \<in> set (oe_opens e)"
    "F = (sp_fs S)\<lparr>names := (names (sp_fs S))(path := Some ino), contents := (contents (sp_fs S))(ino := [])\<rparr>"
  have l: "\<forall>p. names (sp_fs S) p \<noteq> Some ino" "\<forall>i. (k, fd, i) \<notin> set (sp_open S)" using assms(2) q(3) by (auto simp: legal_opens_def)
  have S1: "spool_ok (S\<lparr>sp_fs := F\<rparr>)" by (rule new_file_ok [OF ok q(1) l(1) q(2,4)])
  {
    assume "r = None" "P = sp_procs S k"
    then show ?thesis using S1 by simp
  next
    fix out
    assume r: "r = Some (fd, ino, out)" and P: "mail_file P = (grow_table (fd + 1) (mail_file (sp_procs S k)))[fd := Some path]"
      "mail_type P = (grow_table (fd + 1) (mail_type (sp_procs S k)))[fd := Some (case ty of None \<Rightarrow> [] | Some t \<Rightarrow> t)]"
    have "\<forall>h\<in>set (sp_open S). snd (snd h) \<noteq> ino" using ok l(1) by (fastforce simp: spool_ok_def open_ok_def)
    with add_handle_ok [OF S1 _ q(2) _ _ assms(3), of ino k fd P] show ?thesis using q(4) l(2) P r by simp
  }
qed

section \<open>Every reachable spool\<close>

lemma close_target_id:
  assumes "table_get (mail_type P) fd = Some t" "plain_suffix t"
  shows "file_id (close_target po e fd ino P F) = dec_text ino" "CHR '':'' \<notin> set (basename (close_target po e fd ino P F))"
  using assms queue_name_id by (simp_all add: close_target_def close_name_def msg_type_def case_prod_beta Let_def)

lemma alternate_target_id:
  assumes "plain_suffix (sfx @ msg_type P fd)"
  shows "file_id (alternate_target po subdir sfx fd ino P) = dec_text ino" "CHR '':'' \<notin> set (basename (alternate_target po subdir sfx fd ino P))"
  using queue_name_id [OF assms, of po subdir 0 ino] by (simp_all add: alternate_target_def hash_text_def)

lemma closes_ok:
  assumes "spool_ok S" "(k, fd, ino) \<in> set (sp_open S)" "mail_close po e async fd ino out (sp_procs S k) (sp_fs S) = (r, P, F)"
  obtains m where "names (sp_fs S) m = Some ino" "names (sp_fs S) (close_target po e fd ino (sp_procs S k) (sp_fs S)) = None"
    "moved m (close_target po e fd ino (sp_procs S k) (sp_fs S)) ino out (sp_fs S) r F"
    "spool_ok (S\<lparr>sp_fs := F, sp_procs := (sp_procs S)(k := P), sp_open := removeAll (k, fd, ino) (sp_open S),
      sp_queue := (if r = Ret 0 then (close_target po e fd ino (sp_procs S k) (sp_fs S), os_out out) # sp_queue S else sp_queue S)\<rparr>)"
proof -
  obtain m t where m: "table_get (mail_file (sp_procs S k)) fd = Some m" "table_get (mail_type (sp_procs S k)) fd = Some t" "plain_suffix t"
    "names (sp_fs S) m = Some ino" "CHR '':'' \<in> set (basename m)"
    by (rule open_handleD [OF assms(1,2)])
  note n = close_target_id [OF m(2,3), of po e ino "sp_fs S"]
  have "names_ok (sp_fs S)" using assms(1) by (simp add: spool_ok_def)
  from target_free [OF this m(4,5) n(2,1)] have f: "names (sp_fs S) (close_target po e fd ino (sp_procs S k) (sp_fs S)) = None" .
  note mv = mail_close_moves [OF m(1,4) f assms(3)]
  show ?thesis using that [OF m(4) f] mv finish_ok [OF assms(1,2) m(1,4,5) n(2,1)] by blast
qed

lemma alternates_ok:
  assumes "spool_ok S" "(k, fd, ino) \<in> set (sp_open S)" "plain_suffix (sfx @ msg_type (sp_procs S k) fd)"
    and "mail_close_alternate po e subdir sfx fd ino out (sp_procs S k) (sp_fs S) = (r, P, F)"
  shows "spool_ok (S\<lparr>sp_fs := F, sp_procs := (sp_procs S)(k := P), sp_open := removeAll (k, fd, ino) (sp_open S),
      sp_queue := (if r = Ret 0 then (alternate_target po subdir sfx fd ino (sp_procs S k), os_out out) # sp_queue S else sp_queue S)\<rparr>)"
proof -
  obtain m t where m: "table_get (mail_file (sp_procs S k)) fd = Some m" "table_get (mail_type (sp_procs S k)) fd = Some t" "plain_suffix t"
    "names (sp_fs S) m = Some ino" "CHR '':'' \<in> set (basename m)"
    by (rule open_handleD [OF assms(1,2)])
  note n = alternate_target_id [OF assms(3), of po subdir ino]
  have "names_ok (sp_fs S)" using assms(1) by (simp add: spool_ok_def)
  from target_free [OF this m(4,5) n(2,1)] have f: "names (sp_fs S) (alternate_target po subdir sfx fd ino (sp_procs S k)) = None" .
  note mv = mail_close_alternate_moves [OF m(1,4) f assms(4)]
  show ?thesis using mv finish_ok [OF assms(1,2) m(1,4,5) n(2,1)] by blast
qed

lemma spooling_ok: "spooling po S \<Longrightarrow> spool_ok S"
proof (induction rule: spooling.induct)
  case (start F)
  then show ?case by (simp add: spool_new_def spool_ok_def names_ok_def)
next
  case (opens S k e ty r P F)
  from opens_ok [OF opens(5,2,3,4)] show ?case .
next
  case (closes S k fd ino e async out r P F)
  show ?case by (rule closes_ok [OF closes(4,2,3)])
next
  case (alternates S k fd ino sfx e subdir out r P F)
  from alternates_ok [OF alternates(5,2,3,4)] show ?case .
next
  case (aborts S k fd ino r P F)
  from abort_ok [OF aborts(4,2,3)] show ?case .
next
  case (takes S p t)
  from take_ok [OF takes(3,2)] show ?case .
qed


section \<open>An example\<close>

definition fs0 :: fs where
  "fs0 = \<lparr>names = (\<lambda>_. None), contents = (\<lambda>_. []), isdir = (\<lambda>_. True)\<rparr>"

definition oe0 :: openenv where
  "oe0 = \<lparr>oe_host = None, oe_pid = 1, oe_opens = [Some (0, 7)], oe_fdopen = True, oe_fstat = True, oe_fullname = None,
     oe_prettylogin = None, oe_myhostname = None, oe_user = None, oe_stream = os_new\<rparr>"

definition ce0 :: closeenv where
  "ce0 = \<lparr>ce_flush = True, ce_fsync = True, ce_fclose = True, ce_rename = [RenBusy True, RenDone], ce_priority = 0, ce_inputdirs = None,
     ce_routerdirs = None, ce_inputdirhash = None, ce_routerdirhash = None, ce_alloca = True\<rparr>"

definition spool1 :: spool where
  "spool1 = (case mail_open ''po'' oe0 None mproc_new fs0 of
     (r, P, F) \<Rightarrow> (spool_new fs0)\<lparr>sp_fs := F, sp_procs := (\<lambda>_. mproc_new)(2 := P),
       sp_open := (case r of None \<Rightarrow> [] | Some (fd, ino, out) \<Rightarrow> [(2, fd, ino)])\<rparr>)"

lemma spool1_open: "(2, 0, 7) \<in> set (sp_open spool1)"
  by code_simp

lemma spool1_spooling: "spooling ''po'' spool1"
proof -
  obtain r P F where m: "mail_open ''po'' oe0 None mproc_new fs0 = (r, P, F)" by (metis prod_cases3)
  have "spooling ''po'' (spool_new fs0)" by (rule spooling.start) (simp add: fs0_def)
  moreover have "legal_opens (spool_new fs0) 2 oe0" by (simp add: legal_opens_def spool_new_def fs0_def)
  moreover have "plain_suffix (case None of None \<Rightarrow> [] | Some t \<Rightarrow> t)" by (simp add: plain_suffix_def)
  moreover have "mail_open ''po'' oe0 None (sp_procs (spool_new fs0) 2) (sp_fs (spool_new fs0)) = (r, P, F)" using m by (simp add: spool_new_def)
  ultimately have "spooling ''po'' ((spool_new fs0)\<lparr>sp_fs := F, sp_procs := (sp_procs (spool_new fs0))(2 := P),
      sp_open := (case r of None \<Rightarrow> sp_open (spool_new fs0) | Some (fd, ino, out) \<Rightarrow> (2, fd, ino) # sp_open (spool_new fs0))\<rparr>)"
    by (rule spooling.opens)
  then show ?thesis by (cases r) (auto simp: spool1_def m spool_new_def)
qed

section \<open>Properties\<close>

text \<open>
  C3: Closing a message file is atomic and overwrites nothing.  Whatever any number of processes have opened, closed and aborted
  and the router has taken away before, in whatever order, \<open>mail_close\<close> either fails and every file keeps its
  name, or it succeeds and exactly the written text stands under a name in the queue that was free, and all other
  names and contents are as before.
\<close>

theorem mail_close_atomic:
  assumes "spooling po S" "(k, fd, ino) \<in> set (sp_open S)" "mail_close po e async fd ino out (sp_procs S k) (sp_fs S) = (r, P, F)"
  shows "(\<forall>j. j \<noteq> ino \<longrightarrow> contents F j = contents (sp_fs S) j) \<and>
    (if r = Ret 0 then
       \<exists>m n. names (sp_fs S) m = Some ino \<and> names (sp_fs S) n = None \<and>
         names F = (names (sp_fs S))(m := None, n := Some ino) \<and> contents F ino = os_out out
     else names F = names (sp_fs S))"
proof -
  obtain m where m: "names (sp_fs S) m = Some ino" "names (sp_fs S) (close_target po e fd ino (sp_procs S k) (sp_fs S)) = None"
    "moved m (close_target po e fd ino (sp_procs S k) (sp_fs S)) ino out (sp_fs S) r F"
    by (rule closes_ok [OF spooling_ok [OF assms(1)] assms(2,3)])
  show ?thesis
  proof (cases "r = Ret 0")
    case True
    then show ?thesis using m unfolding moved_def by auto
  next
    case False
    then show ?thesis using m(3) unfolding moved_def by simp
  qed
qed

theorem mail_close_atomic_witness:
  "\<exists>m n. names (sp_fs spool1) m = Some 7 \<and> names (sp_fs spool1) n = None \<and>
     names (snd (snd (mail_close ''po'' ce0 False 0 7 (fwrite ''text'' os_new) (sp_procs spool1 2) (sp_fs spool1)))) =
       (names (sp_fs spool1))(m := None, n := Some 7)"
proof -
  have r: "fst (mail_close ''po'' ce0 False 0 7 (fwrite ''text'' os_new) (sp_procs spool1 2) (sp_fs spool1)) = Ret 0" by code_simp
  obtain P F where m: "mail_close ''po'' ce0 False 0 7 (fwrite ''text'' os_new) (sp_procs spool1 2) (sp_fs spool1) = (Ret 0, P, F)"
    using r by (metis prod.collapse)
  show ?thesis using mail_close_atomic [OF spool1_spooling spool1_open m] unfolding m by auto
qed

text \<open>
  C11: No finished message is lost or changed.  In every state of the spool, every message that was closed successfully and not yet taken is
  under its own name with exactly the text that was written, no two names share a file, and each of these names starts with the number of
  the file.
\<close>

theorem spool_keeps_messages:
  assumes "spooling po S"
  shows "(\<forall>p t. (p, t) \<in> set (sp_queue S) \<longrightarrow>
      (\<exists>i. names (sp_fs S) p = Some i \<and> contents (sp_fs S) i = t \<and> file_id p = dec_text i)) \<and>
    (\<forall>p q i. names (sp_fs S) p = Some i \<longrightarrow> names (sp_fs S) q = Some i \<longrightarrow> p = q)"
proof -
  have ok: "spool_ok S" by (rule spooling_ok [OF assms])
  then have n: "names_ok (sp_fs S)" by (simp add: spool_ok_def)
  have "\<exists>i. names (sp_fs S) p = Some i \<and> contents (sp_fs S) i = t \<and> file_id p = dec_text i" if "(p, t) \<in> set (sp_queue S)" for p t
  proof -
    have "queue_ok S (p, t)" using ok that unfolding spool_ok_def by blast
    then show ?thesis using n unfolding queue_ok_def names_ok_def by auto
  qed
  then show ?thesis using n unfolding names_ok_def by blast
qed

theorem spool_keeps_messages_witness:
  "\<exists>S i. spooling ''po'' S \<and> sp_queue S = [(''po/router/7'', ''text'')] \<and> names (sp_fs S) ''po/router/7'' = Some i \<and> contents (sp_fs S) i = ''text''"
proof -
  let ?c = "mail_close ''po'' ce0 False 0 7 (fwrite ''text'' os_new) (sp_procs spool1 2) (sp_fs spool1)"
  have r: "fst ?c = Ret 0" "close_target ''po'' ce0 0 7 (sp_procs spool1 2) (sp_fs spool1) = ''po/router/7''" "os_out (fwrite ''text'' os_new) = ''text''"
    "sp_queue spool1 = []"
    by code_simp+
  obtain P F where m: "?c = (Ret 0, P, F)" using r(1) by (metis prod.collapse)
  define S where "S = spool1\<lparr>sp_fs := F, sp_procs := (sp_procs spool1)(2 := P), sp_open := removeAll (2, 0, 7) (sp_open spool1),
      sp_queue := [(''po/router/7'', ''text'')]\<rparr>"
  have s: "spooling ''po'' S"
    using spooling.closes [OF spool1_spooling spool1_open m] unfolding S_def r(2-4) by simp
  have q: "sp_queue S = [(''po/router/7'', ''text'')]" by (simp add: S_def)
  show ?thesis using spool_keeps_messages [OF s] s q by auto
qed

text \<open>
  C37: The buffer for the new name is allocated with room for an inode number of 13 digits, or 11 with hashed directories: with the default
  directories \<open>mail_close\<close> writes over its end exactly for larger inode numbers, which 64-bit file systems have.
\<close>

theorem queue_name_bound:
  assumes "table_get (mail_file P) fd = Some m" "fst (stored e async ino out F)" "ce_inputdirs e = None" "ce_priority e = 0"
  shows "fst (mail_close po e async fd ino out P F) = Overran \<longleftrightarrow>
    ino \<ge> (if hash_setting e False (forget fd P) > 0 then 10 ^ 11 else 10 ^ 13)"
proof -
  have fd: "fd < length (mail_file P)" "mail_file P ! fd = Some m" using assms(1) by (auto simp: table_get_def split: if_splits)
  obtain G where st: "stored e async ino out F = (True, G)" using assms(2) by (cases "stored e async ino out F") auto
  let ?h = "hash_setting e False (forget fd P)"
  let ?n = "queue_name po ROUTERDIR (hash_text ?h ino) ino (msg_type P fd)"
  have d: "pick_dir e po G = (ROUTERDIR, False, 22)" using assms(3,4) by (simp add: pick_dir_def ROUTERDIR_def)
  have u: "upto_colon ROUTERDIR = ROUTERDIR" by (simp add: upto_colon_def ROUTERDIR_def)
  have c: "close_name po e ino (msg_type P fd) (forget fd P) G =
      ((forget fd P)\<lparr>routersubdirhash := ?h\<rparr>, ?n, length po + 22 + length (msg_type P fd))"
    by (simp add: close_name_def d u)
  have l: "length ?n = length po + 8 + (if ?h > 0 then 2 else 0) + length (dec_text ino) + length (msg_type P fd)"
    by (simp add: queue_name_def hash_text_def ROUTERDIR_def)
  have "fst (mail_close po e async fd ino out P F) = Overran \<longleftrightarrow> length ?n + 1 > length po + 22 + length (msg_type P fd)"
    using fd by (auto simp: mail_close_def st c Let_def split: option.splits if_splits prod.splits)
  also have "\<dots> \<longleftrightarrow> \<not> length (dec_text ino) \<le> (if ?h > 0 then 11 else 13)" unfolding l by auto
  also have "\<dots> \<longleftrightarrow> ino \<ge> (if ?h > 0 then 10 ^ 11 else 10 ^ 13)"
    using dec_text_length [of 11 ino] dec_text_length [of 13 ino] by auto
  finally show ?thesis .
qed

theorem queue_name_bound_witness:
  "fst (mail_close ''po'' ce0 False 0 (10 ^ 13) os_new (sp_procs spool1 2) (sp_fs spool1)) = Overran"
proof -
  have "table_get (mail_file (sp_procs spool1 2)) 0 = Some ''po/public/I:1''" "hash_setting ce0 False (forget 0 (sp_procs spool1 2)) = 0"
    by code_simp+
  then show ?thesis
    using queue_name_bound [of "sp_procs spool1 2" 0 "''po/public/I:1''" ce0 False "10 ^ 13" os_new "sp_fs spool1" "''po''"]
    by (simp add: stored_def ce0_def)
qed

text \<open>The name in an alternate directory always fits, for inode numbers of 63 bits.\<close>

lemma alternate_name_fits:
  assumes "ino < 2 ^ 63"
  shows "fst (mail_close_alternate po e subdir sfx fd ino out P F) \<noteq> Overran"
proof -
  have "ino < 10 ^ 20" using assms by (rule less_trans) simp
  then have "length (dec_text ino) \<le> 20" using dec_text_length [of 20 ino] by simp
  then show ?thesis
    by (auto simp: mail_close_alternate_def queue_name_def Let_def split: option.splits if_splits prod.splits)
qed

text \<open>
  An input directory is passed over: with three directories of which the first does not exist, a message of priority 1 goes to the default
  directory, although the two others exist.
\<close>

lemma input_dir_skips: "input_dir (\<lambda>d. d \<in> {''y'', ''z''}) 1 ''x:y:z'' = None" "input_dir (\<lambda>d. d \<in> {''y'', ''z''}) 1 ''x:y'' = Some ''y''"
  by code_simp+

text \<open>\<open>mail_link\<close> looks for a free name but renames over the first one: a file that has it is lost.\<close>

lemma mail_link_overwrites:
  assumes "names F from = Some i" "names F (po @ ''/'' @ name) = Some j" "i \<noteq> j" "CHR ''%'' \<notin> set name"
  shows "\<exists>F'. mail_link po from (name @ ''%'') ([RenDone] # rss) F = Some (Some (po @ ''/'' @ name), F') \<and> names F' (po @ ''/'' @ name) = Some i"
proof -
  have "takeWhile (\<lambda>c. c \<noteq> CHR ''%'') (name @ ''%'') = name" "dropWhile (\<lambda>c. c \<noteq> CHR ''%'') (name @ ''%'') = ''%''"
    using assms(4) by (auto simp: takeWhile_append dropWhile_append)
  then have "\<exists>ns. candidates (name @ ''%'') = name # ns" by (simp add: candidates_def SUFFIXCHARS_def)
  then show ?thesis using assms(1-3) by (auto simp: mail_link_def rename_fs_def)
qed

end
