(* ===== verification/Strmatch.thy ===== *)
theory Strmatch
  imports Prelude
begin

text \<open>
  The wildcard matcher of the configuration files, \<^verbatim>\<open>lib/strmatch.c\<close>, and a reference semantics of its
  patterns.  Pattern and term are NUL-terminated; a pointer is the suffix it points at.
\<close>

section \<open>The matcher\<close>

text \<open>How the scan of a bracket ends: at the end of the pattern, at \<open>]\<close> or at the character of the term, or inside a range.\<close>

datatype class_exit = ClassEnd | ClassStop string | ClassHit string

definition class_range :: "char \<Rightarrow> char \<Rightarrow> char \<Rightarrow> bool" where
  "class_range x y c \<longleftrightarrow> (ord x + 1) mod 256 \<le> ord c \<and> ord c \<le> min (ord y) 127"

function class_loop :: "string \<Rightarrow> char \<Rightarrow> class_exit" where
  "class_loop pattern c =
     (if cur pattern = CHR '']'' \<or> cur pattern = c then ClassStop pattern
      else if cur pattern = NUL then ClassEnd
      else
        let c2 = cur (tl (tl pattern))
        in if cur (tl pattern) = CHR ''-'' \<and> c2 \<noteq> CHR '']'' \<and> c2 \<noteq> NUL then
             (if class_range (cur pattern) c2 c then ClassHit pattern else class_loop (tl (tl (tl pattern))) c)
           else class_loop (tl pattern) c)"
  by auto
termination
  by (relation "measure (\<lambda>(p, c). length p)") (auto simp: cur_def split: list.splits)

declare class_loop.simps [simp del]

text \<open>The jump behind the closing bracket, \<open>None\<close> when there is none.\<close>

fun class_skip :: "string \<Rightarrow> string option" where
  "class_skip [] = None"
| "class_skip (p # pattern) =
     (if p = CHR '']'' then Some pattern else if cur pattern = NUL then None else class_skip pattern)"

lemma class_skip_length: "class_skip p = Some q \<Longrightarrow> length q < length p"
  by (induction p rule: class_skip.induct) (auto split: if_splits)

fun exit_ptr :: "class_exit \<Rightarrow> string" where
  "exit_ptr ClassEnd = []"
| "exit_ptr (ClassStop p) = p"
| "exit_ptr (ClassHit p) = p"

lemma class_loop_suffix: "suffix (exit_ptr (class_loop p c)) p"
proof (induction p c rule: class_loop.induct)
  case (1 p c)
  have t: "suffix (tl p) p" "suffix (tl (tl (tl p))) p" by (simp_all add: suffix_tl_trans)
  show ?case
    using 1 by (subst class_loop.simps)
      (auto simp: Let_def intro: suffix_order.trans [OF _ t(1)] suffix_order.trans [OF _ t(2)])
qed

lemma class_loop_length: "length (exit_ptr (class_loop p c)) \<le> length p"
  by (rule suffix_length_le [OF class_loop_suffix])

text \<open>
  What a bracket at the start of \<open>pattern\<close> does with the character \<open>c\<close>: a final answer, or the rest of
  the pattern to go on with.
\<close>

definition class_match :: "string \<Rightarrow> char \<Rightarrow> bool + string" where
  "class_match pattern c =
     (let sense = (cur (tl pattern) \<noteq> CHR ''!'');
          p = (if sense then tl pattern else tl (tl pattern));
          ok = (\<lambda>p. case class_skip p of None \<Rightarrow> Inl False | Some q \<Rightarrow> Inr q)
      in case class_loop p c of
           ClassEnd \<Rightarrow> Inl (\<not> sense)
         | ClassStop p \<Rightarrow> if (cur p = CHR '']'') = sense then Inl False else ok p
         | ClassHit p \<Rightarrow> if sense then ok p else Inl False)"

lemma class_match_length: "class_match p c = Inr q \<Longrightarrow> length q < length p"
  using class_loop_length [of "tl p" c] class_loop_length [of "tl (tl p)" c]
  by (cases p)
     (auto simp: class_match_def Let_def split: if_splits option.splits class_exit.splits dest!: class_skip_length)

text \<open>The terms the loop of the star tries: every suffix up to the terminating NUL.\<close>

fun star_terms :: "string \<Rightarrow> string list" where
  "star_terms [] = [[]]"
| "star_terms (c # term) = (c # term) # (if c = NUL then [] else star_terms term)"

function strmatch :: "string \<Rightarrow> string \<Rightarrow> bool" where
  "strmatch pattern term =
     (let c = cur pattern
      in if c = CHR ''*'' then list_ex (\<lambda>term. strmatch (tl pattern) term) (star_terms term)
         else if c = BSLASH then
           (if cur term = NUL then False
            else if cur (tl pattern) = NUL then False
            else if cur (tl pattern) \<noteq> cur term then False
            else strmatch (tl (tl pattern)) (tl term))
         else if c = CHR ''['' then
           (if cur term = NUL then False
            else case class_match pattern (cur term) of Inl r \<Rightarrow> r | Inr p \<Rightarrow> strmatch p (tl term))
         else if c = CHR ''?'' then (if cur term = NUL then False else strmatch (tl pattern) (tl term))
         else if c = NUL then cur term = NUL
         else if c \<noteq> cur term then False
         else strmatch (tl pattern) (tl term))"
  by auto
termination
  by (relation "measure (\<lambda>(p, t). length p)")
     (auto simp: cur_def split: list.splits dest: class_match_length)

declare strmatch.simps [simp del]

section \<open>The meaning of a pattern\<close>

text \<open>
  A bracket without its closing bracket never matches, or, when it is negated, matches every term
  that starts with a character not listed in it.
\<close>

datatype ptok =
    PLit char
  | PAny
  | PStar
  | PClass bool string
  | PNever
  | PNotIn string

fun in_class :: "string \<Rightarrow> char \<Rightarrow> bool" where
  "in_class [] c \<longleftrightarrow> False"
| "in_class [x] c \<longleftrightarrow> x = c"
| "in_class [x, y] c \<longleftrightarrow> x = c \<or> y = c"
| "in_class (x # y # z # b) c \<longleftrightarrow>
     x = c \<or> (if y = CHR ''-'' then class_range x z c \<or> in_class b c else in_class (y # z # b) c)"

definition bracket :: "string \<Rightarrow> bool \<Rightarrow> ptok \<times> string" where
  "bracket p sense =
     (let b = takeWhile (\<lambda>c. c \<noteq> CHR '']'') p; r = dropWhile (\<lambda>c. c \<noteq> CHR '']'') p
      in if r \<noteq> [] then (PClass sense b, tl r) else (if sense then PNever else PNotIn b, []))"

lemma bracket_length: "length (snd (bracket p sense)) \<le> length p"
  using length_dropWhile_le [of "\<lambda>c. c \<noteq> CHR '']''" p] by (auto simp: bracket_def Let_def)

function tokens :: "string \<Rightarrow> ptok list" where
  "tokens [] = []"
| "tokens (c # p) =
     (if c = CHR ''*'' then PStar # tokens p
      else if c = CHR ''?'' then PAny # tokens p
      else if c = BSLASH then (case p of [] \<Rightarrow> [PNever] | d # q \<Rightarrow> PLit d # tokens q)
      else if c = CHR ''['' then
        (case p of
           [] \<Rightarrow> [PNever]
         | d # q \<Rightarrow>
             if d = CHR ''!'' then (case bracket q False of (t, r) \<Rightarrow> t # tokens r)
             else (case bracket p True of (t, r) \<Rightarrow> t # tokens r))
      else PLit c # tokens p)"
  by pat_completeness auto
termination
  by (relation "measure length")
     (auto, (metis bracket_length le_imp_less_Suc less_SucI snd_conv length_Cons)+)

fun matches :: "ptok list \<Rightarrow> string \<Rightarrow> bool" where
  "matches [] t \<longleftrightarrow> t = []"
| "matches (PStar # ts) t \<longleftrightarrow> (\<exists>u v. t = u @ v \<and> matches ts v)"
| "matches (PLit c # ts) t \<longleftrightarrow> (\<exists>v. t = c # v \<and> matches ts v)"
| "matches (PAny # ts) t \<longleftrightarrow> (\<exists>c v. t = c # v \<and> matches ts v)"
| "matches (PClass sense b # ts) t \<longleftrightarrow> (\<exists>c v. t = c # v \<and> in_class b c = sense \<and> matches ts v)"
| "matches (PNever # ts) t \<longleftrightarrow> False"
| "matches (PNotIn b # ts) t \<longleftrightarrow> (\<exists>c v. t = c # v \<and> \<not> in_class b c)"

section \<open>The matcher implements the meaning\<close>

text \<open>Where the scan of the bracket's text \<open>b\<close> stops; \<open>r\<close> is empty or starts with the closing bracket.\<close>

definition class_rest :: "string \<Rightarrow> bool" where
  "class_rest r \<longleftrightarrow> r = [] \<or> (\<exists>r'. r = CHR '']'' # r')"

definition found_in :: "string \<Rightarrow> string \<Rightarrow> char \<Rightarrow> bool" where
  "found_in b r c \<longleftrightarrow> (\<exists>x y. b = x @ y \<and>
     (class_loop (b @ r) c = ClassHit (y @ r) \<or> y \<noteq> [] \<and> hd y = c \<and> class_loop (b @ r) c = ClassStop (y @ r)))"

lemma found_here: "c \<noteq> CHR '']'' \<Longrightarrow> found_in (c # b) r c"
  unfolding found_in_def by (intro exI [of _ "[]"] exI [of _ "c # b"]) (simp add: class_loop.simps)

lemma found_later:
  assumes "found_in b r c" "class_loop ((u @ b) @ r) c = class_loop (b @ r) c"
  shows "found_in (u @ b) r c"
proof -
  from assms(1) obtain x y where "b = x @ y" and
    "class_loop (b @ r) c = ClassHit (y @ r) \<or> y \<noteq> [] \<and> hd y = c \<and> class_loop (b @ r) c = ClassStop (y @ r)"
    unfolding found_in_def by blast
  then show ?thesis
    unfolding found_in_def using assms(2) by (intro exI [of _ "u @ x"] exI [of _ y]) simp
qed

lemma class_rest_cur: "class_rest r \<Longrightarrow> cur r = CHR '']'' \<or> cur r = NUL"
  by (auto simp: class_rest_def)

lemma class_loop_rest: "class_rest r \<Longrightarrow> c \<noteq> NUL \<Longrightarrow> class_loop r c = (if r = [] then ClassEnd else ClassStop r)"
  by (auto simp: class_rest_def class_loop.simps)

lemma class_loop_one:
  assumes "x \<noteq> CHR '']''" "x \<noteq> NUL" "x \<noteq> c" "cur p = CHR ''-'' \<longrightarrow> cur (tl p) = CHR '']'' \<or> cur (tl p) = NUL"
  shows "class_loop (x # p) c = class_loop p c"
  using assms by (subst class_loop.simps) (auto simp: Let_def)

lemma class_loop_spec:
  assumes "CHR '']'' \<notin> set b" "NUL \<notin> set b" "class_rest r" "c \<noteq> NUL"
  shows "if in_class b c then found_in b r c else class_loop (b @ r) c = (if r = [] then ClassEnd else ClassStop r)"
  using assms(1,2,4)
proof (induction b c rule: in_class.induct [case_names none one two more])
  case (none c)
  then show ?case using class_loop_rest [OF assms(3)] by simp
next
  case (one x c)
  then show ?case
    using class_loop_rest [OF assms(3), of c] class_loop_one [of x c r] class_rest_cur [OF assms(3)] found_here [of x "[]" r]
    by (cases "x = c") auto
next
  case (two x y c)
  have y: "y \<noteq> c \<Longrightarrow> class_loop (y # r) c = class_loop r c" "x \<noteq> c \<Longrightarrow> class_loop (x # y # r) c = class_loop (y # r) c"
    using two class_rest_cur [OF assms(3)] by (auto intro!: class_loop_one)
  have "found_in ([x] @ [c]) r c" if "x \<noteq> c" "y = c"
    using that two y(2) found_here [of c "[]" r] by (intro found_later) auto
  then show ?case
    using two y class_loop_rest [OF assms(3), of c] found_here [of c "[y]" r] by (cases "x = c"; cases "y = c") auto
next
  case (more x y z b c)
  consider (here) "x = c" | (char) "x \<noteq> c" "y \<noteq> CHR ''-''" | (range) "x \<noteq> c" "y = CHR ''-''" by blast
  then show ?case
  proof cases
    case here
    then show ?thesis using more.prems found_here [of c "y # z # b" r] by auto
  next
    case char
    then have l: "class_loop (([x] @ y # z # b) @ r) c = class_loop ((y # z # b) @ r) c"
      using more.prems by (auto intro!: class_loop_one)
    have "if in_class (y # z # b) c then found_in (y # z # b) r c
      else class_loop ((y # z # b) @ r) c = (if r = [] then ClassEnd else ClassStop r)"
      using more char by simp
    then show ?thesis
      using char l found_later [OF _ l] by (simp split: if_splits)
  next
    case range
    have l: "class_loop (([x, y, z] @ b) @ r) c =
        (if class_range x z c then ClassHit (x # y # z # b @ r) else class_loop (b @ r) c)"
      using range more.prems by (subst class_loop.simps) (auto simp: Let_def)
    have h: "class_range x z c \<Longrightarrow> found_in ([x, y, z] @ b) r c"
      unfolding found_in_def l by (intro exI [of _ "[]"] exI [of _ "[x, y, z] @ b"]) simp
    have "if in_class b c then found_in b r c else class_loop (b @ r) c = (if r = [] then ClassEnd else ClassStop r)"
      using more range by simp
    then show ?thesis
      using range l h found_later [of b r c "[x, y, z]"] by (simp split: if_splits)
  qed
qed

lemma class_skip_rest:
  "CHR '']'' \<notin> set y \<Longrightarrow> NUL \<notin> set y \<Longrightarrow> class_rest r \<Longrightarrow> class_skip (y @ r) = (if r = [] then None else Some (tl r))"
proof (induction y)
  case Nil
  then show ?case by (auto simp: class_rest_def)
next
  case (Cons a y)
  have "cur (y @ r) = NUL \<Longrightarrow> y = [] \<and> r = []" using Cons.prems by (cases y) (auto simp: class_rest_def)
  then show ?case using Cons by auto
qed

lemma class_match_spec:
  assumes "CHR '']'' \<notin> set b" "NUL \<notin> set b" "class_rest r" "c \<noteq> NUL"
    "p = (if sense then b @ r else CHR ''!'' # b @ r)" "sense \<longrightarrow> cur p \<noteq> CHR ''!''"
  shows "class_match (CHR ''['' # p) c =
           (if in_class b c = sense then (if r = [] then Inl (\<not> sense) else Inr (tl r)) else Inl False)"
proof -
  let ?sense = "cur p \<noteq> CHR ''!''" and ?p = "if cur p \<noteq> CHR ''!'' then p else tl p"
  have s: "?sense = sense" "?p = b @ r" using assms(5,6) by auto
  show ?thesis
  proof (cases "in_class b c")
    case False
    then have "class_loop (b @ r) c = (if r = [] then ClassEnd else ClassStop r)"
      using class_loop_spec [OF assms(1-4)] by simp
    moreover have "r \<noteq> [] \<Longrightarrow> cur r = CHR '']'' \<and> class_skip r = Some (tl r)"
      using assms(3) by (auto simp: class_rest_def)
    ultimately show ?thesis
      using False s unfolding class_match_def Let_def by (simp split: if_splits)
  next
    case True
    then obtain x y where y: "b = x @ y" "class_loop (b @ r) c = ClassHit (y @ r) \<or>
        y \<noteq> [] \<and> hd y = c \<and> class_loop (b @ r) c = ClassStop (y @ r)"
      using class_loop_spec [OF assms(1-4)] unfolding found_in_def by auto
    have "class_skip (y @ r) = (if r = [] then None else Some (tl r))"
      using y(1) assms(1-3) by (intro class_skip_rest) auto
    moreover have "y \<noteq> [] \<Longrightarrow> cur (y @ r) \<noteq> CHR '']''"
      using y(1) assms(1) by (cases y) auto
    ultimately show ?thesis
      using True s y(2) unfolding class_match_def Let_def by (auto split: if_splits)
  qed
qed

lemma star_terms_set: "NUL \<notin> set t \<Longrightarrow> set (star_terms t) = {v. \<exists>u. t = u @ v}"
proof (induction t)
  case (Cons c t)
  have "{v. \<exists>u. c # t = u @ v} = insert (c # t) {v. \<exists>u. t = u @ v}"
    by (auto simp: Cons_eq_append_conv)
  then show ?case using Cons by auto
qed simp

lemma bracket_spec:
  assumes "bracket p sense = (tok, r)" "NUL \<notin> set p"
  obtains b q where "p = b @ q" "CHR '']'' \<notin> set b" "class_rest q" "NUL \<notin> set b" "NUL \<notin> set r"
    "r = (if q = [] then [] else tl q)" "tok = (if q \<noteq> [] then PClass sense b else if sense then PNever else PNotIn b)"
proof -
  let ?P = "\<lambda>c. c \<noteq> CHR '']''"
  let ?b = "takeWhile ?P p" and ?q = "dropWhile ?P p"
  have p: "p = ?b @ ?q" by simp
  have "class_rest ?q" by (induction p) (auto simp: class_rest_def)
  moreover have "CHR '']'' \<notin> set ?b" by (auto dest: set_takeWhileD)
  moreover have "NUL \<notin> set ?b" "NUL \<notin> set ?q" using assms(2) by (auto dest: set_takeWhileD set_dropWhileD)
  ultimately show ?thesis
    using that [OF p] assms(1) by (cases ?q) (auto simp: bracket_def Let_def)
qed

lemma strmatch_bracket:
  assumes "NUL \<notin> set q" "NUL \<notin> set t" "bracket q sense = (tok, r)" "sense \<longrightarrow> cur q \<noteq> CHR ''!''"
    "\<And>v. NUL \<notin> set v \<Longrightarrow> strmatch r v = matches (tokens r) v"
    "p = (if sense then q else CHR ''!'' # q)"
  shows "strmatch (CHR ''['' # p) t = matches (tok # tokens r) t"
proof -
  obtain b e where b: "q = b @ e" "CHR '']'' \<notin> set b" "class_rest e" "NUL \<notin> set b" "NUL \<notin> set r"
    "r = (if e = [] then [] else tl e)" "tok = (if e \<noteq> [] then PClass sense b else if sense then PNever else PNotIn b)"
    using bracket_spec [OF assms(3,1)] .
  show ?thesis
  proof (cases t)
    case Nil
    then show ?thesis using b(7) by (simp add: strmatch.simps)
  next
    case (Cons c v)
    then have "class_match (CHR ''['' # p) c =
        (if in_class b c = sense then (if e = [] then Inl (\<not> sense) else Inr (tl e)) else Inl False)"
      using assms(2,4,6) b(1-4) by (intro class_match_spec) auto
    moreover have "strmatch r v = matches (tokens r) v" using assms(2,5) Cons by simp
    ultimately show ?thesis
      using Cons assms(2) b(6,7) by (subst strmatch.simps) auto
  qed
qed

lemma strmatch_tokens: "NUL \<notin> set p \<Longrightarrow> NUL \<notin> set t \<Longrightarrow> strmatch p t = matches (tokens p) t"
proof (induction p arbitrary: t rule: length_induct)
  case (1 p)
  then have IH: "length q < length p \<Longrightarrow> NUL \<notin> set q \<Longrightarrow> NUL \<notin> set v \<Longrightarrow> strmatch q v = matches (tokens q) v" for q v
    by blast
  show ?case
  proof (cases p)
    case Nil
    then show ?thesis using "1.prems"(2) by (cases t) (auto simp: strmatch.simps)
  next
    case (Cons c q)
    have q: "NUL \<notin> set q" "c \<noteq> NUL" using "1.prems"(1) Cons by auto
    consider (star) "c = CHR ''*''" | (any) "c = CHR ''?''" | (esc) "c = BSLASH" | (brack) "c = CHR ''[''"
      | (lit) "c \<noteq> CHR ''*''" "c \<noteq> CHR ''?''" "c \<noteq> BSLASH" "c \<noteq> CHR ''[''" by blast
    then show ?thesis
    proof cases
      case star
      have "(\<exists>v\<in>set (star_terms t). strmatch q v) \<longleftrightarrow> (\<exists>u v. t = u @ v \<and> matches (tokens q) v)"
      proof -
        have "strmatch q v = matches (tokens q) v" if "t = u @ v" for u v
          using that IH [of q v] q(1) Cons "1.prems"(2) by auto
        then show ?thesis unfolding star_terms_set [OF "1.prems"(2)] by blast
      qed
      then show ?thesis using star Cons by (subst strmatch.simps) (simp add: list_ex_iff)
    next
      case any
      then show ?thesis
        using IH [of q] q(1) Cons "1.prems"(2) by (cases t) (auto simp: strmatch.simps [of "_ # q"])
    next
      case esc
      then show ?thesis
        using IH [of "tl q"] q(1) Cons "1.prems"(2) by (cases t; cases q) (auto simp: strmatch.simps [of "BSLASH # _"])
    next
      case lit
      then show ?thesis
        using IH [of q] q Cons "1.prems"(2) by (cases t) (auto simp: strmatch.simps [of "_ # q"])
    next
      case brack
      show ?thesis
      proof (cases q)
        case Nil
        then show ?thesis
          using brack Cons "1.prems"(2) by (cases t) (auto simp: strmatch.simps [of "CHR ''['' # _"] class_match_def class_loop.simps)
      next
        case (Cons d e)
        obtain tok r where b: "bracket (if d = CHR ''!'' then e else q) (d \<noteq> CHR ''!'') = (tok, r)" by fastforce
        have "length r < length p" using bracket_length [of _ "d \<noteq> CHR ''!''"] b Cons \<open>p = c # q\<close>
          by (metis (full_types) le_imp_less_Suc length_Cons less_SucI snd_conv)
        moreover have "NUL \<notin> set r"
          using bracket_spec [OF b] q(1) Cons by (metis (full_types) list.set_intros(2))
        ultimately have "strmatch (CHR ''['' # q) t = matches (tok # tokens r) t"
          using q(1) Cons "1.prems"(2) IH [of r] b
          by (intro strmatch_bracket [where q = "if d = CHR ''!'' then e else q" and sense = "d \<noteq> CHR ''!''"]) auto
        then show ?thesis using b Cons \<open>p = c # q\<close> brack by auto
      qed
    qed
  qed
qed

text \<open>
  C22: For NUL-free arguments, \<open>strmatch\<close> decides exactly the meaning of its pattern: the tokens of the
  pattern consume the term one after the other, where a star consumes any number of characters, a
  question mark one, a bracket one character that is (or, negated, is not) listed in it or in one of its
  ranges, and any other character or an escaped character itself.  The backtracking search finds a match
  whenever there is one, and always terminates.
\<close>

theorem strmatch_meaning:
  assumes "NUL \<notin> set pattern" "NUL \<notin> set term"
  shows "strmatch pattern term \<longleftrightarrow> matches (tokens pattern) term"
  using assms by (rule strmatch_tokens)

theorem strmatch_meaning_witness: "strmatch ''*.f[a-c!]?'' ''x.y.fb1''"
proof -
  have t: "tokens ''*.f[a-c!]?'' = [PStar, PLit (CHR ''.''), PLit (CHR ''f''), PClass True ''a-c!'', PAny]"
    by (simp add: bracket_def)
  have m: "matches [PLit (CHR ''.''), PLit (CHR ''f''), PClass True ''a-c!'', PAny] ''.fb1''"
    by (simp add: class_range_def ord_def)
  have "matches (tokens ''*.f[a-c!]?'') ''x.y.fb1''"
    unfolding t matches.simps(2) using m by (intro exI [of _ "''x.y''"] exI [of _ "''.fb1''"] conjI) simp_all
  then show ?thesis using strmatch_meaning [of "''*.f[a-c!]?''" "''x.y.fb1''"] by simp
qed

end
