(* ===== verification/Lockaddr.thy ===== *)
theory Lockaddr
  imports Prelude
begin

text \<open>
  The recipient locks of the transport agents, \<^verbatim>\<open>transports/libta/lockaddr.c\<close>: a recipient line of a
  control file carries a tag character and a process id field, which an agent changes in place to claim
  the recipient and to record the outcome.

  The control file is its bytes and the position of the agent's descriptor; a shared mapping of it reads
  and writes the same bytes.  What the system calls do is given by a record of outcomes, so that every
  error path is a branch.  The model is of the build with \<open>HAVE_MMAP\<close>; \<open>HAVE_FCNTL\<close> is undefined in the file itself.
\<close>

section \<open>Tags\<close>

definition CFTAG_NORMAL :: char where "CFTAG_NORMAL = CHR '' ''"
definition CFTAG_LOCK :: char where "CFTAG_LOCK = CHR ''~''"
definition CFTAG_OK :: char where "CFTAG_OK = CHR ''+''"
definition CFTAG_NOTOK :: char where "CFTAG_NOTOK = CHR ''-''"
definition CFTAG_DEFER :: char where "CFTAG_DEFER = CFTAG_NORMAL"
definition CFTAG_RCPTPIDSIZE :: nat where "CFTAG_RCPTPIDSIZE = 6"

lemmas cftag_defs = CFTAG_NORMAL_def CFTAG_LOCK_def CFTAG_OK_def CFTAG_NOTOK_def CFTAG_DEFER_def

section \<open>The file and the system calls\<close>

record ctlfile =
  bytes :: string
  fpos :: nat

text \<open>
  The outcome of the system calls of one call of \<open>lockaddr\<close>: whether the two seeks succeed, whether the
  read delivers what the file holds, and how many bytes a write transfers.
\<close>

record iocalls =
  seek1_ok :: bool
  seek2_ok :: bool
  read_ok :: bool
  written :: nat

definition io_good :: "iocalls \<Rightarrow> bool" where
  "io_good io \<longleftrightarrow> seek1_ok io \<and> seek2_ok io \<and> read_ok io \<and> written io \<ge> CFTAG_RCPTPIDSIZE + 1"

definition put_bytes :: "nat \<Rightarrow> string \<Rightarrow> string \<Rightarrow> string" where
  "put_bytes pos d b = take pos b @ d @ drop (pos + length d) b"

text \<open>\<open>write(fd, d, n)\<close> at the current position: the count and the file.\<close>

definition fd_write :: "iocalls \<Rightarrow> string \<Rightarrow> ctlfile \<Rightarrow> nat \<times> ctlfile" where
  "fd_write io d f =
     (let d = take (written io) d
      in (length d, f\<lparr>bytes := put_bytes (fpos f) d (bytes f), fpos := fpos f + length d\<rparr>))"

text \<open>\<open>sprintf(..., "%*d", 6, pid)\<close>.\<close>

fun dec_digits :: "nat \<Rightarrow> string" where
  "dec_digits n = (if n < 10 then [char_of (48 + n)] else dec_digits (n div 10) @ [char_of (48 + n mod 10)])"

declare dec_digits.simps [simp del]

definition pid_field :: "nat \<Rightarrow> string" where
  "pid_field pid = replicate (CFTAG_RCPTPIDSIZE - length (dec_digits pid)) SPC @ dec_digits pid"

text \<open>The 16 bytes at an offset of the mapping; the rest of the last page is zero.\<close>

definition map_read :: "nat \<Rightarrow> string \<Rightarrow> string" where
  "map_read off b = take 16 (drop off b @ replicate 16 NUL)"

section \<open>lockaddr\<close>

text \<open>
  The choice of the lock mode: \<open>ta_lockmode\<close> is set on the first call from the environment, and only then
  \<open>do_mmap\<close> can become true.
\<close>

definition lock_mode :: "string option \<Rightarrow> int \<Rightarrow> bool \<Rightarrow> string option \<Rightarrow> string \<times> bool" where
  "lock_mode zenv ta_use_mmap mapped ta_lockmode =
     (case ta_lockmode of
        Some m \<Rightarrow> (m, False)
      | None \<Rightarrow>
          let m = (case zenv of Some m \<Rightarrow> m | None \<Rightarrow> if ta_use_mmap > 0 then ''M'' else ''W'')
          in (m, cur m = CHR ''M'' \<and> mapped))"

text \<open>The new contents of the tag and the id field.\<close>

definition lock_text :: "char \<Rightarrow> char \<Rightarrow> nat \<Rightarrow> string \<Rightarrow> string" where
  "lock_text was new pid lockbuf =
     (if new = CFTAG_LOCK then new # pid_field pid
      else if new = CFTAG_DEFER then new # replicate CFTAG_RCPTPIDSIZE SPC @ drop (1 + CFTAG_RCPTPIDSIZE) lockbuf
      else if \<not> (was = CFTAG_NORMAL \<and> new = CFTAG_OK)
      then new # replicate CFTAG_RCPTPIDSIZE SPC @ drop (1 + CFTAG_RCPTPIDSIZE) lockbuf
      else new # tl lockbuf)"

text \<open>The update of the field: through the mapping, through the descriptor, or both.\<close>

definition lock_store :: "iocalls \<Rightarrow> bool \<Rightarrow> nat \<Rightarrow> char \<Rightarrow> string \<Rightarrow> ctlfile \<Rightarrow> bool \<times> ctlfile" where
  "lock_store io do_mmap off new txt f =
     (let f = (if do_mmap then f\<lparr>bytes := put_bytes off txt (bytes f)\<rparr> else f)
      in if \<not> do_mmap \<or> (new \<noteq> CFTAG_LOCK \<and> new \<noteq> CFTAG_DEFER \<and> (new = CFTAG_OK \<or> new = CFTAG_NOTOK)) then
           (case fd_write io txt f of (n, f) \<Rightarrow> (n = CFTAG_RCPTPIDSIZE + 1, f))
         else (True, f))"

definition lockaddr ::
  "iocalls \<Rightarrow> string option \<Rightarrow> int \<Rightarrow> bool \<Rightarrow> nat \<Rightarrow> char \<Rightarrow> char \<Rightarrow> nat \<Rightarrow> string option \<times> ctlfile \<Rightarrow>
     bool \<times> string option \<times> ctlfile" where
  "lockaddr io zenv ta_use_mmap mapped off was new pid st =
     (case st of (ta_lockmode, f) \<Rightarrow>
      case lock_mode zenv ta_use_mmap mapped ta_lockmode of (mode, do_mmap) \<Rightarrow>
        if \<not> do_mmap \<and> \<not> seek1_ok io then (False, Some mode, f)
        else
          let f = (if do_mmap then f else f\<lparr>fpos := off\<rparr>);
              n = length (take 16 (drop off (bytes f)));
              lockbuf = (if do_mmap then map_read off (bytes f) else take 16 (drop off (bytes f)))
          in if \<not> do_mmap \<and> (\<not> read_ok io \<or> n \<noteq> 16) then (False, Some mode, f\<lparr>fpos := off + (if read_ok io then n else 0)\<rparr>)
             else
               let f = (if do_mmap then f else f\<lparr>fpos := off + 16\<rparr>);
                   newlock = (lockbuf ! 1 = SPC \<or> (48 \<le> ord (lockbuf ! 1) \<and> ord (lockbuf ! 1) \<le> 57))
               in if lockbuf ! 0 = was then
                    (if \<not> mapped \<and> \<not> seek2_ok io then (False, Some mode, f)
                     else
                       let f = (if mapped then f else f\<lparr>fpos := off\<rparr>)
                       in if newlock then
                            (case lock_store io do_mmap off new
                                    (take (CFTAG_RCPTPIDSIZE + 1) (lock_text was new pid lockbuf)) f of
                               (ok, f) \<Rightarrow> (ok, Some mode, f))
                          else (True, Some mode, f))
                  else (False, Some mode, f))"

section \<open>What a call does to the file\<close>

lemma length_pid_field: "length (pid_field pid) \<ge> CFTAG_RCPTPIDSIZE"
  by (simp add: pid_field_def)

lemma length_put_bytes: "pos + length d \<le> length b \<Longrightarrow> length (put_bytes pos d b) = length b"
  by (simp add: put_bytes_def)

lemma nth_put_bytes:
  "pos + length d \<le> length b \<Longrightarrow> put_bytes pos d b ! i = (if pos \<le> i \<and> i < pos + length d then d ! (i - pos) else b ! i)"
  by (auto simp: put_bytes_def nth_append not_less intro: arg_cong [where f = "(!) b"])

text \<open>The seven bytes written: the tag and the id field.\<close>

definition lock_field :: "char \<Rightarrow> char \<Rightarrow> nat \<Rightarrow> string \<Rightarrow> string" where
  "lock_field was new pid old =
     new # (if new = CFTAG_LOCK then take CFTAG_RCPTPIDSIZE (pid_field pid)
            else if was = CFTAG_NORMAL \<and> new = CFTAG_OK then old
            else replicate CFTAG_RCPTPIDSIZE SPC)"

definition field_open :: "nat \<Rightarrow> string \<Rightarrow> bool" where
  "field_open off b \<longleftrightarrow> b ! (off + 1) = SPC \<or> (48 \<le> ord (b ! (off + 1)) \<and> ord (b ! (off + 1)) \<le> 57)"

lemma lock_text_field:
  assumes "length lockbuf = 16"
  shows "take (CFTAG_RCPTPIDSIZE + 1) (lock_text was new pid lockbuf) =
         lock_field was new pid (take CFTAG_RCPTPIDSIZE (tl lockbuf))"
  using assms length_pid_field [of pid]
  by (cases lockbuf) (auto simp: lock_text_def lock_field_def CFTAG_RCPTPIDSIZE_def cftag_defs)

lemma length_lock_field: "length old = 6 \<Longrightarrow> length (lock_field was new pid old) = 7"
  using length_pid_field [of pid] by (simp add: lock_field_def CFTAG_RCPTPIDSIZE_def)

text \<open>The whole effect of a call through the descriptor, when the system calls succeed.\<close>

lemma lockaddr_descriptor:
  assumes "io_good io" "off + 16 \<le> length (bytes f)"
  shows "lockaddr io zenv um False off was new pid (m, f) =
    (bytes f ! off = was, Some (fst (lock_mode zenv um False m)),
     if bytes f ! off = was \<and> field_open off (bytes f) then
       \<lparr>bytes = put_bytes off (lock_field was new pid (take 6 (drop (off + 1) (bytes f)))) (bytes f), fpos = off + 7, \<dots> = ctlfile.more f\<rparr>
     else f\<lparr>fpos := if bytes f ! off = was then off else off + 16\<rparr>)"
proof -
  let ?l = "take 16 (drop off (bytes f))"
  have l: "length ?l = 16" "?l ! 0 = bytes f ! off" "?l ! 1 = bytes f ! (off + 1)"
    using assms(2) by auto
  have t: "take CFTAG_RCPTPIDSIZE (tl ?l) = take 6 (drop (off + 1) (bytes f))"
    by (simp add: CFTAG_RCPTPIDSIZE_def tl_take drop_Suc [symmetric] tl_drop)
  have m: "\<not> snd (lock_mode zenv um False m)"
    by (auto simp: lock_mode_def Let_def split: option.split)
  obtain mode where mode: "lock_mode zenv um False m = (mode, False)" using m by (metis prod.collapse)
  have w: "length (lock_field was new pid (take 6 (drop (off + 1) (bytes f)))) = 7" "written io \<ge> 7"
    using assms by (auto intro!: length_lock_field simp: io_good_def CFTAG_RCPTPIDSIZE_def)
  have tt: "take 7 (lock_text was new pid ?l) = lock_field was new pid (take 6 (drop (Suc off) (bytes f)))"
    using lock_text_field [OF l(1), of was new pid] unfolding t by (simp add: CFTAG_RCPTPIDSIZE_def)
  show ?thesis
    using assms(1) l w unfolding lockaddr_def mode split_conv fst_conv
    by (simp add: Let_def field_open_def tt lock_store_def fd_write_def io_good_def CFTAG_RCPTPIDSIZE_def)
qed

section \<open>Interface: a lock that agents compete for\<close>

fun attempts :: "(nat \<Rightarrow> 's \<Rightarrow> bool \<times> 's) \<Rightarrow> nat list \<Rightarrow> 's \<Rightarrow> bool list" where
  "attempts acquire [] s = []"
| "attempts acquire (p # ps) s = (case acquire p s of (ok, s) \<Rightarrow> ok # attempts acquire ps s)"

locale agent_lock =
  fixes wf :: "'s \<Rightarrow> bool" and free :: "'s \<Rightarrow> bool"
    and acquire :: "nat \<Rightarrow> 's \<Rightarrow> bool \<times> 's" and release :: "nat \<Rightarrow> 's \<Rightarrow> bool \<times> 's"
  assumes acquire_result: "wf s \<Longrightarrow> fst (acquire p s) = free s"
    and acquire_wf: "wf s \<Longrightarrow> wf (snd (acquire p s))"
    and acquire_taken: "wf s \<Longrightarrow> \<not> free (snd (acquire p s))"
    and release_taken: "wf s \<Longrightarrow> free s \<Longrightarrow> fst (release p (snd (acquire p s)))"
    and release_free: "wf s \<Longrightarrow> free s \<Longrightarrow> free (snd (release p (snd (acquire p s))))"
begin

lemma all_fail: "wf s \<Longrightarrow> \<not> free s \<Longrightarrow> attempts acquire ps s = replicate (length ps) False"
proof (induction ps arbitrary: s)
  case (Cons p ps)
  then show ?case
    using acquire_result [of s p] acquire_wf [of s p] acquire_taken [of s p] by (cases "acquire p s") auto
qed simp

lemma one_winner: "wf s \<Longrightarrow> free s \<Longrightarrow> attempts acquire (p # ps) s = True # replicate (length ps) False"
  using acquire_result [of s p] acquire_wf [of s p] acquire_taken [of s p] all_fail [of "snd (acquire p s)" ps]
  by (cases "acquire p s") auto

lemma next_winner:
  "wf s \<Longrightarrow> free s \<Longrightarrow> wf (snd (release p (snd (acquire p s)))) \<Longrightarrow>
     attempts acquire (q # ps) (snd (release p (snd (acquire p s)))) = True # replicate (length ps) False"
  using one_winner release_free by blast

end

section \<open>The recipient tag as such a lock\<close>

definition io_ok :: iocalls where
  "io_ok = \<lparr>seek1_ok = True, seek2_ok = True, read_ok = True, written = 7\<rparr>"

definition take_lock :: "string option \<Rightarrow> int \<Rightarrow> nat \<Rightarrow> nat \<Rightarrow> string option \<times> ctlfile \<Rightarrow> bool \<times> string option \<times> ctlfile" where
  "take_lock zenv um off pid = lockaddr io_ok zenv um False off CFTAG_NORMAL CFTAG_LOCK pid"

definition defer_lock :: "string option \<Rightarrow> int \<Rightarrow> nat \<Rightarrow> nat \<Rightarrow> string option \<times> ctlfile \<Rightarrow> bool \<times> string option \<times> ctlfile" where
  "defer_lock zenv um off pid = lockaddr io_ok zenv um False off CFTAG_LOCK CFTAG_DEFER pid"

definition lock_wf :: "nat \<Rightarrow> string option \<times> ctlfile \<Rightarrow> bool" where
  "lock_wf off st \<longleftrightarrow> off + 16 \<le> length (bytes (snd st)) \<and> field_open off (bytes (snd st))"

definition lock_free :: "nat \<Rightarrow> string option \<times> ctlfile \<Rightarrow> bool" where
  "lock_free off st \<longleftrightarrow> bytes (snd st) ! off = CFTAG_NORMAL"

lemma io_ok_good [simp]: "io_good io_ok"
  by (simp add: io_ok_def io_good_def CFTAG_RCPTPIDSIZE_def)

lemma dec_digits_hd: "48 \<le> ord (hd (dec_digits n)) \<and> ord (hd (dec_digits n)) \<le> 57 \<and> dec_digits n \<noteq> []"
proof (induction n rule: dec_digits.induct)
  case (1 n)
  then show ?case by (subst (1 2 3) dec_digits.simps) (auto simp: hd_append)
qed

lemma pid_field_hd: "pid_field pid \<noteq> [] \<and> (hd (pid_field pid) = SPC \<or> 48 \<le> ord (hd (pid_field pid)) \<and> ord (hd (pid_field pid)) \<le> 57)"
  using dec_digits_hd [of pid] by (auto simp: pid_field_def hd_append)

lemma lock_field_nth1:
  assumes "length old = 6" "old ! 0 = SPC \<or> 48 \<le> ord (old ! 0) \<and> ord (old ! 0) \<le> 57"
  shows "lock_field was new pid old ! 1 = SPC \<or> 48 \<le> ord (lock_field was new pid old ! 1) \<and> ord (lock_field was new pid old ! 1) \<le> 57"
  using assms pid_field_hd [of pid]
  by (auto simp: lock_field_def CFTAG_RCPTPIDSIZE_def hd_conv_nth)

text \<open>After a successful call the tag is the new one and the field is still open.\<close>

lemma lock_field_stored:
  assumes "off + 16 \<le> length b" "field_open off b" "d = lock_field was new pid (take 6 (drop (off + 1) b))"
  shows "put_bytes off d b ! off = new" "field_open off (put_bytes off d b)" "length (put_bytes off d b) = length b"
proof -
  have l: "length d = 7" unfolding assms(3) using assms(1) by (intro length_lock_field) simp
  then have "off + length d \<le> length b" using assms(1) by simp
  note n = nth_put_bytes [OF this]
  show "put_bytes off d b ! off = new" using l by (simp add: n) (simp add: assms(3) lock_field_def)
  show "length (put_bytes off d b) = length b" using l assms(1) by (simp add: length_put_bytes)
  have "d ! 1 = SPC \<or> 48 \<le> ord (d ! 1) \<and> ord (d ! 1) \<le> 57"
    unfolding assms(3) using assms(1,2) by (intro lock_field_nth1) (auto simp: field_open_def)
  then show "field_open off (put_bytes off d b)" using l by (simp add: field_open_def n)
qed

lemma take_lock_bytes:
  assumes "lock_wf off st"
  shows "fst (take_lock zenv um off pid st) = lock_free off st"
    "bytes (snd (snd (take_lock zenv um off pid st))) =
       (if lock_free off st
        then put_bytes off (lock_field CFTAG_NORMAL CFTAG_LOCK pid (take 6 (drop (off + 1) (bytes (snd st))))) (bytes (snd st))
        else bytes (snd st))"
  using assms lockaddr_descriptor [OF io_ok_good, of off "snd st" zenv um CFTAG_NORMAL CFTAG_LOCK pid "fst st"]
  by (cases st; auto simp: take_lock_def lock_wf_def lock_free_def)+

lemma defer_lock_bytes:
  assumes "lock_wf off st" "bytes (snd st) ! off = CFTAG_LOCK"
  shows "fst (defer_lock zenv um off pid st)"
    "bytes (snd (snd (defer_lock zenv um off pid st))) =
       put_bytes off (lock_field CFTAG_LOCK CFTAG_DEFER pid (take 6 (drop (off + 1) (bytes (snd st))))) (bytes (snd st))"
  using assms lockaddr_descriptor [OF io_ok_good, of off "snd st" zenv um CFTAG_LOCK CFTAG_DEFER pid "fst st"]
  by (cases st; auto simp: defer_lock_def lock_wf_def)+

lemma take_lock_wf:
  assumes "lock_wf off st"
  shows "lock_wf off (snd (take_lock zenv um off pid st))" "\<not> lock_free off (snd (take_lock zenv um off pid st))"
    "lock_free off st \<Longrightarrow> bytes (snd (snd (take_lock zenv um off pid st))) ! off = CFTAG_LOCK"
  using assms take_lock_bytes [OF assms, of zenv um pid] lock_field_stored [OF _ _ refl, of off "bytes (snd st)" CFTAG_NORMAL CFTAG_LOCK pid]
  by (auto simp: lock_wf_def lock_free_def CFTAG_NORMAL_def CFTAG_LOCK_def)

interpretation rcpt: agent_lock "lock_wf off" "lock_free off" "take_lock zenv um off" "defer_lock zenv um off" for zenv um off
proof
  fix st pid
  assume wf: "lock_wf off st"
  show "fst (take_lock zenv um off pid st) = lock_free off st" using take_lock_bytes [OF wf] by simp
  show "lock_wf off (snd (take_lock zenv um off pid st))" "\<not> lock_free off (snd (take_lock zenv um off pid st))"
    using take_lock_wf [OF wf] by simp_all
  assume "lock_free off st"
  then have l: "lock_wf off (snd (take_lock zenv um off pid st))" "bytes (snd (snd (take_lock zenv um off pid st))) ! off = CFTAG_LOCK"
    using take_lock_wf [OF wf] by simp_all
  show "fst (defer_lock zenv um off pid (snd (take_lock zenv um off pid st)))" by (rule defer_lock_bytes(1) [OF l])
  show "lock_free off (snd (defer_lock zenv um off pid (snd (take_lock zenv um off pid st))))"
    using l lock_field_stored(1) [OF _ _ refl, of off _ CFTAG_LOCK CFTAG_DEFER pid]
    by (simp add: lock_free_def defer_lock_bytes(2) [OF l] lock_wf_def CFTAG_DEFER_def)
qed

section \<open>Properties\<close>


definition sample_line :: ctlfile where
  "sample_line = \<lparr>bytes = ''r           smtp a.b c@d 1'', fpos = 0\<rparr>"


lemma put_put_bytes:
  "length d = length e \<Longrightarrow> pos + length d \<le> length b \<Longrightarrow> put_bytes pos d (put_bytes pos e b) = put_bytes pos d b"
  by (simp add: put_bytes_def)

lemma put_same_bytes: "pos + length d \<le> length b \<Longrightarrow> take (length d) (drop pos b) = d \<Longrightarrow> put_bytes pos d b = b"
  by (metis add.commute append_take_drop_id drop_drop put_bytes_def)

text \<open>
  Locking a recipient whose tag and id field are blank and then deferring it restores the control
  file byte for byte; in between the tag is the lock tag, the file has its old length and no byte outside
  the seven bytes of the field has changed.
\<close>

lemma lock_defer_roundtrip:
  assumes "off + 16 \<le> length b" "take 7 (drop off b) = replicate 7 SPC"
    "lockaddr io_ok zenv um False off CFTAG_NORMAL CFTAG_LOCK pid (m, \<lparr>bytes = b, fpos = n\<rparr>) = (r, m', f)"
  shows "r \<and> bytes f ! off = CFTAG_LOCK \<and> length (bytes f) = length b \<and>
         (\<forall>i. i < off \<or> off + 7 \<le> i \<longrightarrow> bytes f ! i = b ! i) \<and>
         bytes (snd (snd (lockaddr io_ok zenv um False off CFTAG_LOCK CFTAG_DEFER pid' (m', f)))) = b"
proof -
  let ?e = "lock_field CFTAG_NORMAL CFTAG_LOCK pid (take 6 (drop (off + 1) b))"
  have blank: "b ! off = SPC" "b ! (off + 1) = SPC"
    using assms(1,2) by (auto simp: take_Suc_conv_app_nth eval_nat_numeral append_eq_Cons_conv nth_drop)
  then have fo: "field_open off b" by (simp add: field_open_def)
  have r: "r" "bytes f = put_bytes off ?e b"
    using lockaddr_descriptor [OF io_ok_good, of off "\<lparr>bytes = b, fpos = n\<rparr>" zenv um CFTAG_NORMAL CFTAG_LOCK pid m] assms blank fo
    by (auto simp: CFTAG_NORMAL_def)
  have le: "length ?e = 7" using assms(1) by (intro length_lock_field) simp
  note s = lock_field_stored [OF assms(1) fo refl, of CFTAG_NORMAL CFTAG_LOCK pid, folded r(2)]
  define d where "d = lock_field CFTAG_LOCK CFTAG_DEFER pid' (take 6 (drop (off + 1) (bytes f)))"
  have d: "d = replicate 7 SPC"
    by (simp add: d_def lock_field_def cftag_defs CFTAG_RCPTPIDSIZE_def eval_nat_numeral)
  have "bytes (snd (snd (lockaddr io_ok zenv um False off CFTAG_LOCK CFTAG_DEFER pid' (m', f)))) = put_bytes off d (bytes f)"
    using lockaddr_descriptor [OF io_ok_good, of off f zenv um CFTAG_LOCK CFTAG_DEFER pid' m'] s assms(1) by (simp add: d_def)
  also have "\<dots> = put_bytes off d b" using le assms(1) d by (simp add: r(2) put_put_bytes)
  also have "\<dots> = b" using assms(1,2) d by (simp add: put_same_bytes)
  finally show ?thesis
    using r s le assms(1) by (auto simp: nth_put_bytes)
qed

lemma lock_defer_roundtrip_witness:
  "bytes (snd (snd (lockaddr io_ok None 0 False 1 CFTAG_LOCK CFTAG_DEFER 5
     (snd (lockaddr io_ok None 0 False 1 CFTAG_NORMAL CFTAG_LOCK 1234 (None, sample_line)))))) = bytes sample_line"
proof -
  obtain r m' f where l: "lockaddr io_ok None 0 False 1 CFTAG_NORMAL CFTAG_LOCK 1234 (None, \<lparr>bytes = bytes sample_line, fpos = 0\<rparr>) = (r, m', f)"
    by (metis prod_cases3)
  show ?thesis
    using lock_defer_roundtrip [OF _ _ l, of 5] l by (simp add: sample_line_def eval_nat_numeral)
qed

text \<open>
  With a mapped control file every call after the first one reads the tag through the descriptor but
  skips the second seek, so it writes the new field sixteen bytes behind the recipient's tag: it reports
  success, the tag itself is unchanged, and another agent can lock the same recipient.
\<close>

lemma lockaddr_mapped_misses_field:
  assumes "io_good io" "off + 23 \<le> length (bytes f)" "bytes f ! off = was" "field_open off (bytes f)"
  shows "\<exists>f'. lockaddr io zenv um True off was new pid (Some m, f) = (True, Some m, f') \<and> bytes f' ! off = was \<and>
           bytes f' = put_bytes (off + 16) (lock_field was new pid (take 6 (drop (off + 1) (bytes f)))) (bytes f)"
proof -
  let ?l = "take 16 (drop off (bytes f))" and ?d = "lock_field was new pid (take 6 (drop (off + 1) (bytes f)))"
  have l: "length ?l = 16" "?l ! 0 = was" "?l ! 1 = bytes f ! (off + 1)" using assms(2,3) by auto
  have tt: "take 7 (lock_text was new pid ?l) = ?d"
    using lock_text_field [OF l(1), of was new pid] by (simp add: CFTAG_RCPTPIDSIZE_def tl_take drop_Suc [symmetric] tl_drop)
  have w: "length ?d = 7" "written io \<ge> 7"
    using assms by (auto intro!: length_lock_field simp: io_good_def CFTAG_RCPTPIDSIZE_def)
  have m: "lock_mode zenv um True (Some m) = (m, False)" by (simp add: lock_mode_def)
  have "put_bytes (off + 16) ?d (bytes f) ! off = was" using w assms(2,3) by (simp add: nth_put_bytes)
  then show ?thesis
    using assms(1,2,4) l w unfolding lockaddr_def m split_conv
    by (simp add: Let_def field_open_def tt lock_store_def fd_write_def io_good_def CFTAG_RCPTPIDSIZE_def)
qed

lemma lockaddr_mapped_misses_field_witness:
  "\<exists>f'. lockaddr io_ok None 1 True 1 CFTAG_NORMAL CFTAG_LOCK 17 (Some ''M'', sample_line) = (True, Some ''M'', f') \<and>
     bytes f' ! 1 = CFTAG_NORMAL"
  using lockaddr_mapped_misses_field [of io_ok 1 sample_line CFTAG_NORMAL None 1 CFTAG_LOCK 17 "''M''"]
  by (auto simp: sample_line_def CFTAG_NORMAL_def field_open_def)

end
