(* ===== verification/Webs.thy ===== *)
theory Webs
  imports Symbol
begin

text \<open>
  The webs of the scheduler (\<open>web_findcreate\<close> and \<open>unweb\<close> of \<^verbatim>\<open>scheduler/threads.c\<close>): one object
  per channel and per host name, found through a symbol table and a splay tree, and counted by the
  objects that refer to it.

  \<open>spt_mesh\<close> maps the kinds \<open>L_HOST\<close> and \<open>L_CHANNEL\<close> to a splay tree and its symbol table.  Objects are
  allocated from the counter \<open>brk\<close>; the live webs of each kind are recorded, so that a use after free would show.
\<close>

record web =
  w_name :: string
  linkcnt :: int
  kids :: int

record mesh =
  symbols :: symtab
  blocks :: "(addr, ptr) sptree"

record webstate =
  spt_mesh :: "nat \<Rightarrow> mesh"
  webs :: "addr \<Rightarrow> web"
  web_live :: "nat \<Rightarrow> addr set"
  brk :: addr

definition L_HOST :: nat where "L_HOST = 1"
definition L_CHANNEL :: nat where "L_CHANNEL = 2"

definition web_findcreate :: "nat \<Rightarrow> string \<Rightarrow> 'z webstate_scheme \<Rightarrow> addr \<times> 'z webstate_scheme" where
  "web_findcreate flag s st =
     (let m = spt_mesh st flag;
          (spk, sy) = symbol_db (brk st) (Some s) (symbols m);
          (spl, t) = sp_lookup spk (blocks m)
      in case spl of
           Some (Some wp, _) \<Rightarrow>
             (wp, st\<lparr>spt_mesh := (spt_mesh st)(flag := \<lparr>symbols = sy, blocks = t\<rparr>), brk := brk st + 1\<rparr>)
         | _ \<Rightarrow>
             let wp = brk st + 1
             in (wp, st\<lparr>spt_mesh := (spt_mesh st)(flag := \<lparr>symbols = sy, blocks = sp_install spk (Some wp) 0 t\<rparr>),
                        webs := (webs st)(wp := \<lparr>w_name = s, linkcnt = 0, kids = 0\<rparr>),
                        web_live := (web_live st)(flag := insert wp (web_live st flag)),
                        brk := brk st + 2\<rparr>))"

definition unweb :: "nat \<Rightarrow> addr \<Rightarrow> 'z webstate_scheme \<Rightarrow> 'z webstate_scheme" where
  "unweb flag wp st =
     (if linkcnt (webs st wp) > 0 \<or> kids (webs st wp) > 0 then st
      else
        let m = spt_mesh st flag;
            (spk, sy) = symbol_lookup_db (Some (w_name (webs st wp))) (symbols m)
        in if spk = 0 then st\<lparr>spt_mesh := (spt_mesh st)(flag := m\<lparr>symbols := sy\<rparr>)\<rparr>
           else
             let (spl, t) = sp_lookup spk (blocks m);
                 t = (case spl of None \<Rightarrow> t | Some _ \<Rightarrow> the (sp_delete spk t));
                 sy = the (symbol_free_db (Some (w_name (webs st wp))) (Some sy))
             in st\<lparr>spt_mesh := (spt_mesh st)(flag := \<lparr>symbols = sy, blocks = t\<rparr>),
                   web_live := (web_live st)(flag := web_live st flag - {wp})\<rparr>)"

section \<open>The table of webs\<close>

definition sym_of :: "nat \<Rightarrow> 'z webstate_scheme \<Rightarrow> string \<rightharpoonup> addr" where
  "sym_of f st = sym_table CRCorNOT (symbols (spt_mesh st f))"

definition blk_of :: "nat \<Rightarrow> 'z webstate_scheme \<Rightarrow> addr \<rightharpoonup> ptr \<times> int" where
  "blk_of f st = sp_contents (blocks (spt_mesh st f))"

definition web_table :: "nat \<Rightarrow> 'z webstate_scheme \<Rightarrow> string \<rightharpoonup> addr" where
  "web_table f st n = (case sym_of f st n of None \<Rightarrow> None | Some a \<Rightarrow> (case blk_of f st a of None \<Rightarrow> None | Some (w, _) \<Rightarrow> w))"

definition web_invar :: "nat \<Rightarrow> 'z webstate_scheme \<Rightarrow> bool" where
  "web_invar f st \<longleftrightarrow>
     sym_invar CRCorNOT (symbols (spt_mesh st f)) \<and> sp_invar (blocks (spt_mesh st f)) \<and>
     dom (blk_of f st) \<subseteq> ran (sym_of f st) \<and>
     (\<forall>n a. sym_of f st n = Some a \<longrightarrow> (\<exists>w m. blk_of f st a = Some (Some w, m) \<and> w \<in> web_live st f \<and> w_name (webs st w) = n)) \<and>
     (\<forall>a\<in>ran (sym_of f st). 0 < a \<and> a < brk st) \<and> (\<forall>w\<in>web_live st f. w < brk st)"

definition webs_invar :: "'z webstate_scheme \<Rightarrow> bool" where
  "webs_invar st \<longleftrightarrow> 0 < brk st \<and> (\<forall>f. web_invar f st)"

lemma web_table_cong: "sym_of f st' = sym_of f st \<Longrightarrow> blk_of f st' = blk_of f st \<Longrightarrow> web_table f st' = web_table f st"
  by (rule ext) (simp add: web_table_def split: option.split)

lemma web_table_mesh: "spt_mesh st' g = spt_mesh st g \<Longrightarrow> web_table g st' = web_table g st"
  by (rule web_table_cong) (simp_all add: sym_of_def blk_of_def)

lemma web_invarD:
  assumes "web_invar f st"
  shows "sym_invar CRCorNOT (symbols (spt_mesh st f))" "sp_invar (blocks (spt_mesh st f))"
    "blk_of f st a \<noteq> None \<Longrightarrow> \<exists>n. sym_of f st n = Some a"
    "sym_of f st n = Some a \<Longrightarrow> \<exists>w m. blk_of f st a = Some (Some w, m) \<and> w \<in> web_live st f \<and> w_name (webs st w) = n"
    "sym_of f st n = Some a \<Longrightarrow> 0 < a \<and> a < brk st" "w \<in> web_live st f \<Longrightarrow> w < brk st"
  using assms unfolding web_invar_def by (auto simp: ran_def)

lemma web_invarI:
  assumes "sym_invar CRCorNOT (symbols (spt_mesh st f))" "sp_invar (blocks (spt_mesh st f))"
    "\<And>a. blk_of f st a \<noteq> None \<Longrightarrow> \<exists>n. sym_of f st n = Some a"
    "\<And>n a. sym_of f st n = Some a \<Longrightarrow> \<exists>w m. blk_of f st a = Some (Some w, m) \<and> w \<in> web_live st f \<and> w_name (webs st w) = n"
    "\<And>n a. sym_of f st n = Some a \<Longrightarrow> 0 < a \<and> a < brk st" "\<And>w. w \<in> web_live st f \<Longrightarrow> w < brk st"
  shows "web_invar f st"
  using assms unfolding web_invar_def by (auto simp: ran_def)

lemma web_table_Some: "web_invar f st \<Longrightarrow> web_table f st n = Some w \<Longrightarrow> w \<in> web_live st f \<and> w_name (webs st w) = n"
  by (auto simp: web_table_def split: option.splits dest!: web_invarD(4))

lemma web_table_inj: "web_invar f st \<Longrightarrow> web_table f st n = Some w \<Longrightarrow> web_table f st n' = Some w \<Longrightarrow> n = n'"
  by (metis web_table_Some)

text \<open>A mesh of another kind only needs the new objects to lie beyond what it uses.\<close>

lemma web_invar_other:
  assumes "web_invar g st" "spt_mesh st' g = spt_mesh st g" "web_live st' g = web_live st g" "brk st \<le> brk st'"
    "\<And>w. w < brk st \<Longrightarrow> w_name (webs st' w) = w_name (webs st w)"
  shows "web_invar g st'"
proof -
  have e: "sym_of g st' = sym_of g st" "blk_of g st' = blk_of g st"
    using assms(2) by (simp_all add: sym_of_def blk_of_def)
  have n: "w_name (webs st' w) = w_name (webs st w)" if "w \<in> web_live st g" for w
    using that assms(1,5) web_invarD(6) by blast
  show ?thesis
  proof (rule web_invarI)
    fix m a
    assume "sym_of g st' m = Some a"
    then have a: "sym_of g st m = Some a" by (simp add: e)
    obtain w k where "blk_of g st a = Some (Some w, k)" "w \<in> web_live st g" "w_name (webs st w) = m"
      using web_invarD(4) [OF assms(1) a] by blast
    then show "\<exists>w k. blk_of g st' a = Some (Some w, k) \<and> w \<in> web_live st' g \<and> w_name (webs st' w) = m"
      using n assms(3) by (auto simp: e)
    show "0 < a \<and> a < brk st'" using web_invarD(5) [OF assms(1) a] assms(4) by simp
  next
    show "w \<in> web_live st' g \<Longrightarrow> w < brk st'" for w using web_invarD(6) [OF assms(1), of w] assms(3,4) by simp
  qed (use web_invarD(1-3) [OF assms(1)] assms(2) in \<open>auto simp: e\<close>)
qed

lemma symbol_db_spec:
  assumes "web_invar f st" "symbol_db (brk st) (Some s) (symbols (spt_mesh st f)) = (spk, sy)" "cstr s = s" "0 < brk st"
  shows "sym_invar CRCorNOT sy \<and> sym_table CRCorNOT sy = (sym_of f st)(s \<mapsto> spk) \<and>
    spk = (case sym_of f st s of None \<Rightarrow> brk st | Some a \<Rightarrow> a)"
proof -
  have "brk st \<notin> sym_live CRCorNOT (symbols (spt_mesh st f))"
    using web_invarD(5) [OF assms(1)] by (auto simp: sym_live_def ran_def sym_of_def)
  then show ?thesis
    using symbol_db_u_spec [OF web_invarD(1) [OF assms(1)], of "brk st" s spk sy] assms
    by (auto simp: symbol_db_Some sym_of_def)
qed

section \<open>Finding and creating\<close>

lemma findcreate_found:
  assumes inv: "webs_invar st" and n: "cstr s = s" and f: "sym_of f st s = Some a" and c: "web_findcreate f s st = (wp, st')"
  shows "webs_invar st'" "web_table f st' = web_table f st" "web_table f st s = Some wp"
    "web_live st' = web_live st" "webs st' = webs st" "brk st \<le> brk st'" "\<And>g. g \<noteq> f \<Longrightarrow> web_table g st' = web_table g st"
proof -
  have i: "web_invar f st" "0 < brk st" using inv by (auto simp: webs_invar_def)
  obtain spk sy where d: "symbol_db (brk st) (Some s) (symbols (spt_mesh st f)) = (spk, sy)" by fastforce
  note S = symbol_db_spec [OF i(1) d n i(2)]
  have spk: "spk = a" using S f by simp
  have sy: "sym_table CRCorNOT sy = sym_of f st" using S f spk by (auto intro!: fun_upd_triv)
  obtain w m where w: "blk_of f st a = Some (Some w, m)" using web_invarD(4) [OF i(1) f] by blast
  obtain spl t where l: "sp_lookup spk (blocks (spt_mesh st f)) = (spl, t)" by fastforce
  have T: "spl = Some (Some w, m)" "sp_contents t = blk_of f st" "sp_invar t"
    using sp_lookup_spec [OF web_invarD(2) [OF i(1)], of spk] l w spk by (auto simp: blk_of_def)
  have r: "wp = w" "st' = st\<lparr>spt_mesh := (spt_mesh st)(f := \<lparr>symbols = sy, blocks = t\<rparr>), brk := brk st + 1\<rparr>"
    using c d l T(1) by (auto simp: web_findcreate_def Let_def)
  show l': "web_live st' = web_live st" "webs st' = webs st" "brk st \<le> brk st'" using r by simp_all
  have e: "sym_of f st' = sym_of f st" "blk_of f st' = blk_of f st"
    using r sy T(2) by (simp_all add: sym_of_def blk_of_def)
  have o: "g \<noteq> f \<Longrightarrow> spt_mesh st' g = spt_mesh st g" for g using r by simp
  show "web_table f st' = web_table f st" by (rule web_table_cong [OF e])
  show "web_table f st s = Some wp" using f w r by (simp add: web_table_def)
  show "g \<noteq> f \<Longrightarrow> web_table g st' = web_table g st" for g using o by (intro web_table_mesh)
  have "web_invar f st'"
  proof (rule web_invarI)
    show "sym_invar CRCorNOT (symbols (spt_mesh st' f))" "sp_invar (blocks (spt_mesh st' f))" using r S T(3) by simp_all
    show "sym_of f st' n' = Some a' \<Longrightarrow> 0 < a' \<and> a' < brk st'" for n' a'
      using web_invarD(5) [OF i(1), of n' a'] l' by (simp add: e)
    show "w \<in> web_live st' f \<Longrightarrow> w < brk st'" for w using web_invarD(6) [OF i(1), of w] l' by simp
  qed (use web_invarD(3,4) [OF i(1)] l' in \<open>auto simp: e\<close>)
  moreover have "g \<noteq> f \<Longrightarrow> web_invar g st'" for g
    using inv o l' by (intro web_invar_other [of g st st']) (auto simp: webs_invar_def)
  ultimately have "web_invar g st'" for g by (cases "g = f") auto
  then show "webs_invar st'" using i(2) l'(3) by (auto simp: webs_invar_def)
qed

lemma findcreate_new:
  assumes inv: "webs_invar st" and n: "cstr s = s" and f: "sym_of f st s = None" and c: "web_findcreate f s st = (wp, st')"
  shows "webs_invar st'" "web_table f st' = (web_table f st)(s \<mapsto> wp)" "web_table f st s = None"
    "web_live st' = (web_live st)(f := insert wp (web_live st f))" "wp = brk st + 1" "webs st' = (webs st)(wp := \<lparr>w_name = s, linkcnt = 0, kids = 0\<rparr>)"
    "\<And>g. g \<noteq> f \<Longrightarrow> web_table g st' = web_table g st"
proof -
  have i: "web_invar f st" "0 < brk st" using inv by (auto simp: webs_invar_def)
  obtain spk sy where d: "symbol_db (brk st) (Some s) (symbols (spt_mesh st f)) = (spk, sy)" by fastforce
  note S = symbol_db_spec [OF i(1) d n i(2)]
  have spk: "spk = brk st" using S f by simp
  have fresh: "blk_of f st spk = None"
    using web_invarD(3) [OF i(1), of spk] web_invarD(5) [OF i(1)] spk by (metis less_irrefl)
  obtain spl t where l: "sp_lookup spk (blocks (spt_mesh st f)) = (spl, t)" by fastforce
  have T: "spl = None" "sp_contents t = blk_of f st" "sp_invar t"
    using sp_lookup_spec [OF web_invarD(2) [OF i(1)], of spk] l fresh by (auto simp: blk_of_def)
  let ?w = "brk st + 1" and ?t = "sp_install spk (Some (brk st + 1)) 0 t"
  have I: "sp_contents ?t = (blk_of f st)(spk \<mapsto> (Some ?w, 0))" "sp_invar ?t"
    using sp_install_spec [OF T(3)] T(2) by auto
  have r: "wp = ?w" "st' = st\<lparr>spt_mesh := (spt_mesh st)(f := \<lparr>symbols = sy, blocks = ?t\<rparr>),
      webs := (webs st)(?w := \<lparr>w_name = s, linkcnt = 0, kids = 0\<rparr>),
      web_live := (web_live st)(f := insert ?w (web_live st f)), brk := brk st + 2\<rparr>"
    using c d l T(1) by (auto simp: web_findcreate_def Let_def)
  show l': "web_live st' = (web_live st)(f := insert wp (web_live st f))" "wp = ?w"
      "webs st' = (webs st)(wp := \<lparr>w_name = s, linkcnt = 0, kids = 0\<rparr>)" using r by simp_all
  have b': "brk st' = brk st + 2" using r by simp
  have e: "sym_of f st' = (sym_of f st)(s \<mapsto> spk)" "blk_of f st' = (blk_of f st)(spk \<mapsto> (Some ?w, 0))"
    using r S I(1) by (simp_all add: sym_of_def blk_of_def)
  have ns: "sym_of f st n' = Some a \<Longrightarrow> a \<noteq> spk" for n' a using web_invarD(5) [OF i(1)] spk by blast
  show "web_table f st' = (web_table f st)(s \<mapsto> wp)"
  proof
    fix x
    show "web_table f st' x = ((web_table f st)(s \<mapsto> wp)) x"
      using ns [of x] r(1) unfolding web_table_def e by (cases "sym_of f st x") auto
  qed
  show "web_table f st s = None" using f by (simp add: web_table_def)
  have o: "g \<noteq> f \<Longrightarrow> spt_mesh st' g = spt_mesh st g" for g using r by simp
  show "g \<noteq> f \<Longrightarrow> web_table g st' = web_table g st" for g using o by (intro web_table_mesh)
  have "web_invar f st'"
  proof (rule web_invarI)
    show "sym_invar CRCorNOT (symbols (spt_mesh st' f))" "sp_invar (blocks (spt_mesh st' f))" using r S I(2) by simp_all
    show "blk_of f st' a \<noteq> None \<Longrightarrow> \<exists>n. sym_of f st' n = Some a" for a
      using web_invarD(3) [OF i(1), of a] f unfolding e by (metis fun_upd_apply option.distinct(1))
    show "w \<in> web_live st' f \<Longrightarrow> w < brk st'" for w
      using web_invarD(6) [OF i(1), of w] r by auto
  next
    fix n' a
    assume a: "sym_of f st' n' = Some a"
    show "0 < a \<and> a < brk st'"
      using a [unfolded e] web_invarD(5) [OF i(1), of n' a] spk i(2) b' by (auto split: if_splits)
    show "\<exists>w m. blk_of f st' a = Some (Some w, m) \<and> w \<in> web_live st' f \<and> w_name (webs st' w) = n'"
    proof (cases "n' = s")
      case True
      then show ?thesis using a [unfolded e] l' unfolding e by simp
    next
      case False
      then have "sym_of f st n' = Some a" using a [unfolded e] by simp
      then obtain w m where "blk_of f st a = Some (Some w, m)" "w \<in> web_live st f" "w_name (webs st w) = n'" "a \<noteq> spk" "w \<noteq> ?w"
        using web_invarD(4) [OF i(1)] web_invarD(6) [OF i(1)] ns by (metis add_lessD1 less_irrefl)
      then show ?thesis using l' unfolding e by simp
    qed
  qed
  moreover have "g \<noteq> f \<Longrightarrow> web_invar g st'" for g
    using inv o r by (intro web_invar_other [of g st st']) (auto simp: webs_invar_def)
  ultimately have "web_invar g st'" for g by (cases "g = f") auto
  then show "webs_invar st'" using r by (auto simp: webs_invar_def)
qed

section \<open>Removing\<close>

lemma unweb_busy: "linkcnt (webs st wp) > 0 \<or> kids (webs st wp) > 0 \<Longrightarrow> unweb f wp st = st"
  by (simp add: unweb_def)

lemma unweb_free:
  assumes inv: "webs_invar st" and w: "web_table f st n = Some wp" and n: "cstr n = n"
    and z: "linkcnt (webs st wp) \<le> 0" "kids (webs st wp) \<le> 0"
  shows "webs_invar (unweb f wp st)" "web_table f (unweb f wp st) = (web_table f st)(n := None)"
    "web_live (unweb f wp st) = (web_live st)(f := web_live st f - {wp})" "webs (unweb f wp st) = webs st"
    "\<And>g. g \<noteq> f \<Longrightarrow> web_table g (unweb f wp st) = web_table g st"
proof -
  let ?s = "unweb f wp st"
  have i: "web_invar f st" "0 < brk st" using inv by (auto simp: webs_invar_def)
  have nm: "w_name (webs st wp) = n" using web_table_Some [OF i(1) w] by simp
  obtain a m where a: "sym_of f st n = Some a" "blk_of f st a = Some (Some wp, m)"
    using w by (auto simp: web_table_def split: option.splits prod.splits)
  obtain spk sy where d: "symbol_lookup_db (Some n) (symbols (spt_mesh st f)) = (spk, sy)" by fastforce
  have L: "spk = a" "sym_table CRCorNOT sy = sym_of f st" "sym_invar CRCorNOT sy"
    using symbol_lookup_u_spec [OF web_invarD(1) [OF i(1)], of n spk sy] d n a(1) by (auto simp: symbol_lookup_db_Some sym_of_def)
  have a0: "a \<noteq> 0" using web_invarD(5) [OF i(1) a(1)] by simp
  obtain spl t where l: "sp_lookup a (blocks (spt_mesh st f)) = (spl, t)" by fastforce
  have T: "spl = Some (Some wp, m)" "sp_contents t = blk_of f st" "sp_invar t"
    using sp_lookup_spec [OF web_invarD(2) [OF i(1)], of a] l a(2) by (auto simp: blk_of_def)
  obtain t' where t': "sp_delete a t = Some t'" using sp_delete_defined [OF T(3), of a] T(2) a(2) by auto
  have D: "sp_contents t' = (blk_of f st)(a := None)" "sp_invar t'" using sp_delete_spec [OF T(3) t'] T(2) by auto
  obtain sy' where sy': "symbol_free_db (Some n) (Some sy) = Some sy'" "sym_table CRCorNOT sy' = (sym_of f st)(n := None)" "sym_invar CRCorNOT sy'"
    using symbol_free_u_spec [OF L(3), of n] n L(2) by (auto simp: symbol_free_db_Some)
  have r: "?s = st\<lparr>spt_mesh := (spt_mesh st)(f := \<lparr>symbols = sy', blocks = t'\<rparr>), web_live := (web_live st)(f := web_live st f - {wp})\<rparr>"
    using z nm d L(1) a0 l T(1) t' sy'(1) by (simp add: unweb_def Let_def)
  show lv: "web_live ?s = (web_live st)(f := web_live st f - {wp})" "webs ?s = webs st" using r by simp_all
  have e: "sym_of f ?s = (sym_of f st)(n := None)" "blk_of f ?s = (blk_of f st)(a := None)"
    using r sy'(2) D(1) by (simp_all add: sym_of_def blk_of_def)
  have ina: "sym_of f st n' = Some a \<Longrightarrow> n' = n" for n'
    using web_invarD(4) [OF i(1)] a nm by (metis option.inject prod.inject)
  show "web_table f ?s = (web_table f st)(n := None)"
  proof
    fix x
    show "web_table f ?s x = ((web_table f st)(n := None)) x"
      using ina [of x] unfolding web_table_def e by (cases "sym_of f st x") auto
  qed
  have o: "g \<noteq> f \<Longrightarrow> spt_mesh ?s g = spt_mesh st g" for g using r by simp
  show "g \<noteq> f \<Longrightarrow> web_table g ?s = web_table g st" for g using o by (intro web_table_mesh)
  have "web_invar f ?s"
  proof (rule web_invarI)
    show "sym_invar CRCorNOT (symbols (spt_mesh ?s f))" "sp_invar (blocks (spt_mesh ?s f))" using r sy'(3) D(2) by simp_all
    show "blk_of f ?s b \<noteq> None \<Longrightarrow> \<exists>n. sym_of f ?s n = Some b" for b
      using web_invarD(3) [OF i(1), of b] a(1) unfolding e by (metis fun_upd_apply option.inject)
    show "w \<in> web_live ?s f \<Longrightarrow> w < brk ?s" for w using web_invarD(6) [OF i(1), of w] r by auto
  next
    fix n' b
    assume "sym_of f ?s n' = Some b"
    then have b: "sym_of f st n' = Some b" "n' \<noteq> n" by (auto simp: e split: if_splits)
    then have "b \<noteq> a" using ina by blast
    show "0 < b \<and> b < brk ?s" using web_invarD(5) [OF i(1) b(1)] r by simp
    obtain w k where "blk_of f st b = Some (Some w, k)" "w \<in> web_live st f" "w_name (webs st w) = n'"
      using web_invarD(4) [OF i(1) b(1)] by blast
    then show "\<exists>w k. blk_of f ?s b = Some (Some w, k) \<and> w \<in> web_live ?s f \<and> w_name (webs ?s w) = n'"
      using nm b(2) \<open>b \<noteq> a\<close> unfolding e lv by auto
  qed
  moreover have "g \<noteq> f \<Longrightarrow> web_invar g ?s" for g
    using inv o r by (intro web_invar_other [of g st ?s]) (auto simp: webs_invar_def)
  ultimately have "web_invar g ?s" for g by (cases "g = f") auto
  then show "webs_invar ?s" using r i(2) by (auto simp: webs_invar_def)
qed

section \<open>Properties\<close>

lemma findcreate_table:
  assumes "webs_invar st" "cstr s = s" "web_findcreate f s st = (w, st')"
  shows "webs_invar st'" "web_table f st' = (web_table f st)(s \<mapsto> w)" "w \<in> web_live st' f" "w_name (webs st' w) = s"
    "\<And>v. web_table f st s = Some v \<Longrightarrow> w = v" "\<And>g. g \<noteq> f \<Longrightarrow> web_table g st' = web_table g st"
proof -
  show i: "webs_invar st'" "web_table f st' = (web_table f st)(s \<mapsto> w)"
    "\<And>v. web_table f st s = Some v \<Longrightarrow> w = v" "\<And>g. g \<noteq> f \<Longrightarrow> web_table g st' = web_table g st"
    using findcreate_found [OF assms(1,2) _ assms(3)] findcreate_new [OF assms(1,2) _ assms(3)]
    by (cases "sym_of f st s"; auto)+
  have "web_invar f st'" using i(1) by (simp add: webs_invar_def)
  then show "w \<in> web_live st' f" "w_name (webs st' w) = s" using web_table_Some [of f st' s w] i(2) by auto
qed

text \<open>
  \<open>web_findcreate\<close> interns names: in every consistent state it returns a live web that carries the
  name, a second call with the same name returns the same web and changes no table, a call with another
  name returns another web, and the tables of the other kind are not touched.
\<close>

lemma web_findcreate_interns:
  assumes "webs_invar st" "cstr s = s" "cstr t = t" "web_findcreate f s st = (w, st')" "web_findcreate f t st' = (v, st'')"
  shows "webs_invar st'' \<and> (v = w \<longleftrightarrow> t = s) \<and> w \<in> web_live st'' f \<and> w_name (webs st'' w) = s \<and>
    web_table f st'' = (web_table f st)(s \<mapsto> w, t \<mapsto> v) \<and> (g \<noteq> f \<longrightarrow> web_table g st'' = web_table g st)"
proof -
  note 1 = findcreate_table [OF assms(1,2,4)] and 2 = findcreate_table [OF findcreate_table(1) [OF assms(1,2,4)] assms(3,5)]
  have inv: "web_invar f st''" using 2(1) by (simp add: webs_invar_def)
  have same: "t = s \<Longrightarrow> v = w" using 2(5) 1(2) by simp
  then have sw: "web_table f st'' s = Some w" using 1(2) 2(2) by simp
  have tv: "web_table f st'' t = Some v" using 2(2) by simp
  show ?thesis
  proof (intro conjI impI)
    show "webs_invar st''" by (rule 2(1))
    show "v = w \<longleftrightarrow> t = s" using same web_table_inj [OF inv sw, of t] tv by blast
    show "w \<in> web_live st'' f" "w_name (webs st'' w) = s" using web_table_Some [OF inv sw] by simp_all
    show "web_table f st'' = (web_table f st)(s \<mapsto> w, t \<mapsto> v)" using 1(2) 2(2) by simp
    show "g \<noteq> f \<Longrightarrow> web_table g st'' = web_table g st" using 1(6) 2(6) by simp
  qed
qed

definition web_init :: webstate where
  "web_init = \<lparr>spt_mesh = (\<lambda>_. \<lparr>symbols = sp_init, blocks = sp_init\<rparr>), webs = (\<lambda>_. \<lparr>w_name = [], linkcnt = 0, kids = 0\<rparr>),
     web_live = (\<lambda>_. {}), brk = 16\<rparr>"

lemma web_init_sym: "sym_invar CRCorNOT sp_init" "sym_table CRCorNOT sp_init = Map.empty"
  using sym_invar_empty [of "sp_init :: symtab" CRCorNOT] by (simp_all add: sp_init_spec)

lemma web_init_of: "sym_of f web_init = Map.empty" "blk_of f web_init = Map.empty"
  by (simp_all add: sym_of_def blk_of_def web_init_def web_init_sym sp_init_spec)

lemma web_init_invar: "webs_invar web_init"
  unfolding webs_invar_def
  by (auto intro!: web_invarI simp: web_init_of) (simp_all add: web_init_def web_init_sym sp_init_spec)

lemma web_findcreate_interns_witness:
  "\<exists>w st' v st''. web_findcreate L_HOST ''a.org'' web_init = (w, st') \<and> web_findcreate L_HOST ''b.org'' st' = (v, st'') \<and> v \<noteq> w"
proof -
  obtain w st' where w: "web_findcreate L_HOST ''a.org'' web_init = (w, st')" by fastforce
  obtain v st'' where v: "web_findcreate L_HOST ''b.org'' st' = (v, st'')" by fastforce
  show ?thesis
    using web_findcreate_interns [OF web_init_invar _ _ w v] w v by (auto simp: cstr_def)
qed

text \<open>
  \<open>unweb\<close> removes a web exactly when nothing refers to it: while it has links or running
  transport agents the state does not change; otherwise its name is unknown afterwards, the web is no longer
  live, no other name or kind is affected, and the tables stay consistent.
\<close>

lemma unweb_counts:
  assumes "webs_invar st" "cstr n = n" "web_table f st n = Some w"
  shows "webs_invar (unweb f w st) \<and> (g \<noteq> f \<longrightarrow> web_table g (unweb f w st) = web_table g st) \<and>
    (if linkcnt (webs st w) > 0 \<or> kids (webs st w) > 0 then unweb f w st = st
     else web_table f (unweb f w st) = (web_table f st)(n := None) \<and> w \<notin> web_live (unweb f w st) f)"
  using assms(1) unweb_busy [of st w f] unweb_free [OF assms(1,3,2)] by (auto simp: not_less)

lemma unweb_counts_witness:
  "web_table L_HOST (unweb L_HOST (fst (web_findcreate L_HOST ''a.org'' web_init)) (snd (web_findcreate L_HOST ''a.org'' web_init))) ''a.org'' = None"
proof -
  obtain w st' where w: "web_findcreate L_HOST ''a.org'' web_init = (w, st')" by fastforce
  have n: "cstr ''a.org'' = ''a.org''" by (simp add: cstr_def)
  note t = findcreate_table [OF web_init_invar n w]
  have "webs st' w = \<lparr>w_name = ''a.org'', linkcnt = 0, kids = 0\<rparr>"
    using findcreate_new(6) [OF web_init_invar n _ w] by (simp add: web_init_of)
  then show ?thesis
    using unweb_counts [OF t(1) n, of L_HOST w] t(2) w by simp
qed

end
