(* ===== verification/Chains.thy ===== *)
theory Chains
  imports Prelude
begin

text \<open>
  Doubly linked chains and rings of heap objects, as the scheduler builds them by hand: the link fields
  are functions from addresses to pointers, and a predicate says which list of addresses they represent.
  The effect of the pointer assignments of the C code is stated once here, on link functions; the
  interface of a queue of objects is a locale.
\<close>

section \<open>Segments\<close>

definition firstp :: "addr list \<Rightarrow> ptr \<Rightarrow> ptr" where
  "firstp xs b = (case xs of [] \<Rightarrow> b | x # _ \<Rightarrow> Some x)"

definition lastp :: "addr list \<Rightarrow> ptr \<Rightarrow> ptr" where
  "lastp xs a = (if xs = [] then a else Some (last xs))"

lemma firstp_simps [simp]: "firstp [] b = b" "firstp (x # xs) b = Some x"
  by (simp_all add: firstp_def)

lemma lastp_simps [simp]: "lastp [] a = a" "lastp (x # xs) a = lastp xs (Some x)" "lastp (xs @ [x]) a = Some x"
  by (simp_all add: lastp_def)

lemma firstp_append: "firstp (xs @ ys) b = firstp xs (firstp ys b)"
  by (cases xs) auto

lemma lastp_append: "lastp (xs @ ys) a = lastp ys (lastp xs a)"
  by (simp add: lastp_def)

lemma firstp_None [simp]: "firstp xs None = None \<longleftrightarrow> xs = []" "None = firstp xs None \<longleftrightarrow> xs = []"
  by (cases xs; simp)+

lemma lastp_None [simp]: "lastp xs None = None \<longleftrightarrow> xs = []" "None = lastp xs None \<longleftrightarrow> xs = []"
  by (auto simp: lastp_def)

text \<open>\<open>dseg n p a xs b\<close>: the objects \<open>xs\<close> are linked both ways; \<open>a\<close> precedes and \<open>b\<close> follows them.\<close>

fun dseg :: "(addr \<Rightarrow> ptr) \<Rightarrow> (addr \<Rightarrow> ptr) \<Rightarrow> ptr \<Rightarrow> addr list \<Rightarrow> ptr \<Rightarrow> bool" where
  "dseg n p a [] b = True"
| "dseg n p a (x # xs) b = (p x = a \<and> n x = firstp xs b \<and> dseg n p (Some x) xs b)"

lemma dseg_append: "dseg n p a (xs @ ys) b \<longleftrightarrow> dseg n p a xs (firstp ys b) \<and> dseg n p (lastp xs a) ys b"
  by (induction xs arbitrary: a) (auto simp: firstp_append)

lemma dseg_cong:
  "(\<And>x. x \<in> set xs \<Longrightarrow> n' x = n x \<and> p' x = p x) \<Longrightarrow> dseg n' p' a xs b = dseg n p a xs b"
  by (induction xs arbitrary: a) auto

lemma dseg_upd_n [simp]: "x \<notin> set xs \<Longrightarrow> dseg (n(x := v)) p a xs b = dseg n p a xs b"
  by (rule dseg_cong) auto

lemma dseg_upd_p [simp]: "x \<notin> set xs \<Longrightarrow> dseg n (p(x := v)) a xs b = dseg n p a xs b"
  by (rule dseg_cong) auto

text \<open>Changing what follows or precedes a segment.\<close>

lemma dseg_relink_next:
  "distinct xs \<Longrightarrow> xs \<noteq> [] \<Longrightarrow> dseg n p a xs b \<Longrightarrow> dseg (n(last xs := b')) p a xs b'"
proof (induction xs arbitrary: a)
  case (Cons x xs)
  then show ?case by (cases xs) auto
qed simp

lemma dseg_relink_prev:
  "distinct xs \<Longrightarrow> xs \<noteq> [] \<Longrightarrow> dseg n p a xs b \<Longrightarrow> dseg n (p(hd xs := a')) a' xs b"
  by (cases xs) auto

lemma dseg_next_last: "dseg n p a xs b \<Longrightarrow> xs \<noteq> [] \<Longrightarrow> n (last xs) = b"
  by (induction xs arbitrary: a) auto

lemma dseg_prev_hd: "dseg n p a xs b \<Longrightarrow> xs \<noteq> [] \<Longrightarrow> p (hd xs) = a"
  by (cases xs) auto

section \<open>Linear chains\<close>

definition dlist :: "(addr \<Rightarrow> ptr) \<Rightarrow> (addr \<Rightarrow> ptr) \<Rightarrow> ptr \<Rightarrow> ptr \<Rightarrow> addr list \<Rightarrow> bool" where
  "dlist n p h t xs \<longleftrightarrow> distinct xs \<and> h = firstp xs None \<and> t = lastp xs None \<and> dseg n p None xs None"

text \<open>The pointer assignments that take \<open>x\<close> out of a chain, before its own links are cleared.\<close>

definition unlink_n :: "(addr \<Rightarrow> ptr) \<Rightarrow> (addr \<Rightarrow> ptr) \<Rightarrow> addr \<Rightarrow> addr \<Rightarrow> ptr" where
  "unlink_n n p x = (case p x of None \<Rightarrow> n | Some q \<Rightarrow> n(q := n x))"

definition unlink_p :: "(addr \<Rightarrow> ptr) \<Rightarrow> (addr \<Rightarrow> ptr) \<Rightarrow> addr \<Rightarrow> addr \<Rightarrow> ptr" where
  "unlink_p n p x = (case n x of None \<Rightarrow> p | Some q \<Rightarrow> p(q := p x))"

lemma dseg_unlink:
  assumes "distinct (xs @ x # ys)" "dseg n p None (xs @ x # ys) None"
  shows "dseg (unlink_n n p x) (unlink_p n p x) None (xs @ ys) None"
    "n x = firstp ys None" "p x = lastp xs None"
proof -
  have s: "dseg n p None xs (Some x)" "p x = lastp xs None" "n x = firstp ys None" "dseg n p (Some x) ys None"
    using assms(2) by (auto simp: dseg_append)
  show "n x = firstp ys None" "p x = lastp xs None" using s by simp_all
  have n: "unlink_n n p x = (if xs = [] then n else n(last xs := firstp ys None))"
    using s(2,3) by (simp add: unlink_n_def lastp_def)
  have p: "unlink_p n p x = (if ys = [] then p else p(hd ys := lastp xs None))"
    using s(2,3) by (cases ys) (simp_all add: unlink_p_def)
  have d: "distinct xs" "distinct ys" "xs \<noteq> [] \<Longrightarrow> last xs \<notin> set ys" "ys \<noteq> [] \<Longrightarrow> hd ys \<notin> set xs"
    using assms(1) last_in_set [of xs] hd_in_set [of ys] by (auto simp: disjoint_iff)
  have 1: "dseg (unlink_n n p x) (unlink_p n p x) None xs (firstp ys None)"
    using d s(1) by (cases "xs = []") (auto simp: n p dseg_relink_next)
  have 2: "dseg (unlink_n n p x) (unlink_p n p x) (lastp xs None) ys None"
    using d s(4) by (cases "ys = []") (auto simp: n p dseg_relink_prev)
  show "dseg (unlink_n n p x) (unlink_p n p x) None (xs @ ys) None"
    using 1 2 by (simp add: dseg_append)
qed

lemma remove1_split: "x \<notin> set xs \<Longrightarrow> remove1 x (xs @ x # ys) = xs @ ys"
  by (simp add: remove1_append)

lemma dlist_unlink:
  assumes "dlist n p h t zs" "x \<in> set zs"
    "h' = (if h = Some x then n x else h)" "t' = (if t = Some x then p x else t)"
    "\<And>y. y \<noteq> x \<Longrightarrow> n' y = unlink_n n p x y" "\<And>y. y \<noteq> x \<Longrightarrow> p' y = unlink_p n p x y"
  shows "dlist n' p' h' t' (remove1 x zs)"
proof -
  from assms(2) obtain xs ys where z: "zs = xs @ x # ys" "x \<notin> set xs" by (meson split_list_first)
  have d: "distinct (xs @ x # ys)" "dseg n p None (xs @ x # ys) None" "h = firstp zs None" "t = lastp zs None"
    using assms(1) z(1) by (auto simp: dlist_def)
  note u = dseg_unlink [OF d(1,2)]
  have nx: "x \<notin> set (xs @ ys)" using d(1) by auto
  have "dseg n' p' None (xs @ ys) None"
  proof -
    have "dseg n' p' None (xs @ ys) None = dseg (unlink_n n p x) (unlink_p n p x) None (xs @ ys) None"
    proof (rule dseg_cong)
      fix y
      assume "y \<in> set (xs @ ys)"
      then have "y \<noteq> x" using nx by auto
      then show "n' y = unlink_n n p x y \<and> p' y = unlink_p n p x y" using assms(5,6) by simp
    qed
    then show ?thesis using u(1) by simp
  qed
  moreover have "h' = firstp (xs @ ys) None"
    using assms(3) d z u(2) nx by (cases xs) (auto simp: firstp_append)
  moreover have "t' = lastp (xs @ ys) None"
    using assms(4) d z u(3) nx by (cases ys rule: rev_cases) (auto simp: lastp_append lastp_def)
  ultimately show ?thesis using d(1) z by (simp add: dlist_def remove1_split)
qed

lemma dlist_append:
  assumes "dlist n p h t xs" "x \<notin> set xs" "n' x = None" "p' x = t" "h' = (if h = None then Some x else h)"
    "\<And>y. y \<noteq> x \<Longrightarrow> n' y = (case t of None \<Rightarrow> n | Some l \<Rightarrow> n(l := Some x)) y"
    "\<And>y. y \<noteq> x \<Longrightarrow> p' y = p y"
  shows "dlist n' p' h' (Some x) (xs @ [x])"
proof -
  have d: "distinct xs" "h = firstp xs None" "t = lastp xs None" "dseg n p None xs None"
    using assms(1) by (auto simp: dlist_def)
  have "dseg n' p' None xs (Some x)"
  proof (cases "xs = []")
    case False
    then have t: "t = Some (last xs)" using d(3) by (simp add: lastp_def)
    have "dseg n' p' None xs (Some x) = dseg (n(last xs := Some x)) p None xs (Some x)"
    proof (rule dseg_cong)
      fix y
      assume "y \<in> set xs"
      then have "y \<noteq> x" using assms(2) by auto
      then show "n' y = (n(last xs := Some x)) y \<and> p' y = p y" using assms(6,7) t by simp
    qed
    then show ?thesis using d(1,4) False by (simp add: dseg_relink_next)
  qed simp
  then show ?thesis
    using d assms(2-5) by (auto simp: dlist_def dseg_append firstp_append firstp_def split: list.splits)
qed

lemma dlist_empty [simp]: "dlist n p None t xs \<longleftrightarrow> xs = [] \<and> t = None" "dlist n p h None xs \<longleftrightarrow> xs = [] \<and> h = None"
  by (auto simp: dlist_def)

lemma dlist_cong: "dlist n p h t xs \<Longrightarrow> (\<And>x. x \<in> set xs \<Longrightarrow> n' x = n x \<and> p' x = p x) \<Longrightarrow> dlist n' p' h t xs"
  using dseg_cong [of xs n' n p' p] by (simp add: dlist_def)

section \<open>Rings\<close>

definition ring :: "(addr \<Rightarrow> ptr) \<Rightarrow> (addr \<Rightarrow> ptr) \<Rightarrow> addr list \<Rightarrow> bool" where
  "ring n p xs \<longleftrightarrow> xs \<noteq> [] \<and> distinct xs \<and> dseg n p (Some (last xs)) xs (Some (hd xs))"

lemma ring_rotate: "ring n p (x # xs) \<Longrightarrow> ring n p (xs @ [x])"
  by (cases xs) (auto simp: ring_def dseg_append firstp_append lastp_def)

lemma ring_single [simp]: "ring n p [x] \<longleftrightarrow> n x = Some x \<and> p x = Some x"
  by (auto simp: ring_def)

lemma ring_links:
  assumes "ring n p xs" "x \<in> set xs"
  shows "\<exists>y\<in>set xs. n x = Some y" "\<exists>y\<in>set xs. p x = Some y"
proof -
  obtain ys zs where z: "xs = ys @ x # zs" using assms(2) by (meson split_list)
  have s: "p x = lastp ys (Some (last xs))" "n x = firstp zs (Some (hd xs))"
    using assms(1) by (auto simp: ring_def z dseg_append)
  show "\<exists>y\<in>set xs. n x = Some y" using s(2) assms hd_in_set [of xs] by (cases zs) (auto simp: z)
  show "\<exists>y\<in>set xs. p x = Some y" using s(1) assms last_in_set [of xs] by (cases ys rule: rev_cases) (auto simp: z lastp_def)
qed

lemma ring_next_last: "ring n p xs \<Longrightarrow> n (last xs) = Some (hd xs)"
  by (auto simp: ring_def dest: dseg_next_last)

lemma ring_prev_hd: "ring n p xs \<Longrightarrow> p (hd xs) = Some (last xs)"
  by (auto simp: ring_def dest: dseg_prev_hd)

lemma ring_insert:
  assumes "ring n p xs" "x \<notin> set xs" "n' x = Some (hd xs)" "n' (last xs) = Some x" "p' x = Some (last xs)" "p' (hd xs) = Some x"
    "\<And>y. y \<in> set xs \<Longrightarrow> y \<noteq> last xs \<Longrightarrow> n' y = n y" "\<And>y. y \<in> set xs \<Longrightarrow> y \<noteq> hd xs \<Longrightarrow> p' y = p y"
  shows "ring n' p' (xs @ [x])"
proof -
  have r: "xs \<noteq> []" "distinct xs" "dseg n p (Some (last xs)) xs (Some (hd xs))"
    using assms(1) by (auto simp: ring_def)
  have "dseg (n(last xs := Some x)) (p(hd xs := Some x)) (Some x) xs (Some x)"
    using dseg_relink_prev [OF r(2,1) dseg_relink_next [OF r(2,1,3)]] by simp
  moreover have "dseg n' p' (Some x) xs (Some x) = dseg (n(last xs := Some x)) (p(hd xs := Some x)) (Some x) xs (Some x)"
    using assms(4,6-8) by (intro dseg_cong) auto
  ultimately show ?thesis
    using r assms(2,3,5) by (simp add: ring_def dseg_append lastp_def)
qed

lemma ring_unlink:
  assumes "ring n p (x # xs)" "xs \<noteq> []" "n' (last xs) = n x" "p' (hd xs) = p x"
    "\<And>y. y \<in> set xs \<Longrightarrow> y \<noteq> last xs \<Longrightarrow> n' y = n y" "\<And>y. y \<in> set xs \<Longrightarrow> y \<noteq> hd xs \<Longrightarrow> p' y = p y"
  shows "ring n' p' xs"
proof -
  have r: "distinct xs" "dseg n p (Some x) xs (Some x)" "n x = Some (hd xs)" "p x = Some (last xs)"
    using assms(1,2) by (auto simp: ring_def firstp_def split: list.splits)
  have "dseg (n(last xs := Some (hd xs))) (p(hd xs := Some (last xs))) (Some (last xs)) xs (Some (hd xs))"
    using dseg_relink_prev [OF r(1) assms(2) dseg_relink_next [OF r(1) assms(2) r(2)]] by simp
  moreover have "dseg n' p' (Some (last xs)) xs (Some (hd xs)) =
      dseg (n(last xs := Some (hd xs))) (p(hd xs := Some (last xs))) (Some (last xs)) xs (Some (hd xs))"
    using assms(3-6) r(3,4) by (intro dseg_cong) auto
  ultimately show ?thesis using r(1) assms(2) by (simp add: ring_def)
qed

lemma ring_cong: "ring n p xs \<Longrightarrow> (\<And>x. x \<in> set xs \<Longrightarrow> n' x = n x \<and> p' x = p x) \<Longrightarrow> ring n' p' xs"
  using dseg_cong [of xs n' n p' p] by (simp add: ring_def)

text \<open>A ring can be read from any of its members on.\<close>

lemma ring_rotate_to: "ring n p (ys @ zs) \<Longrightarrow> ring n p (zs @ ys)"
proof (induction ys arbitrary: zs)
  case (Cons y ys)
  have "ring n p ((ys @ zs) @ [y])" using Cons.prems by (intro ring_rotate) simp
  then show ?case using Cons.IH [of "zs @ [y]"] by simp
qed simp

section \<open>Interface: a first-in first-out queue of objects\<close>

text \<open>
  The promise of a chain with an append at the tail and an unlink anywhere: the sequence of its members.
  Moving the head to the tail over and over serves every member in turn.
\<close>

locale fifo =
  fixes members :: "'s \<Rightarrow> addr list \<Rightarrow> bool" and add :: "addr \<Rightarrow> 's \<Rightarrow> 's" and remove :: "addr \<Rightarrow> 's \<Rightarrow> 's"
  assumes distinct_members: "members s xs \<Longrightarrow> distinct xs"
    and unique_members: "members s xs \<Longrightarrow> members s ys \<Longrightarrow> xs = ys"
    and members_add: "members s xs \<Longrightarrow> x \<notin> set xs \<Longrightarrow> members (add x s) (xs @ [x])"
    and members_remove: "members s xs \<Longrightarrow> x \<in> set xs \<Longrightarrow> members (remove x s) (remove1 x xs)"
begin

lemma members_requeue:
  assumes "members s xs" "x \<in> set xs"
  shows "members (add x (remove x s)) (remove1 x xs @ [x])"
  using assms distinct_members [OF assms(1)] by (auto intro!: members_add members_remove)

lemma requeue_head: "members s (x # xs) \<Longrightarrow> members (add x (remove x s)) (xs @ [x])"
  using members_requeue [of s "x # xs" x] by simp

end

fun serve :: "(addr \<Rightarrow> 's \<Rightarrow> 's) \<Rightarrow> addr list \<Rightarrow> 's \<Rightarrow> 's" where
  "serve requeue [] s = s"
| "serve requeue (x # xs) s = serve requeue xs (requeue x s)"

context fifo
begin

text \<open>Serving the members in their order serves each of them when it is at the head, and restores the order.\<close>

lemma serve_members:
  "members s (xs @ ys) \<Longrightarrow> members (serve (\<lambda>x s. add x (remove x s)) xs s) (ys @ xs)"
proof (induction xs arbitrary: s ys)
  case (Cons x xs)
  have "members (add x (remove x s)) (xs @ ys @ [x])" using requeue_head [of s x "xs @ ys"] Cons.prems by simp
  then show ?case using Cons.IH [of _ "ys @ [x]"] by simp
qed simp

end

end
