(* ===== verification/Ranny.thy ===== *)
theory Ranny
  imports Prelude
begin

text \<open>
  The random numbers of the scheduler, \<^verbatim>\<open>lib/ranny.c\<close>: an additive generator over 55 machine words, whose
  seeds are multiplied by the odd clock value on the first call.  The static variables are a record;
  \<open>unsigned long\<close> has 64 bits and \<open>u_int\<close> has 32.
\<close>

record rng =
  y_arr :: "ulong list"
  j_ix :: nat
  k_ix :: nat
  rng_done :: bool

definition ranny_y :: "ulong list" where
  "ranny_y =
     [1860909544, 231033423, 437666411, 1349655137, 2014584962,
      504613712, 656256107, 1246027206, 573713775, 643466871,
      540235388, 1630565153, 443649364, 729302839, 1933991552,
      944681982, 949111118, 406212522, 1065063137, 1712954727,
      73280612, 787623973, 1874130997, 801658492, 73395958,
      739165367, 596047144, 490055249, 1131094323, 662727104,
      483614097, 844520219, 893760527, 921280508, 46691708,
      760861842, 1425894220, 702947816, 2006889048, 1999607995,
      1346414687, 399640789, 1482689501, 1790064052, 1128943628,
      1269197405, 587262386, 2078054746, 1675409928, 1652325524,
      1643525825, 1748690540, 292465849, 1370173174, 402865384]"

definition rng_init :: rng where
  "rng_init = \<lparr>y_arr = ranny_y, j_ix = 23, k_ix = 54, rng_done = False\<rparr>"

definition seed :: "ulong \<Rightarrow> rng \<Rightarrow> rng" where
  "seed clock r = (if rng_done r then r else r\<lparr>y_arr := map (\<lambda>y. y * (or clock 1)) (y_arr r), rng_done := True\<rparr>)"

definition step_down :: "nat \<Rightarrow> nat" where
  "step_down i = (if i = 0 then 54 else i - 1)"

text \<open>\<open>m + 1\<close> is computed in 32 bits; the remainder is taken in 64 bits and cut to 32.\<close>

definition ranny :: "ulong \<Rightarrow> 32 word \<Rightarrow> rng \<Rightarrow> 32 word \<times> rng" where
  "ranny clock m r =
     (let r = seed clock r;
          v = y_arr r ! k_ix r + y_arr r ! j_ix r
      in (ucast (v mod ucast (m + 1)), r\<lparr>y_arr := (y_arr r)[k_ix r := v], k_ix := step_down (k_ix r), j_ix := step_down (j_ix r)\<rparr>))"

text \<open>The indices stay in the array, 24 positions apart.\<close>

definition rng_ok :: "rng \<Rightarrow> bool" where
  "rng_ok r \<longleftrightarrow> length (y_arr r) = 55 \<and> k_ix r < 55 \<and> j_ix r < 55 \<and> k_ix r = (j_ix r + 31) mod 55"

lemma rng_init_ok: "rng_ok rng_init"
  by (simp add: rng_ok_def rng_init_def ranny_y_def)

lemma step_down_apart: "j < 55 \<Longrightarrow> k = (j + 31) mod 55 \<Longrightarrow> step_down k = (step_down j + 31) mod 55"
  by (cases "j < 24"; cases "j = 24"; cases "j = 0") (auto simp: step_down_def mod_if)

lemma step_down_less: "i < 55 \<Longrightarrow> step_down i < 55"
  by (auto simp: step_down_def)

lemma ranny_ok: "rng_ok r \<Longrightarrow> rng_ok (snd (ranny clock m r))"
  using step_down_apart [of "j_ix r" "k_ix r"]
  by (auto simp: rng_ok_def ranny_def seed_def Let_def step_down_less)

lemma ranny_le:
  assumes "m \<noteq> - 1"
  shows "fst (ranny clock m r) \<le> m"
proof -
  have m1: "m + 1 \<noteq> 0" using assms by (simp add: eq_neg_iff_add_eq_0)
  have n: "unat (m + 1) = unat m + 1" using m1 unatSuc [of m] by (simp add: add.commute)
  define v where "v = y_arr (seed clock r) ! k_ix (seed clock r) + y_arr (seed clock r) ! j_ix (seed clock r)"
  have "unat (m + 1) < 2 ^ LENGTH(32)" by (rule unsigned_less)
  then have c: "unat (ucast (m + 1) :: ulong) = unat m + 1"
    using n by (simp add: unsigned_ucast_eq take_bit_nat_eq_self_iff)
  have "unat (v mod ucast (m + 1)) = unat v mod (unat m + 1)" by (simp add: unat_mod c)
  then have "unat (v mod ucast (m + 1)) \<le> unat m" by (simp add: less_Suc_eq_le [symmetric])
  moreover have "unat (ucast (v mod ucast (m + 1)) :: 32 word) = unat (v mod ucast (m + 1)) mod 2 ^ 32"
    by (simp add: unsigned_ucast_eq take_bit_eq_mod)
  ultimately have "unat (ucast (v mod ucast (m + 1)) :: 32 word) \<le> unat m"
    by (simp add: le_trans [OF mod_less_eq_dividend])
  then show ?thesis by (simp add: ranny_def Let_def v_def word_le_nat_alt)
qed

text \<open>Knuth's condition on the seeds: they are not all even.\<close>

definition not_all_even :: "rng \<Rightarrow> bool" where
  "not_all_even r \<longleftrightarrow> (\<exists>y\<in>set (y_arr r). odd y)"

lemma seed_not_all_even: "not_all_even r \<Longrightarrow> not_all_even (seed clock r)"
proof -
  have "odd (or clock 1)" by (simp add: even_or_iff)
  then show "not_all_even r \<Longrightarrow> not_all_even (seed clock r)"
    by (auto simp: not_all_even_def seed_def)
qed

lemma seed_ok: "rng_ok r \<Longrightarrow> rng_ok (seed clock r)"
  by (simp add: rng_ok_def seed_def)

lemma ranny_not_all_even:
  assumes "rng_ok r" "not_all_even r"
  shows "not_all_even (snd (ranny clock m r))"
proof -
  define q where "q = seed clock r"
  have q: "rng_ok q" "not_all_even q" using assms by (simp_all add: q_def seed_ok seed_not_all_even)
  let ?k = "k_ix q" and ?j = "j_ix q" and ?ys = "y_arr q"
  have i: "?k < length ?ys" "?j < length ?ys" "?k \<noteq> ?j" using q(1) by (auto simp: rng_ok_def mod_if split: if_splits)
  let ?zs = "?ys[?k := ?ys ! ?k + ?ys ! ?j]"
  have z: "y_arr (snd (ranny clock m r)) = ?zs" by (simp add: ranny_def Let_def q_def)
  have "\<exists>z\<in>set ?zs. odd z"
  proof (rule ccontr)
    assume "\<not> ?thesis"
    then have e: "even (?zs ! n)" if "n < length ?ys" for n using that nth_mem by (metis length_list_update)
    have j: "even (?ys ! ?j)" and k: "even (?ys ! ?k + ?ys ! ?j)" using e [OF i(2)] e [OF i(1)] i by simp_all
    have "even (?ys ! n)" if "n < length ?ys" for n using e [OF that] j k that by (cases "n = ?k") auto
    then show False using q(2) by (auto simp: not_all_even_def in_set_conv_nth)
  qed
  then show ?thesis by (simp add: not_all_even_def z)
qed

text \<open>
  Every state of the generator that calls of \<open>ranny\<close> can produce keeps its indices inside the array of 55
  words and never has only even words (the condition under which the generator has its full period); and
  a call with any bound but the largest 32-bit number returns a number from 0 to that bound.
\<close>

lemma ranny_sound:
  assumes "r = fold (\<lambda>(clock, m) r. snd (ranny clock m r)) calls rng_init"
  shows "rng_ok r \<and> (\<exists>y\<in>set (y_arr r). odd y) \<and> (m \<noteq> - 1 \<longrightarrow> fst (ranny clock m r) \<le> m)"
proof -
  have "rng_ok q \<Longrightarrow> not_all_even q \<Longrightarrow>
      rng_ok (fold (\<lambda>(clock, m) r. snd (ranny clock m r)) calls q) \<and>
      not_all_even (fold (\<lambda>(clock, m) r. snd (ranny clock m r)) calls q)" for q
    by (induction calls arbitrary: q) (auto simp: ranny_ok ranny_not_all_even)
  moreover have "not_all_even rng_init" by (simp add: not_all_even_def rng_init_def ranny_y_def)
  ultimately show ?thesis
    using assms rng_init_ok ranny_le by (auto simp: not_all_even_def)
qed

lemma ranny_sound_witness: "rng_ok (snd (ranny 1234567 9 rng_init)) \<and> fst (ranny 5 6 (snd (ranny 1234567 9 rng_init))) \<le> 6"
  using ranny_sound [of "snd (ranny 1234567 9 rng_init)" "[(1234567, 9)]" 6 5] by simp

end
