(* ===== verification/Threads.thy ===== *)
theory Threads
  imports Webs Chains Ranny
begin

text \<open>
  The scheduler's threads, \<^verbatim>\<open>scheduler/threads.c\<close>: every recipient group (vertex) waits in a thread, the
  threads of one channel and host pattern form a thread group, and all threads are also on one time
  chain, which the agenda works off from its head.

  The C structures are records in a heap: one function from addresses to records per structure type, with
  the live threads and groups recorded.  A pointer is an address or \<open>None\<close>; \<open>the\<close> dereferences where the
  code does so without a test.  Assignments through a pointer are the updates \<open>upd_thr\<close>, \<open>upd_grp\<close>,
  \<open>upd_vtx\<close> and \<open>upd_prc\<close>, in the order of the code.  Messages in verbose mode are not modelled.
\<close>

section \<open>Data\<close>

record config_entry =
  interval :: int
  cflags :: int
  maxkids :: int
  maxkidChannel :: int
  maxkidThreads :: int
  maxkidThread :: int
  idlemax :: int
  skew :: int
  nretries :: int
  retries :: "int list"

definition CFG_WITHHOST :: int where "CFG_WITHHOST = 2"
definition CFG_AGEORDER :: int where "CFG_AGEORDER = 4"
definition CFG_QUEUEONLY :: int where "CFG_QUEUEONLY = 8"
definition CFG_WAKEUPRESTARTONLY :: int where "CFG_WAKEUPRESTARTONLY = 16"

definition cfg_flag :: "int \<Rightarrow> config_entry \<Rightarrow> bool" where
  "cfg_flag f ce \<longleftrightarrow> Bit_Operations.and (cflags ce) f \<noteq> 0"

record threadgroup =
  groupid :: int
  threads :: int
  transporters :: int
  idlecnt :: int
  idleproc :: ptr
  g_wchan :: addr
  g_whost :: addr
  withhost :: bool
  g_thread :: ptr
  thrtail :: ptr
  g_nextthg :: ptr
  g_prevthg :: ptr
  cep :: addr
  ce :: config_entry

record thread =
  threadid :: int
  wakeup :: int
  t_attempts :: int
  retryindex :: int
  pending :: "string option"
  t_wchan :: addr
  t_whost :: addr
  nexttr :: ptr
  prevtr :: ptr
  t_nextthg :: ptr
  t_prevthg :: ptr
  t_thgrp :: addr
  thvertices :: ptr
  lastthvertex :: ptr
  t_proc :: ptr
  thrkids :: int
  jobs :: int
  unfed :: int
  nextfeed :: ptr

record vertex =
  v_mtime :: int
  v_mtimens :: int
  orig_chan :: addr
  orig_host :: addr
  v_thread :: ptr
  v_thgrp :: ptr
  nextitem :: ptr
  previtem :: ptr
  ce_pending :: int
  ce_expiry :: int
  ce_expiry2 :: int
  v_attempts :: int

record procinfo =
  p_pid :: int
  p_tofd :: int
  p_state :: int
  hungertime :: int
  overfed :: int
  p_ch :: ptr
  p_ho :: ptr
  p_thg :: addr
  pthread :: ptr
  pnext :: ptr
  pprev :: ptr
  cmdlen :: int

record sched = webstate +
  thrs :: "addr \<Rightarrow> thread"
  grps :: "addr \<Rightarrow> threadgroup"
  vtxs :: "addr \<Rightarrow> vertex"
  prcs :: "addr \<Rightarrow> procinfo"
  thr_live :: "addr set"
  grp_live :: "addr set"
  thread_head :: ptr
  thread_tail :: ptr
  thrg_root :: ptr
  last_groupid :: int
  last_threadid :: int
  idleprocs :: int
  StoredThreadsSc :: int
  TransportAgentsActiveSc :: int
  TransportAgentsIdleSc :: int

definition upd_thr :: "addr \<Rightarrow> (thread \<Rightarrow> thread) \<Rightarrow> sched \<Rightarrow> sched" where
  "upd_thr a f s = s\<lparr>thrs := (thrs s)(a := f (thrs s a))\<rparr>"
definition upd_grp :: "addr \<Rightarrow> (threadgroup \<Rightarrow> threadgroup) \<Rightarrow> sched \<Rightarrow> sched" where
  "upd_grp a f s = s\<lparr>grps := (grps s)(a := f (grps s a))\<rparr>"
definition upd_vtx :: "addr \<Rightarrow> (vertex \<Rightarrow> vertex) \<Rightarrow> sched \<Rightarrow> sched" where
  "upd_vtx a f s = s\<lparr>vtxs := (vtxs s)(a := f (vtxs s a))\<rparr>"
definition upd_prc :: "addr \<Rightarrow> (procinfo \<Rightarrow> procinfo) \<Rightarrow> sched \<Rightarrow> sched" where
  "upd_prc a f s = s\<lparr>prcs := (prcs s)(a := f (prcs s a))\<rparr>"
definition upd_web :: "addr \<Rightarrow> (web \<Rightarrow> web) \<Rightarrow> sched \<Rightarrow> sched" where
  "upd_web a f s = s\<lparr>webs := (webs s)(a := f (webs s a))\<rparr>"

text \<open>An assignment through a pointer that may be \<open>NULL\<close> is guarded in the code.\<close>

definition upd_thr_p :: "ptr \<Rightarrow> (thread \<Rightarrow> thread) \<Rightarrow> sched \<Rightarrow> sched" where
  "upd_thr_p p f s = (case p of None \<Rightarrow> s | Some a \<Rightarrow> upd_thr a f s)"
definition upd_vtx_p :: "ptr \<Rightarrow> (vertex \<Rightarrow> vertex) \<Rightarrow> sched \<Rightarrow> sched" where
  "upd_vtx_p p f s = (case p of None \<Rightarrow> s | Some a \<Rightarrow> upd_vtx a f s)"
definition upd_prc_p :: "ptr \<Rightarrow> (procinfo \<Rightarrow> procinfo) \<Rightarrow> sched \<Rightarrow> sched" where
  "upd_prc_p p f s = (case p of None \<Rightarrow> s | Some a \<Rightarrow> upd_prc a f s)"

lemmas upd_defs = upd_thr_def upd_grp_def upd_vtx_def upd_prc_def upd_web_def upd_thr_p_def upd_vtx_p_def upd_prc_p_def

section \<open>Thread groups\<close>

definition malloc :: "sched \<Rightarrow> addr \<times> sched" where
  "malloc s = (brk s, s\<lparr>brk := brk s + 1\<rparr>)"

definition group_zero :: threadgroup where
  "group_zero = \<lparr>groupid = 0, threads = 0, transporters = 0, idlecnt = 0, idleproc = None, g_wchan = 0, g_whost = 0,
     withhost = False, g_thread = None, thrtail = None, g_nextthg = None, g_prevthg = None, cep = 0,
     ce = \<lparr>interval = 0, cflags = 0, maxkids = 0, maxkidChannel = 0, maxkidThreads = 0, maxkidThread = 0, idlemax = 0, skew = 0,
           nretries = 0, retries = []\<rparr>\<rparr>"

text \<open>The callback \<open>ce_fillin\<close> fills in the consolidated configuration entry \<open>ce\<close> of the group.\<close>

definition create_threadgroup ::
  "addr \<Rightarrow> addr \<Rightarrow> addr \<Rightarrow> bool \<Rightarrow> (addr \<Rightarrow> config_entry) \<Rightarrow> sched \<Rightarrow> addr \<times> sched" where
  "create_threadgroup cfg wc wh wh_flag ce_fillin s =
     (let (g, s) = malloc s;
          s = s\<lparr>last_groupid := last_groupid s + 1, grp_live := insert g (grp_live s)\<rparr>;
          s = s\<lparr>grps := (grps s)(g := group_zero\<lparr>groupid := last_groupid s, cep := cfg, withhost := wh_flag,
                                                g_wchan := wc, g_whost := wh, ce := ce_fillin cfg\<rparr>)\<rparr>;
          s = upd_web wc (\<lambda>w. w\<lparr>linkcnt := linkcnt w + 1\<rparr>) s;
          s = upd_web wh (\<lambda>w. w\<lparr>linkcnt := linkcnt w + 1\<rparr>) s
      in case thrg_root s of
           None \<Rightarrow> (g, upd_grp g (\<lambda>r. r\<lparr>g_nextthg := Some g, g_prevthg := Some g\<rparr>) (s\<lparr>thrg_root := Some g\<rparr>))
         | Some rt \<Rightarrow>
             let s = upd_grp g (\<lambda>r. r\<lparr>g_nextthg := g_nextthg (grps s rt)\<rparr>) s;
                 s = upd_grp g (\<lambda>r. r\<lparr>g_prevthg := g_prevthg (grps s (the (g_nextthg (grps s rt))))\<rparr>) s;
                 s = upd_grp (the (g_prevthg (grps s g))) (\<lambda>r. r\<lparr>g_nextthg := Some g\<rparr>) s;
                 s = upd_grp (the (g_nextthg (grps s g))) (\<lambda>r. r\<lparr>g_prevthg := Some g\<rparr>) s
             in (g, s))"

text \<open>The result is \<open>None\<close> when the code aborts.\<close>

definition delete_threadgroup :: "addr \<Rightarrow> sched \<Rightarrow> sched option" where
  "delete_threadgroup g s =
     (if transporters (grps s g) \<noteq> 0 \<or> threads (grps s g) \<noteq> 0 then Some s
      else if idleproc (grps s g) \<noteq> None \<or> g_thread (grps s g) \<noteq> None then None
      else if thrg_root s = None then None
      else
        let s = upd_web (g_wchan (grps s g)) (\<lambda>w. w\<lparr>linkcnt := linkcnt w - 1\<rparr>) s;
            s = unweb L_CHANNEL (g_wchan (grps s g)) s;
            s = upd_web (g_whost (grps s g)) (\<lambda>w. w\<lparr>linkcnt := linkcnt w - 1\<rparr>) s;
            s = unweb L_HOST (g_whost (grps s g)) s;
            tgp = g_nextthg (grps s g);
            s = upd_grp (the (g_prevthg (grps s g))) (\<lambda>r. r\<lparr>g_nextthg := g_nextthg (grps s g)\<rparr>) s;
            s = upd_grp (the tgp) (\<lambda>r. r\<lparr>g_prevthg := g_prevthg (grps s g)\<rparr>) s;
            s = (if thrg_root s = Some g then s\<lparr>thrg_root := tgp\<rparr> else s);
            s = (if tgp = Some g then s\<lparr>thrg_root := None\<rparr> else s)
        in Some (s\<lparr>grp_live := grp_live s - {g}\<rparr>))"

section \<open>The time chain and the ring of a group\<close>

text \<open>The linear and the circular half of \<open>_thread_timechain_unlink\<close> and of \<open>_thread_timechain_append\<close>.\<close>

definition timechain_unlink :: "addr \<Rightarrow> sched \<Rightarrow> sched" where
  "timechain_unlink t s =
     (let s = upd_thr_p (prevtr (thrs s t)) (\<lambda>r. r\<lparr>nexttr := nexttr (thrs s t)\<rparr>) s;
          s = upd_thr_p (nexttr (thrs s t)) (\<lambda>r. r\<lparr>prevtr := prevtr (thrs s t)\<rparr>) s;
          s = (if thread_head s = Some t then s\<lparr>thread_head := nexttr (thrs s t)\<rparr> else s);
          s = (if thread_tail s = Some t then s\<lparr>thread_tail := prevtr (thrs s t)\<rparr> else s)
      in upd_thr t (\<lambda>r. r\<lparr>nexttr := None, prevtr := None\<rparr>) s)"

definition ring_cut :: "addr \<Rightarrow> sched \<Rightarrow> sched" where
  "ring_cut t s =
     (let s = upd_thr (the (t_prevthg (thrs s t))) (\<lambda>r. r\<lparr>t_nextthg := t_nextthg (thrs s t)\<rparr>) s
      in upd_thr (the (t_nextthg (thrs s t))) (\<lambda>r. r\<lparr>t_prevthg := t_prevthg (thrs s t)\<rparr>) s)"

definition group_drop :: "addr \<Rightarrow> addr \<Rightarrow> sched \<Rightarrow> sched" where
  "group_drop g t s =
     (let s = upd_grp g (\<lambda>r. r\<lparr>threads := threads r - 1\<rparr>) s;
          s = s\<lparr>StoredThreadsSc := StoredThreadsSc s - 1\<rparr>;
          s = (if g_thread (grps s g) = Some t then upd_grp g (\<lambda>r. r\<lparr>g_thread := t_nextthg (thrs s t)\<rparr>) s else s);
          s = (if g_thread (grps s g) = Some t then upd_grp g (\<lambda>r. r\<lparr>g_thread := None\<rparr>) s else s);
          s = (if thrtail (grps s g) = Some t then upd_grp g (\<lambda>r. r\<lparr>thrtail := t_prevthg (thrs s t)\<rparr>) s else s)
      in if thrtail (grps s g) = Some t then upd_grp g (\<lambda>r. r\<lparr>thrtail := None\<rparr>) s else s)"

definition groupring_unlink :: "addr \<Rightarrow> sched \<Rightarrow> sched" where
  "groupring_unlink t s =
     upd_thr t (\<lambda>r. r\<lparr>t_prevthg := None, t_nextthg := None\<rparr>) (group_drop (t_thgrp (thrs s t)) t (ring_cut t s))"

definition thread_timechain_unlink :: "addr \<Rightarrow> sched \<Rightarrow> sched" where
  "thread_timechain_unlink t s = groupring_unlink t (timechain_unlink t s)"

definition timechain_append :: "addr \<Rightarrow> sched \<Rightarrow> sched" where
  "timechain_append t s =
     (case thread_head s of
        None \<Rightarrow> upd_thr t (\<lambda>r. r\<lparr>nexttr := None, prevtr := None\<rparr>) (s\<lparr>thread_head := Some t, thread_tail := Some t\<rparr>)
      | Some _ \<Rightarrow>
          let s = upd_thr (the (thread_tail s)) (\<lambda>r. r\<lparr>nexttr := Some t\<rparr>) s;
              s = upd_thr t (\<lambda>r. r\<lparr>nexttr := None\<rparr>) s;
              s = upd_thr t (\<lambda>r. r\<lparr>prevtr := thread_tail s\<rparr>) s
          in s\<lparr>thread_tail := Some t\<rparr>)"

definition ring_splice :: "addr \<Rightarrow> addr \<Rightarrow> sched \<Rightarrow> sched" where
  "ring_splice tail t s =
     (let s = upd_thr t (\<lambda>r. r\<lparr>t_nextthg := t_nextthg (thrs s tail)\<rparr>) s;
          s = upd_thr tail (\<lambda>r. r\<lparr>t_nextthg := Some t\<rparr>) s;
          s = upd_thr t (\<lambda>r. r\<lparr>t_prevthg := t_prevthg (thrs s (the (t_nextthg (thrs s t))))\<rparr>) s
      in upd_thr (the (t_nextthg (thrs s t))) (\<lambda>r. r\<lparr>t_prevthg := Some t\<rparr>) s)"

definition groupring_append :: "addr \<Rightarrow> sched \<Rightarrow> sched" where
  "groupring_append t s =
     (let g = t_thgrp (thrs s t);
          s = (case g_thread (grps s g) of
                 None \<Rightarrow>
                   upd_thr t (\<lambda>r. r\<lparr>t_nextthg := Some t, t_prevthg := Some t\<rparr>)
                     (upd_grp g (\<lambda>r. r\<lparr>g_thread := Some t, thrtail := Some t\<rparr>) s)
               | Some _ \<Rightarrow>
                   upd_grp g (\<lambda>r. r\<lparr>thrtail := Some t\<rparr>) (ring_splice (the (thrtail (grps s g))) t s));
          s = upd_grp g (\<lambda>r. r\<lparr>threads := threads r + 1\<rparr>) s
      in s\<lparr>StoredThreadsSc := StoredThreadsSc s + 1\<rparr>)"

definition thread_timechain_append :: "addr \<Rightarrow> sched \<Rightarrow> sched" where
  "thread_timechain_append t s = groupring_append t (timechain_append t s)"

section \<open>Creating and deleting threads\<close>

definition thread_zero :: "thread" where
  "thread_zero = \<lparr>threadid = 0, wakeup = 0, t_attempts = 0, retryindex = 0, pending = None, t_wchan = 0, t_whost = 0,
     nexttr = None, prevtr = None, t_nextthg = None, t_prevthg = None, t_thgrp = 0, thvertices = None,
     lastthvertex = None, t_proc = None, thrkids = 0, jobs = 0, unfed = 0, nextfeed = None\<rparr>"

text \<open>\<open>cfgs\<close> is the configuration table that the \<open>cep\<close> pointers point into; \<open>tm\<close> is the time of the call.\<close>

definition create_thread :: "(addr \<Rightarrow> config_entry) \<Rightarrow> int \<Rightarrow> addr \<Rightarrow> addr \<Rightarrow> sched \<Rightarrow> addr \<times> sched" where
  "create_thread cfgs tm g v s =
     (let (t, s) = malloc s;
          s = s\<lparr>last_threadid := last_threadid s + 1, thr_live := insert t (thr_live s)\<rparr>;
          s = s\<lparr>thrs := (thrs s)(t := thread_zero\<lparr>threadid := last_threadid s, t_thgrp := g,
                 t_wchan := orig_chan (vtxs s v), t_whost := orig_host (vtxs s v)\<rparr>)\<rparr>;
          c = cfgs (cep (grps s g));
          s = (if cfg_flag CFG_QUEUEONLY c \<and> nretries c \<noteq> 0 then upd_thr t (\<lambda>r. r\<lparr>wakeup := tm + retries c ! 0\<rparr>) s else s);
          s = upd_thr t (\<lambda>r. r\<lparr>thvertices := Some v, lastthvertex := Some v, jobs := 1\<rparr>) s;
          s = upd_vtx v (\<lambda>r. r\<lparr>v_thread := Some t\<rparr>) s
      in (t, thread_timechain_append t s))"

definition delete_thread :: "addr \<Rightarrow> sched \<Rightarrow> bool \<times> sched" where
  "delete_thread t s =
     (if thrkids (thrs s t) \<noteq> 0 \<or> jobs (thrs s t) \<noteq> 0 then (False, s)
      else let s = thread_timechain_unlink t s in (True, s\<lparr>thr_live := thr_live s - {t}\<rparr>))"

section \<open>The vertices of a thread\<close>

definition thread_linktail :: "addr \<Rightarrow> addr \<Rightarrow> sched \<Rightarrow> sched" where
  "thread_linktail t v s =
     (let s = (case thvertices (thrs s t) of
                 Some _ \<Rightarrow>
                   let s = upd_vtx (the (lastthvertex (thrs s t))) (\<lambda>r. r\<lparr>nextitem := Some v\<rparr>) s
                   in upd_vtx v (\<lambda>r. r\<lparr>previtem := lastthvertex (thrs s t)\<rparr>) s
               | None \<Rightarrow> upd_vtx v (\<lambda>r. r\<lparr>previtem := None\<rparr>) (upd_thr t (\<lambda>r. r\<lparr>thvertices := Some v\<rparr>) s));
          s = upd_vtx v (\<lambda>r. r\<lparr>nextitem := None, v_thread := Some t\<rparr>) s
      in upd_thr t (\<lambda>r. r\<lparr>lastthvertex := Some v\<rparr>) s)"

definition unthread :: "ptr \<Rightarrow> addr \<Rightarrow> sched \<Rightarrow> sched" where
  "unthread thr v s =
     (let s = upd_vtx_p (previtem (vtxs s v)) (\<lambda>r. r\<lparr>nextitem := nextitem (vtxs s v)\<rparr>) s;
          s = upd_vtx_p (nextitem (vtxs s v)) (\<lambda>r. r\<lparr>previtem := previtem (vtxs s v)\<rparr>) s;
          s = (case thr of
                 None \<Rightarrow> s
               | Some t \<Rightarrow>
                   let s = upd_thr t (\<lambda>r. r\<lparr>jobs := jobs r - 1\<rparr>) s;
                       s = (if nextfeed (thrs s t) = Some v then upd_thr t (\<lambda>r. r\<lparr>nextfeed := nextitem (vtxs s v)\<rparr>) s else s);
                       s = (if thvertices (thrs s t) = Some v then upd_thr t (\<lambda>r. r\<lparr>thvertices := nextitem (vtxs s v)\<rparr>) s else s)
                   in if lastthvertex (thrs s t) = Some v then upd_thr t (\<lambda>r. r\<lparr>lastthvertex := previtem (vtxs s v)\<rparr>) s else s)
      in upd_vtx v (\<lambda>r. r\<lparr>nextitem := None, previtem := None\<rparr>) s)"

definition web_detangle :: "addr \<Rightarrow> sched \<Rightarrow> sched" where
  "web_detangle v s =
     (let thr = v_thread (vtxs s v); s = unthread thr v s
      in case thr of
           None \<Rightarrow> s
         | Some t \<Rightarrow> if thvertices (thrs s t) = None then snd (delete_thread t s) else s)"

section \<open>Walking a ring\<close>

text \<open>
  The loops \<open>for (x = start, once = 1; x && (once || x != start); x = x->next, once = 0)\<close> that look for a
  member with a property; \<open>None\<close> when the loop does not end.
\<close>

partial_function (option) ring_walk :: "(addr \<Rightarrow> ptr) \<Rightarrow> (addr \<Rightarrow> bool) \<Rightarrow> ptr \<Rightarrow> ptr \<Rightarrow> bool \<Rightarrow> ptr option" where
  "ring_walk nxt P start x once =
     (case x of
        None \<Rightarrow> Some None
      | Some a \<Rightarrow>
          if once \<or> x \<noteq> start then (if P a then Some (Some a) else ring_walk nxt P start (nxt a) False)
          else Some None)"

declare ring_walk.simps [code]

section \<open>Linking a vertex into a thread\<close>

text \<open>\<open>thread_linkin\<close> up to its call of \<open>thread_start_\<close>: the thread the vertex got into.\<close>

definition linkin_group :: "addr \<Rightarrow> addr \<Rightarrow> addr \<Rightarrow> sched \<Rightarrow> addr \<Rightarrow> bool" where
  "linkin_group cfg wc wh s g \<longleftrightarrow>
     cep (grps s g) = cfg \<and> g_wchan (grps s g) = wc \<and> (withhost (grps s g) \<longrightarrow> g_whost (grps s g) = wh)"

definition linkin_existing :: "addr \<Rightarrow> addr \<Rightarrow> addr \<Rightarrow> sched \<Rightarrow> sched" where
  "linkin_existing g t v s =
     (let s = thread_linktail t v s;
          s = upd_vtx v (\<lambda>r. r\<lparr>v_thgrp := Some g\<rparr>) s;
          s = upd_thr t (\<lambda>r. r\<lparr>jobs := jobs r + 1\<rparr>) s;
          s = (if t_proc (thrs s t) \<noteq> None then upd_thr t (\<lambda>r. r\<lparr>unfed := unfed r + 1\<rparr>) s else s)
      in if t_proc (thrs s t) \<noteq> None \<and> nextfeed (thrs s t) = None then upd_thr t (\<lambda>r. r\<lparr>nextfeed := Some v\<rparr>) s else s)"

definition linkin_new :: "(addr \<Rightarrow> config_entry) \<Rightarrow> int \<Rightarrow> addr \<Rightarrow> addr \<Rightarrow> sched \<Rightarrow> addr \<times> sched" where
  "linkin_new cfgs tm g v s =
     (case create_thread cfgs tm g v s of (t, s) \<Rightarrow> (t, upd_vtx v (\<lambda>r. r\<lparr>v_thgrp := Some g\<rparr>) s))"

definition linkin_thread ::
  "(addr \<Rightarrow> config_entry) \<Rightarrow> (addr \<Rightarrow> config_entry) \<Rightarrow> int \<Rightarrow> addr \<Rightarrow> addr \<Rightarrow> sched \<Rightarrow> (addr \<times> sched) option" where
  "linkin_thread cfgs ce_fillin tm v cfg s =
     (let wc = orig_chan (vtxs s v); wh = orig_host (vtxs s v);
          new_group = create_threadgroup cfg wc wh (cfg_flag CFG_WITHHOST (cfgs cfg)) ce_fillin;
          s = (if thrg_root s = None then snd (new_group s) else s)
      in case ring_walk (\<lambda>g. g_nextthg (grps s g)) (linkin_group cfg wc wh s) (thrg_root s) (thrg_root s) True of
           None \<Rightarrow> None
         | Some None \<Rightarrow> (case new_group s of (g, s) \<Rightarrow> Some (linkin_new cfgs tm g v s))
         | Some (Some g) \<Rightarrow>
             (case ring_walk (\<lambda>t. t_nextthg (thrs s t)) (\<lambda>t. t_whost (thrs s t) = wh) (g_thread (grps s g)) (g_thread (grps s g)) True of
                None \<Rightarrow> None
              | Some (Some t) \<Rightarrow> Some (t, linkin_existing g t v s)
              | Some None \<Rightarrow> Some (linkin_new cfgs tm g v s)))"

section \<open>Counting the recipients\<close>

text \<open>The loop \<open>for (x = start, once = 1; once || x != start; x = x->next, once = 0)\<close> that adds up a value of its members.\<close>

partial_function (option) ring_sum :: "(addr \<Rightarrow> ptr) \<Rightarrow> (addr \<Rightarrow> int option) \<Rightarrow> addr \<Rightarrow> addr \<Rightarrow> bool \<Rightarrow> int \<Rightarrow> int option" where
  "ring_sum nxt f start x once acc =
     (if once \<or> x \<noteq> start
      then (case f x of None \<Rightarrow> None | Some d \<Rightarrow> ring_sum nxt f start (the (nxt x)) False (acc + d))
      else Some acc)"

declare ring_sum.simps [code]

definition thread_count_recipients :: "sched \<Rightarrow> int option" where
  "thread_count_recipients s =
     (case thrg_root s of
        None \<Rightarrow> Some 0
      | Some rt \<Rightarrow>
          ring_sum (\<lambda>g. g_nextthg (grps s g))
            (\<lambda>g. case g_thread (grps s g) of
                    None \<Rightarrow> Some 0
                  | Some t \<Rightarrow> ring_sum (\<lambda>t. t_nextthg (thrs s t)) (\<lambda>t. Some (jobs (thrs s t))) t t True 0)
            rt rt True 0)"

end
