(* ===== verification/Threadinv.thy ===== *)
theory Threadinv
  imports Threads
begin

text \<open>
  What the linked structures of the scheduler represent, and that the operations of \<^verbatim>\<open>scheduler/threads.c\<close>
  keep them consistent: the time chain lists the live threads, the ring of every group its threads, the ring
  of groups the live groups, and the chain of every thread its vertices.
\<close>

section \<open>What the steps leave alone\<close>

lemma upd_thr_simps [simp]:
  "thrs (upd_thr a f s) = (thrs s)(a := f (thrs s a))" "grps (upd_thr a f s) = grps s" "vtxs (upd_thr a f s) = vtxs s"
  "thread_head (upd_thr a f s) = thread_head s" "thread_tail (upd_thr a f s) = thread_tail s" "thrg_root (upd_thr a f s) = thrg_root s"
  "thr_live (upd_thr a f s) = thr_live s" "grp_live (upd_thr a f s) = grp_live s" "brk (upd_thr a f s) = brk s"
  by (simp_all add: upd_thr_def)

lemma upd_grp_simps [simp]:
  "grps (upd_grp a h s) = (grps s)(a := h (grps s a))" "thrs (upd_grp a h s) = thrs s" "vtxs (upd_grp a h s) = vtxs s"
  "thread_head (upd_grp a h s) = thread_head s" "thread_tail (upd_grp a h s) = thread_tail s" "thrg_root (upd_grp a h s) = thrg_root s"
  "thr_live (upd_grp a h s) = thr_live s" "grp_live (upd_grp a h s) = grp_live s" "brk (upd_grp a h s) = brk s"
  by (simp_all add: upd_grp_def)

lemma upd_vtx_simps [simp]:
  "vtxs (upd_vtx a k s) = (vtxs s)(a := k (vtxs s a))" "thrs (upd_vtx a k s) = thrs s" "grps (upd_vtx a k s) = grps s"
  "thread_head (upd_vtx a k s) = thread_head s" "thread_tail (upd_vtx a k s) = thread_tail s" "thrg_root (upd_vtx a k s) = thrg_root s"
  "thr_live (upd_vtx a k s) = thr_live s" "grp_live (upd_vtx a k s) = grp_live s" "brk (upd_vtx a k s) = brk s"
  by (simp_all add: upd_vtx_def)

lemma group_drop_simps [simp]:
  "thrs (group_drop g t s) = thrs s" "vtxs (group_drop g t s) = vtxs s"
  "thread_head (group_drop g t s) = thread_head s" "thread_tail (group_drop g t s) = thread_tail s" "thrg_root (group_drop g t s) = thrg_root s"
  "thr_live (group_drop g t s) = thr_live s" "grp_live (group_drop g t s) = grp_live s" "brk (group_drop g t s) = brk s"
  "h \<noteq> g \<Longrightarrow> grps (group_drop g t s) h = grps s h"
  by (simp_all add: group_drop_def Let_def)

lemma group_drop_fields:
  "g_thread (grps (group_drop g t s) g) =
     (if g_thread (grps s g) = Some t then (if t_nextthg (thrs s t) = Some t then None else t_nextthg (thrs s t)) else g_thread (grps s g))"
  "thrtail (grps (group_drop g t s) g) =
     (if thrtail (grps s g) = Some t then (if t_prevthg (thrs s t) = Some t then None else t_prevthg (thrs s t)) else thrtail (grps s g))"
  "threads (grps (group_drop g t s) g) = threads (grps s g) - 1"
  "g_nextthg (grps (group_drop g t s) h) = g_nextthg (grps s h)" "g_prevthg (grps (group_drop g t s) h) = g_prevthg (grps s h)"
  by (simp_all add: group_drop_def Let_def)

lemma ring_cut_simps [simp]:
  "grps (ring_cut t s) = grps s" "vtxs (ring_cut t s) = vtxs s"
  "thread_head (ring_cut t s) = thread_head s" "thread_tail (ring_cut t s) = thread_tail s" "thrg_root (ring_cut t s) = thrg_root s"
  "thr_live (ring_cut t s) = thr_live s" "grp_live (ring_cut t s) = grp_live s" "brk (ring_cut t s) = brk s"
  "nexttr (thrs (ring_cut t s) a) = nexttr (thrs s a)" "prevtr (thrs (ring_cut t s) a) = prevtr (thrs s a)"
  by (simp_all add: ring_cut_def Let_def)

lemma ring_splice_simps [simp]:
  "grps (ring_splice tail t s) = grps s" "vtxs (ring_splice tail t s) = vtxs s"
  "thread_head (ring_splice tail t s) = thread_head s" "thread_tail (ring_splice tail t s) = thread_tail s" "thrg_root (ring_splice tail t s) = thrg_root s"
  "thr_live (ring_splice tail t s) = thr_live s" "grp_live (ring_splice tail t s) = grp_live s" "brk (ring_splice tail t s) = brk s"
  "nexttr (thrs (ring_splice tail t s) a) = nexttr (thrs s a)" "prevtr (thrs (ring_splice tail t s) a) = prevtr (thrs s a)"
  by (simp_all add: ring_splice_def Let_def)

section \<open>The time chain\<close>

definition tchain :: "sched \<Rightarrow> addr list \<Rightarrow> bool" where
  "tchain s xs \<longleftrightarrow> dlist (\<lambda>a. nexttr (thrs s a)) (\<lambda>a. prevtr (thrs s a)) (thread_head s) (thread_tail s) xs"

lemma dseg_unique: "dseg n p a xs None \<Longrightarrow> dseg n p a ys None \<Longrightarrow> firstp xs None = firstp ys None \<Longrightarrow> xs = ys"
proof (induction xs arbitrary: a ys)
  case Nil
  then show ?case by simp
next
  case (Cons x xs)
  then obtain zs where y: "ys = x # zs" by (cases ys) auto
  have "xs = zs" using Cons.prems y by (intro Cons.IH [of "Some x"]) auto
  then show ?case using y by simp
qed

lemma dlist_unique: "dlist n p h t xs \<Longrightarrow> dlist n p h t ys \<Longrightarrow> xs = ys"
  by (auto simp: dlist_def intro: dseg_unique)

lemma tchain_unlink: "tchain s xs \<Longrightarrow> t \<in> set xs \<Longrightarrow> tchain (timechain_unlink t s) (remove1 t xs)"
  unfolding tchain_def
  by (rule dlist_unlink, assumption+)
     (auto simp: timechain_unlink_def Let_def upd_defs unlink_n_def unlink_p_def split: option.splits)

lemma tchain_append:
  assumes "tchain s xs" "t \<notin> set xs"
  shows "tchain (timechain_append t s) (xs @ [t])"
proof (cases "thread_head s")
  case None
  then have "xs = []" using assms(1) by (simp add: tchain_def)
  then show ?thesis using None by (simp add: tchain_def dlist_def timechain_append_def upd_defs)
next
  case (Some h)
  then obtain l where l: "thread_tail s = Some l" "l \<in> set xs"
    using assms(1) by (auto simp: tchain_def dlist_def lastp_def firstp_def split: list.splits)
  then have "l \<noteq> t" using assms(2) by auto
  moreover have "thread_tail (timechain_append t s) = Some t" using Some by (simp add: timechain_append_def Let_def)
  ultimately show ?thesis
    unfolding tchain_def \<open>thread_tail (timechain_append t s) = Some t\<close> using Some l
    by (intro dlist_append [OF assms(1) [unfolded tchain_def] assms(2)])
       (auto simp: timechain_append_def Let_def upd_defs)
qed

lemma ring_keeps_chain [simp]:
  "nexttr (thrs (groupring_unlink t s) a) = nexttr (thrs s a)" "prevtr (thrs (groupring_unlink t s) a) = prevtr (thrs s a)"
  "thread_head (groupring_unlink t s) = thread_head s" "thread_tail (groupring_unlink t s) = thread_tail s"
  "nexttr (thrs (groupring_append t s) a) = nexttr (thrs s a)" "prevtr (thrs (groupring_append t s) a) = prevtr (thrs s a)"
  "thread_head (groupring_append t s) = thread_head s" "thread_tail (groupring_append t s) = thread_tail s"
  by (simp_all add: groupring_unlink_def groupring_append_def Let_def upd_defs split: option.splits)

lemma tchain_ring [simp]: "tchain (groupring_unlink t s) xs = tchain s xs" "tchain (groupring_append t s) xs = tchain s xs"
  by (simp_all add: tchain_def)

interpretation agenda: fifo tchain thread_timechain_append thread_timechain_unlink
proof
  show "tchain s xs \<Longrightarrow> distinct xs" for s xs by (simp add: tchain_def dlist_def)
  show "tchain s xs \<Longrightarrow> tchain s ys \<Longrightarrow> xs = ys" for s xs ys unfolding tchain_def by (rule dlist_unique)
  show "tchain s xs \<Longrightarrow> x \<notin> set xs \<Longrightarrow> tchain (thread_timechain_append x s) (xs @ [x])" for s xs x
    by (simp add: thread_timechain_append_def tchain_append)
  show "tchain s xs \<Longrightarrow> x \<in> set xs \<Longrightarrow> tchain (thread_timechain_unlink x s) (remove1 x xs)" for s xs x
    by (simp add: thread_timechain_unlink_def tchain_unlink)
qed

section \<open>The ring of a group\<close>

definition gring :: "sched \<Rightarrow> addr \<Rightarrow> addr list \<Rightarrow> bool" where
  "gring s g xs \<longleftrightarrow>
     (if xs = [] then g_thread (grps s g) = None \<and> thrtail (grps s g) = None
      else ring (\<lambda>a. t_nextthg (thrs s a)) (\<lambda>a. t_prevthg (thrs s a)) xs \<and> thrtail (grps s g) = Some (last xs) \<and>
           g_thread (grps s g) \<in> Some ` set xs)"

lemma chain_keeps_ring [simp]:
  "t_nextthg (thrs (timechain_unlink t s) a) = t_nextthg (thrs s a)" "t_prevthg (thrs (timechain_unlink t s) a) = t_prevthg (thrs s a)"
  "t_thgrp (thrs (timechain_unlink t s) a) = t_thgrp (thrs s a)" "grps (timechain_unlink t s) = grps s"
  "t_nextthg (thrs (timechain_append t s) a) = t_nextthg (thrs s a)" "t_prevthg (thrs (timechain_append t s) a) = t_prevthg (thrs s a)"
  "t_thgrp (thrs (timechain_append t s) a) = t_thgrp (thrs s a)" "grps (timechain_append t s) = grps s"
  by (simp_all add: timechain_unlink_def timechain_append_def Let_def upd_defs split: option.splits)

lemma gring_chain [simp]: "gring (timechain_unlink t s) g xs = gring s g xs" "gring (timechain_append t s) g xs = gring s g xs"
  by (simp_all add: gring_def)

lemma ring_splice_thrs:
  assumes "t_nextthg (thrs s tail) = Some n" "t \<noteq> n" "t \<noteq> tail"
  shows "t_nextthg (thrs (ring_splice tail t s) a) = (if a = t then Some n else if a = tail then Some t else t_nextthg (thrs s a))"
    "t_prevthg (thrs (ring_splice tail t s) a) = (if a = t then t_prevthg (thrs s n) else if a = n then Some t else t_prevthg (thrs s a))"
    "a \<noteq> t \<Longrightarrow> a \<noteq> tail \<Longrightarrow> a \<noteq> n \<Longrightarrow> thrs (ring_splice tail t s) a = thrs s a"
  using assms by (simp_all add: ring_splice_def Let_def)

lemma gring_append:
  assumes "gring s g xs" "t \<notin> set xs" "t_thgrp (thrs s t) = g"
  shows "gring (groupring_append t s) g (xs @ [t])"
proof (cases "xs = []")
  case True
  then show ?thesis
    using assms by (simp add: gring_def groupring_append_def Let_def upd_defs)
next
  case False
  then have r: "ring (\<lambda>a. t_nextthg (thrs s a)) (\<lambda>a. t_prevthg (thrs s a)) xs" "thrtail (grps s g) = Some (last xs)"
    "g_thread (grps s g) \<in> Some ` set xs" using assms(1) by (auto simp: gring_def)
  then obtain e where e: "g_thread (grps s g) = Some e" "e \<in> set xs" by auto
  have nl: "t_nextthg (thrs s (last xs)) = Some (hd xs)" "t_prevthg (thrs s (hd xs)) = Some (last xs)"
    using ring_next_last [OF r(1)] ring_prev_hd [OF r(1)] by simp_all
  have ne: "t \<noteq> last xs" "t \<noteq> hd xs" using assms(2) False by auto
  have a: "thrs (groupring_append t s) = thrs (ring_splice (last xs) t s)"
    using assms(3) e r(2) by (simp add: groupring_append_def Let_def)
  have "ring (\<lambda>a. t_nextthg (thrs (groupring_append t s) a)) (\<lambda>a. t_prevthg (thrs (groupring_append t s) a)) (xs @ [t])"
    unfolding a using nl ne assms(2)
    by (intro ring_insert [OF r(1) assms(2)]) (auto simp: ring_splice_thrs [OF nl(1) ne(2,1)])
  moreover have "thrtail (grps (groupring_append t s) g) = Some t" "g_thread (grps (groupring_append t s) g) = Some e"
    using assms(3) e by (simp_all add: groupring_append_def Let_def)
  ultimately show ?thesis using e by (simp add: gring_def)
qed

text \<open>The thread that is taken out is read as the first of the ring, its group's entry and tail move on.\<close>

lemma ring_cut_thrs:
  assumes "t_prevthg (thrs s t) = Some p" "t_nextthg (thrs s t) = Some n" "t \<noteq> n" "t \<noteq> p"
  shows "t_nextthg (thrs (ring_cut t s) a) = (if a = p then Some n else t_nextthg (thrs s a))"
    "t_prevthg (thrs (ring_cut t s) a) = (if a = n then Some p else t_prevthg (thrs s a))"
    "a \<noteq> p \<Longrightarrow> a \<noteq> n \<Longrightarrow> thrs (ring_cut t s) a = thrs s a"
  using assms by (simp_all add: ring_cut_def Let_def)

lemma groupring_unlink_fields:
  assumes "ring (\<lambda>a. t_nextthg (thrs s a)) (\<lambda>a. t_prevthg (thrs s a)) (t # zs)" "t_thgrp (thrs s t) = g"
  shows "zs \<noteq> [] \<Longrightarrow> ring (\<lambda>a. t_nextthg (thrs (groupring_unlink t s) a)) (\<lambda>a. t_prevthg (thrs (groupring_unlink t s) a)) zs"
    "g_thread (grps (groupring_unlink t s) g) =
       (if g_thread (grps s g) = Some t then firstp zs None else g_thread (grps s g))"
    "thrtail (grps (groupring_unlink t s) g) = (if thrtail (grps s g) = Some t then lastp zs None else thrtail (grps s g))"
    "a \<notin> set (t # zs) \<Longrightarrow> thrs (groupring_unlink t s) a = thrs s a"
proof -
  have p: "t_prevthg (thrs s t) = Some (last (t # zs))" "t_nextthg (thrs s t) = Some (hd (zs @ [t]))"
    using assms(1) by (auto simp: ring_def firstp_def split: list.splits)
  have nt: "t \<notin> set zs" using assms(1) by (auto simp: ring_def)
  have one: "zs = [] \<Longrightarrow> thrs (ring_cut t s) a = thrs s a" for a using p by (simp add: ring_cut_def Let_def)
  have more: "zs \<noteq> [] \<Longrightarrow> t \<noteq> last zs \<and> t \<noteq> hd zs \<and> last zs \<in> set zs \<and> hd zs \<in> set zs" using nt by auto
  note cut = ring_cut_thrs [of s t "last zs" "hd zs"]
  have tf: "t_nextthg (thrs (ring_cut t s) t) = Some (hd (zs @ [t]))" "t_prevthg (thrs (ring_cut t s) t) = Some (last (t # zs))"
    using p more cut(1,2) [of t] one by (cases "zs = []"; simp)+
  show "ring (\<lambda>a. t_nextthg (thrs (groupring_unlink t s) a)) (\<lambda>a. t_prevthg (thrs (groupring_unlink t s) a)) zs" if z: "zs \<noteq> []"
    using z nt p more cut by (intro ring_unlink [OF assms(1) z]) (auto simp: groupring_unlink_def)
  show "g_thread (grps (groupring_unlink t s) g) =
       (if g_thread (grps s g) = Some t then firstp zs None else g_thread (grps s g))"
    "thrtail (grps (groupring_unlink t s) g) = (if thrtail (grps s g) = Some t then lastp zs None else thrtail (grps s g))"
    using tf nt assms(2) by (cases zs; auto simp: groupring_unlink_def group_drop_fields lastp_def)+
  show "a \<notin> set (t # zs) \<Longrightarrow> thrs (groupring_unlink t s) a = thrs s a"
    using p more cut(3) [of a] one [of a]
    by (cases "zs = []"; cases "a = last zs"; cases "a = hd zs") (auto simp: groupring_unlink_def)
qed

lemma gring_unlink:
  assumes "gring s g xs" "t \<in> set xs" "t_thgrp (thrs s t) = g"
  shows "gring (groupring_unlink t s) g (remove1 t xs)"
proof -
  obtain ys zs where z: "xs = ys @ t # zs" "t \<notin> set ys" using assms(2) by (meson split_list_first)
  have r: "ring (\<lambda>a. t_nextthg (thrs s a)) (\<lambda>a. t_prevthg (thrs s a)) (ys @ t # zs)" "thrtail (grps s g) = Some (last xs)"
    "g_thread (grps s g) \<in> Some ` set xs" "t \<notin> set zs"
    using assms(1) z by (auto simp: gring_def ring_def)
  have r': "ring (\<lambda>a. t_nextthg (thrs s a)) (\<lambda>a. t_prevthg (thrs s a)) (t # (zs @ ys))"
    using ring_rotate_to [OF r(1)] by simp
  note f = groupring_unlink_fields [OF r' assms(3)]
  have rm: "remove1 t xs = ys @ zs" using z by (simp add: remove1_append)
  show ?thesis
  proof (cases "ys @ zs = []")
    case True
    then show ?thesis using f(2,3) r z rm by (auto simp: gring_def)
  next
    case False
    then have "ring (\<lambda>a. t_nextthg (thrs (groupring_unlink t s) a)) (\<lambda>a. t_prevthg (thrs (groupring_unlink t s) a)) (ys @ zs)"
      using ring_rotate_to [OF f(1)] by auto
    moreover have "thrtail (grps (groupring_unlink t s) g) = Some (last (ys @ zs))"
      using f(3) r(2,4) z False by (auto simp: lastp_def last_append)
    moreover have "g_thread (grps (groupring_unlink t s) g) \<in> Some ` set (ys @ zs)"
    proof (cases "g_thread (grps s g) = Some t")
      case True
      then show ?thesis using f(2) False by (cases zs; cases ys) auto
    next
      case False
      then show ?thesis using f(2) r(3) z(1) by auto
    qed
    ultimately show ?thesis using False rm by (simp add: gring_def)
  qed
qed

text \<open>Other groups are not affected.\<close>

lemma groupring_grps_other:
  "h \<noteq> t_thgrp (thrs s t) \<Longrightarrow> grps (groupring_unlink t s) h = grps s h"
  "h \<noteq> t_thgrp (thrs s t) \<Longrightarrow> grps (groupring_append t s) h = grps s h"
  by (simp_all add: groupring_unlink_def groupring_append_def Let_def upd_defs split: option.splits)

lemma groupring_append_other:
  assumes "gring s g xs" "t_thgrp (thrs s t) = g" "a \<notin> set xs" "a \<noteq> t" "t \<notin> set xs"
  shows "thrs (groupring_append t s) a = thrs s a"
proof (cases "xs = []")
  case True
  then show ?thesis using assms by (simp add: gring_def groupring_append_def Let_def upd_defs)
next
  case False
  then have r: "ring (\<lambda>a. t_nextthg (thrs s a)) (\<lambda>a. t_prevthg (thrs s a)) xs" "thrtail (grps s g) = Some (last xs)"
    "g_thread (grps s g) \<noteq> None" using assms(1) by (auto simp: gring_def)
  have l: "t_nextthg (thrs s (last xs)) = Some (hd xs)" "last xs \<in> set xs" "hd xs \<in> set xs"
    using ring_next_last [OF r(1)] False by auto
  then have ne: "t \<noteq> hd xs" "t \<noteq> last xs" "a \<noteq> last xs" "a \<noteq> hd xs" using assms(3,5) by metis+
  have "thrs (ring_splice (last xs) t s) a = thrs s a"
    by (rule ring_splice_thrs(3) [OF l(1) ne(1,2) assms(4) ne(3,4)])
  moreover have "thrs (groupring_append t s) = thrs (ring_splice (last xs) t s)"
    using assms(2) r(2,3) by (auto simp: groupring_append_def Let_def)
  ultimately show ?thesis by simp
qed

lemma gring_frame:
  "gring s h ys \<Longrightarrow> grps s' h = grps s h \<Longrightarrow>
     (\<And>a. a \<in> set ys \<Longrightarrow> t_nextthg (thrs s' a) = t_nextthg (thrs s a) \<and> t_prevthg (thrs s' a) = t_prevthg (thrs s a)) \<Longrightarrow> gring s' h ys"
  by (auto simp: gring_def split: if_splits intro: ring_cong)

section \<open>Chain and rings together\<close>

text \<open>What the link operations leave of a thread.\<close>

definition payload :: "thread \<Rightarrow> addr \<times> addr \<times> addr \<times> ptr \<times> ptr \<times> int \<times> ptr \<times> ptr" where
  "payload r = (t_thgrp r, t_wchan r, t_whost r, thvertices r, lastthvertex r, jobs r, nextfeed r, t_proc r)"

lemma payload_fields:
  "payload r = payload r' \<Longrightarrow> t_thgrp r = t_thgrp r' \<and> t_wchan r = t_wchan r' \<and> t_whost r = t_whost r' \<and>
     thvertices r = thvertices r' \<and> lastthvertex r = lastthvertex r' \<and> jobs r = jobs r' \<and> nextfeed r = nextfeed r' \<and> t_proc r = t_proc r'"
  by (simp add: payload_def)

lemma payload_upd_thr:
  "(\<And>r. payload (f r) = payload r) \<Longrightarrow> payload (thrs (upd_thr t f s) a) = payload (thrs s a)"
  by simp

lemma payload_links [simp]:
  "payload (r\<lparr>nexttr := x\<rparr>) = payload r" "payload (r\<lparr>prevtr := x\<rparr>) = payload r"
  "payload (r\<lparr>t_nextthg := x\<rparr>) = payload r" "payload (r\<lparr>t_prevthg := x\<rparr>) = payload r"
  by (simp_all add: payload_def)

lemma payload_chain [simp]:
  "payload (thrs (timechain_unlink t s) a) = payload (thrs s a)" "payload (thrs (timechain_append t s) a) = payload (thrs s a)"
  by (simp_all add: timechain_unlink_def timechain_append_def Let_def upd_thr_p_def split: option.splits)

lemma payload_cut [simp]: "payload (thrs (ring_cut t s) a) = payload (thrs s a)" "payload (thrs (ring_splice u t s) a) = payload (thrs s a)"
  by (simp_all add: ring_cut_def ring_splice_def Let_def)

lemma payload_ring [simp]:
  "payload (thrs (groupring_unlink t s) a) = payload (thrs s a)" "payload (thrs (groupring_append t s) a) = payload (thrs s a)"
  by (auto simp: groupring_unlink_def groupring_append_def Let_def split: option.splits)

lemma link_payload [simp]:
  "payload (thrs (thread_timechain_append t s) a) = payload (thrs s a)"
  "payload (thrs (thread_timechain_unlink t s) a) = payload (thrs s a)"
  by (simp_all add: thread_timechain_append_def thread_timechain_unlink_def)

lemmas link_fields [simp] = link_payload [THEN payload_fields, THEN conjunct1]
lemmas link_all_fields = link_payload [THEN payload_fields]

lemma link_others [simp]:
  "vtxs (thread_timechain_append t s) = vtxs s" "vtxs (thread_timechain_unlink t s) = vtxs s"
  "thr_live (thread_timechain_append t s) = thr_live s" "thr_live (thread_timechain_unlink t s) = thr_live s"
  "grp_live (thread_timechain_append t s) = grp_live s" "grp_live (thread_timechain_unlink t s) = grp_live s"
  "brk (thread_timechain_append t s) = brk s" "brk (thread_timechain_unlink t s) = brk s"
  "thrg_root (thread_timechain_append t s) = thrg_root s" "thrg_root (thread_timechain_unlink t s) = thrg_root s"
  by (simp_all add: thread_timechain_append_def thread_timechain_unlink_def timechain_append_def timechain_unlink_def
      groupring_append_def groupring_unlink_def upd_thr_p_def Let_def split: option.splits)

text \<open>What they leave of a group.\<close>

lemma link_groups [simp]:
  "g_nextthg (grps (thread_timechain_append t s) g) = g_nextthg (grps s g)" "g_prevthg (grps (thread_timechain_append t s) g) = g_prevthg (grps s g)"
  "g_wchan (grps (thread_timechain_append t s) g) = g_wchan (grps s g)" "g_whost (grps (thread_timechain_append t s) g) = g_whost (grps s g)"
  "withhost (grps (thread_timechain_append t s) g) = withhost (grps s g)" "cep (grps (thread_timechain_append t s) g) = cep (grps s g)"
  "g_nextthg (grps (thread_timechain_unlink t s) g) = g_nextthg (grps s g)" "g_prevthg (grps (thread_timechain_unlink t s) g) = g_prevthg (grps s g)"
  "g_wchan (grps (thread_timechain_unlink t s) g) = g_wchan (grps s g)" "g_whost (grps (thread_timechain_unlink t s) g) = g_whost (grps s g)"
  "withhost (grps (thread_timechain_unlink t s) g) = withhost (grps s g)" "cep (grps (thread_timechain_unlink t s) g) = cep (grps s g)"
  by (simp_all add: thread_timechain_append_def thread_timechain_unlink_def groupring_append_def groupring_unlink_def group_drop_def Let_def
      split: option.splits)

lemma link_threads:
  "t_thgrp (thrs s t) = g \<Longrightarrow> threads (grps (thread_timechain_append t s) g) = threads (grps s g) + 1"
  "t_thgrp (thrs s t) = g \<Longrightarrow> threads (grps (thread_timechain_unlink t s) g) = threads (grps s g) - 1"
  "t_thgrp (thrs s t) \<noteq> g \<Longrightarrow> grps (thread_timechain_append t s) g = grps s g"
  "t_thgrp (thrs s t) \<noteq> g \<Longrightarrow> grps (thread_timechain_unlink t s) g = grps s g"
  by (simp_all add: thread_timechain_append_def thread_timechain_unlink_def groupring_append_def groupring_unlink_def group_drop_fields Let_def
      split: option.splits)

definition linked :: "addr set \<Rightarrow> sched \<Rightarrow> bool" where
  "linked L s \<longleftrightarrow> (\<exists>xs. tchain s xs \<and> set xs = L) \<and> (\<forall>t\<in>L. t_thgrp (thrs s t) \<in> grp_live s) \<and>
     (\<forall>g\<in>grp_live s. \<exists>ys. gring s g ys \<and> set ys = {t \<in> L. t_thgrp (thrs s t) = g} \<and> threads (grps s g) = int (length ys))"

lemma linkedD:
  assumes "linked L s"
  shows "\<exists>xs. tchain s xs \<and> set xs = L" "t \<in> L \<Longrightarrow> t_thgrp (thrs s t) \<in> grp_live s"
    "g \<in> grp_live s \<Longrightarrow> \<exists>ys. gring s g ys \<and> set ys = {t \<in> L. t_thgrp (thrs s t) = g} \<and> threads (grps s g) = int (length ys)"
  using assms unfolding linked_def by blast+

lemma linked_append:
  assumes "linked L s" "t \<notin> L" "t_thgrp (thrs s t) \<in> grp_live s"
  shows "linked (insert t L) (thread_timechain_append t s)"
proof -
  let ?s = "thread_timechain_append t s" and ?g = "t_thgrp (thrs s t)"
  obtain xs where x: "tchain s xs" "set xs = L" using linkedD(1) [OF assms(1)] by blast
  have "tchain ?s (xs @ [t])" using agenda.members_add x assms(2) by blast
  moreover have "\<exists>zs. gring ?s g zs \<and> set zs = {u \<in> insert t L. t_thgrp (thrs ?s u) = g} \<and> threads (grps ?s g) = int (length zs)"
    if gl: "g \<in> grp_live s" for g
  proof -
    obtain ys where y: "gring s g ys" "set ys = {u \<in> L. t_thgrp (thrs s u) = g}" "threads (grps s g) = int (length ys)"
      using linkedD(3) [OF assms(1) gl] by blast
    show ?thesis
    proof (cases "?g = g")
      case True
      have "gring ?s g (ys @ [t])"
        unfolding thread_timechain_append_def using y(1,2) assms(2) True by (intro gring_append) auto
      then show ?thesis
        using y assms(2) True by (intro exI [of _ "ys @ [t]"]) (auto simp: link_threads)
    next
      case False
      obtain zs where z: "gring s ?g zs" "set zs = {u \<in> L. t_thgrp (thrs s u) = ?g}" using linkedD(3) [OF assms(1)] assms(3) by blast
      have e: "thrs ?s a = thrs (timechain_append t s) a" if "a \<in> set ys" for a
        unfolding thread_timechain_append_def using that y(2) z assms(2) False
        by (intro groupring_append_other [of _ ?g zs]) auto
      have "gring ?s g ys"
        using y(1) by (rule gring_frame) (use False e link_threads(3) [of s t g] in auto)
      then show ?thesis using y False by (intro exI [of _ ys]) (auto simp: link_threads)
    qed
  qed
  ultimately show ?thesis
    using x assms unfolding linked_def by (auto intro!: exI [of _ "xs @ [t]"])
qed

lemma linked_unlink:
  assumes "linked L s" "t \<in> L"
  shows "linked (L - {t}) (thread_timechain_unlink t s)"
proof -
  let ?s = "thread_timechain_unlink t s" and ?g = "t_thgrp (thrs s t)"
  obtain xs where x: "tchain s xs" "set xs = L" "distinct xs" using linkedD(1) [OF assms(1)] agenda.distinct_members by blast
  have "tchain ?s (remove1 t xs)" "set (remove1 t xs) = L - {t}"
    using agenda.members_remove [of s xs t] x assms(2) by auto
  moreover have "\<exists>zs. gring ?s g zs \<and> set zs = {u \<in> L - {t}. t_thgrp (thrs ?s u) = g} \<and> threads (grps ?s g) = int (length zs)"
    if gl: "g \<in> grp_live s" for g
  proof -
    obtain ys where y: "gring s g ys" "set ys = {u \<in> L. t_thgrp (thrs s u) = g}" "threads (grps s g) = int (length ys)"
      using linkedD(3) [OF assms(1) gl] by blast
    have dy: "distinct ys" using y(1) by (auto simp: gring_def ring_def split: if_splits)
    show ?thesis
    proof (cases "?g = g")
      case True
      then have t: "t \<in> set ys" using y(2) assms(2) by auto
      have "gring ?s g (remove1 t ys)"
        unfolding thread_timechain_unlink_def using y(1) t True by (intro gring_unlink) auto
      then show ?thesis
        using y t dy True length_pos_if_in_set [OF t]
        by (intro exI [of _ "remove1 t ys"]) (auto simp: link_threads length_remove1 Suc_leI of_nat_diff)
    next
      case False
      obtain zs where z: "gring s ?g zs" "set zs = {u \<in> L. t_thgrp (thrs s u) = ?g}" using linkedD(3) [OF assms(1)] linkedD(2) [OF assms] by blast
      then have tz: "t \<in> set zs" using assms(2) by auto
      obtain us vs where uv: "zs = us @ t # vs" using tz by (meson split_list)
      have "ring (\<lambda>a. t_nextthg (thrs (timechain_unlink t s) a)) (\<lambda>a. t_prevthg (thrs (timechain_unlink t s) a)) (t # (vs @ us))"
        using z(1) uv ring_rotate_to [of _ _ us "t # vs"] by (auto simp: gring_def)
      then have e: "thrs ?s a = thrs (timechain_unlink t s) a" if "a \<in> set ys" for a
        unfolding thread_timechain_unlink_def using that y(2) z(2) uv False
        by (intro groupring_unlink_fields(4) [of _ _ _ ?g]) auto
      have "gring ?s g ys"
        using y(1) by (rule gring_frame) (use False e link_threads(4) [of s t g] in auto)
      then show ?thesis using y False by (intro exI [of _ ys]) (auto simp: link_threads)
    qed
  qed
  ultimately show ?thesis
    using assms unfolding linked_def by (auto intro!: exI [of _ "remove1 t xs"])
qed


section \<open>The ring of thread groups\<close>

definition grpring :: "sched \<Rightarrow> addr list \<Rightarrow> bool" where
  "grpring s xs \<longleftrightarrow>
     (if xs = [] then thrg_root s = None
      else ring (\<lambda>g. g_nextthg (grps s g)) (\<lambda>g. g_prevthg (grps s g)) xs \<and> thrg_root s \<in> Some ` set xs)"

lemma upd_web_simps [simp]:
  "thrs (upd_web a k s) = thrs s" "grps (upd_web a k s) = grps s" "vtxs (upd_web a k s) = vtxs s"
  "thread_head (upd_web a k s) = thread_head s" "thread_tail (upd_web a k s) = thread_tail s" "thrg_root (upd_web a k s) = thrg_root s"
  "thr_live (upd_web a k s) = thr_live s" "grp_live (upd_web a k s) = grp_live s" "brk (upd_web a k s) = brk s"
  by (simp_all add: upd_web_def)

text \<open>The fields of a group that its place in the ring of groups does not touch.\<close>

definition gpayload :: "threadgroup \<Rightarrow> addr \<times> addr \<times> bool \<times> addr \<times> ptr \<times> ptr \<times> int \<times> int \<times> ptr" where
  "gpayload r = (g_wchan r, g_whost r, withhost r, cep r, g_thread r, thrtail r, threads r, transporters r, idleproc r)"

lemma gpayload_links [simp]: "gpayload (r\<lparr>g_nextthg := x\<rparr>) = gpayload r" "gpayload (r\<lparr>g_prevthg := x\<rparr>) = gpayload r"
  by (simp_all add: gpayload_def)

lemma gpayload_fields:
  "gpayload r = gpayload r' \<Longrightarrow> g_wchan r = g_wchan r' \<and> g_whost r = g_whost r' \<and> withhost r = withhost r' \<and> cep r = cep r' \<and>
     g_thread r = g_thread r' \<and> thrtail r = thrtail r' \<and> threads r = threads r'"
  by (simp add: gpayload_def)

lemma create_threadgroup_fields:
  "fst (create_threadgroup cfg wc wh fl fill s) = brk s" "brk (snd (create_threadgroup cfg wc wh fl fill s)) = brk s + 1"
  "grp_live (snd (create_threadgroup cfg wc wh fl fill s)) = insert (brk s) (grp_live s)"
  "thr_live (snd (create_threadgroup cfg wc wh fl fill s)) = thr_live s"
  "thrs (snd (create_threadgroup cfg wc wh fl fill s)) = thrs s" "vtxs (snd (create_threadgroup cfg wc wh fl fill s)) = vtxs s"
  "thread_head (snd (create_threadgroup cfg wc wh fl fill s)) = thread_head s"
  "thread_tail (snd (create_threadgroup cfg wc wh fl fill s)) = thread_tail s"
  "thrg_root (snd (create_threadgroup cfg wc wh fl fill s)) \<noteq> None"
  "h \<noteq> brk s \<Longrightarrow> gpayload (grps (snd (create_threadgroup cfg wc wh fl fill s)) h) = gpayload (grps s h)"
  "gpayload (grps (snd (create_threadgroup cfg wc wh fl fill s)) (brk s)) = (wc, wh, fl, cfg, None, None, 0, 0, None)"
  by (cases "thrg_root s"; simp add: create_threadgroup_def malloc_def Let_def;
      simp add: gpayload_def group_zero_def)+

lemma create_threadgroup_frame:
  assumes "create_threadgroup cfg wc wh fl fill s = (g, s')"
  shows "g = brk s" "brk s' = brk s + 1" "grp_live s' = insert (brk s) (grp_live s)" "thr_live s' = thr_live s"
    "thrs s' = thrs s" "vtxs s' = vtxs s" "thread_head s' = thread_head s" "thread_tail s' = thread_tail s" "thrg_root s' \<noteq> None"
    "h \<noteq> brk s \<Longrightarrow> gpayload (grps s' h) = gpayload (grps s h)"
    "gpayload (grps s' (brk s)) = (wc, wh, fl, cfg, None, None, 0, 0, None)"
proof -
  have g: "g = fst (create_threadgroup cfg wc wh fl fill s)" "s' = snd (create_threadgroup cfg wc wh fl fill s)" using assms by simp_all
  show "g = brk s" "brk s' = brk s + 1" "grp_live s' = insert (brk s) (grp_live s)" "thr_live s' = thr_live s"
    "thrs s' = thrs s" "vtxs s' = vtxs s" "thread_head s' = thread_head s" "thread_tail s' = thread_tail s" "thrg_root s' \<noteq> None"
    "h \<noteq> brk s \<Longrightarrow> gpayload (grps s' h) = gpayload (grps s h)"
    "gpayload (grps s' (brk s)) = (wc, wh, fl, cfg, None, None, 0, 0, None)"
    unfolding g by (simp_all only: create_threadgroup_fields not_False_eq_True)
qed

lemma create_threadgroup_ring:
  assumes "create_threadgroup cfg wc wh fl fill s = (g, s')" "grpring s xs" "brk s \<notin> set xs"
  shows "\<exists>ys. grpring s' ys \<and> set ys = insert g (set xs)"
proof (cases "thrg_root s")
  case None
  then have "grpring s' [g]" "xs = []"
    using assms by (auto simp: create_threadgroup_def malloc_def Let_def grpring_def split: if_splits)
  then show ?thesis by auto
next
  case (Some rt)
  let ?n = "\<lambda>s g. g_nextthg (grps s g)" and ?p = "\<lambda>s g. g_prevthg (grps s g)"
  from Some assms(2) have r: "ring (?n s) (?p s) xs" "rt \<in> set xs" by (auto simp: grpring_def split: if_splits)
  from r(2) obtain us vs where "xs = us @ rt # vs" by (meson split_list)
  then obtain zs where z: "ring (?n s) (?p s) (zs @ [rt])" "set (zs @ [rt]) = set xs"
    using r(1) ring_rotate_to [of "?n s" "?p s" "us @ [rt]" vs] by (intro that [of "vs @ us"]) auto
  define h where "h = hd (zs @ [rt])"
  have ht: "?n s rt = Some h" "?p s h = Some rt" "h \<in> set xs"
    using ring_next_last [OF z(1)] ring_prev_hd [OF z(1)] z(2) hd_in_set [of "zs @ [rt]"] by (auto simp: h_def)
  have ne: "brk s \<noteq> rt" "brk s \<noteq> h" using assms(3) ht(3) r(2) by auto
  have g: "g = brk s" "thrg_root s' = Some rt"
    "?n s' a = (if a = brk s then Some h else if a = rt then Some (brk s) else ?n s a)"
    "?p s' a = (if a = brk s then Some rt else if a = h then Some (brk s) else ?p s a)" for a
    using assms(1) Some ht ne by (auto simp: create_threadgroup_def malloc_def Let_def)
  have "ring (?n s') (?p s') ((zs @ [rt]) @ [g])"
    by (rule ring_insert [OF z(1)]) (use ne z(2) assms(3) in \<open>auto simp: g h_def [symmetric]\<close>)
  then have "grpring s' ((zs @ [rt]) @ [g])" using g(2) by (simp add: grpring_def)
  then show ?thesis using z(2) by (intro exI [of _ "(zs @ [rt]) @ [g]"]) auto
qed

lemma grpring_empty: "grpring s xs \<Longrightarrow> thrg_root s = None \<longleftrightarrow> xs = []"
  by (auto simp: grpring_def split: if_splits)

text \<open>The walk around a ring ends, and finds the first member with the property.\<close>

lemma ring_walk_suffix:
  assumes "ring n p (ys @ zs)" "zs \<noteq> []"
  shows "ring_walk n P (Some (hd (ys @ zs))) (Some (hd zs)) (ys = []) = Some (find P zs)"
  using assms
proof (induction zs arbitrary: ys)
  case (Cons z zs)
  have d: "z \<noteq> hd (ys @ z # zs)" if "ys \<noteq> []" using that Cons.prems(1) by (cases ys) (auto simp: ring_def)
  have step: "ring_walk n P (Some (hd (ys @ z # zs))) (Some z) (ys = []) =
      (if P z then Some (Some z) else ring_walk n P (Some (hd (ys @ z # zs))) (n z) False)"
    using d by (subst ring_walk.simps) auto
  show ?case
  proof (cases zs)
    case Nil
    then have "n z = Some (hd (ys @ z # zs))" using ring_next_last [OF Cons.prems(1)] by simp
    then show ?thesis using step Nil by (simp add: ring_walk.simps [of n P "Some (hd (ys @ [z]))" "Some (hd (ys @ [z]))"])
  next
    case (Cons z' zs')
    have "n z = Some (hd zs)" using Cons.prems(1) Cons by (auto simp: ring_def dseg_append)
    moreover have "ring_walk n P (Some (hd ((ys @ [z]) @ zs))) (Some (hd zs)) (ys @ [z] = []) = Some (find P zs)"
      using Cons.prems(1) Cons by (intro Cons.IH) auto
    ultimately show ?thesis using step by simp
  qed
qed simp

lemma ring_walk_find:
  assumes "ring n p xs" "x \<in> set xs"
  shows "\<exists>ys. set ys = set xs \<and> ring_walk n P (Some x) (Some x) True = Some (find P ys)"
proof -
  obtain us vs where "xs = us @ x # vs" using assms(2) by (meson split_list)
  then have "ring n p (x # (vs @ us))" "set (x # (vs @ us)) = set xs"
    using assms(1) ring_rotate_to [of n p us "x # vs"] by auto
  then show ?thesis
    using ring_walk_suffix [of n p "[]" "x # (vs @ us)" P] by (intro exI [of _ "x # (vs @ us)"]) simp
qed


lemma unweb_frame [simp]:
  fixes s :: sched
  shows "thrs (unweb f w s) = thrs s" "grps (unweb f w s) = grps s" "vtxs (unweb f w s) = vtxs s"
    "thread_head (unweb f w s) = thread_head s" "thread_tail (unweb f w s) = thread_tail s" "thrg_root (unweb f w s) = thrg_root s"
    "thr_live (unweb f w s) = thr_live s" "grp_live (unweb f w s) = grp_live s" "brk (unweb f w s) = brk s"
  by (simp_all add: unweb_def Let_def split: prod.splits)

text \<open>The group goes when it has neither threads nor transporters; nothing else is touched.\<close>

definition group_idle :: "sched \<Rightarrow> addr \<Rightarrow> bool" where
  "group_idle s g \<longleftrightarrow> transporters (grps s g) = 0 \<and> threads (grps s g) = 0"

lemma delete_threadgroup_busy: "\<not> group_idle s g \<Longrightarrow> delete_threadgroup g s = Some s"
  by (auto simp: delete_threadgroup_def group_idle_def)

definition group_out :: "addr \<Rightarrow> sched \<Rightarrow> sched" where
  "group_out g s = the (delete_threadgroup g s)"

lemma delete_threadgroup_idle:
  assumes "group_idle s g" "idleproc (grps s g) = None" "g_thread (grps s g) = None" "thrg_root s \<noteq> None"
  shows "delete_threadgroup g s = Some (group_out g s)"
    "grps (group_out g s) = (let m = (grps s)(the (g_prevthg (grps s g)) := grps s (the (g_prevthg (grps s g)))\<lparr>g_nextthg := g_nextthg (grps s g)\<rparr>);
        q = the (g_nextthg (grps s g)) in m(q := m q\<lparr>g_prevthg := g_prevthg (m g)\<rparr>))"
    "thrg_root (group_out g s) = (if g_nextthg (grps s g) = Some g then None else
        if thrg_root s = Some g then g_nextthg (grps s g) else thrg_root s)"
    "brk (group_out g s) = brk s" "grp_live (group_out g s) = grp_live s - {g}" "thr_live (group_out g s) = thr_live s"
    "thrs (group_out g s) = thrs s" "vtxs (group_out g s) = vtxs s"
    "thread_head (group_out g s) = thread_head s" "thread_tail (group_out g s) = thread_tail s"
proof -
  obtain rt where rt: "thrg_root s = Some rt" using assms(4) by auto
  show "delete_threadgroup g s = Some (group_out g s)"
    "grps (group_out g s) = (let m = (grps s)(the (g_prevthg (grps s g)) := grps s (the (g_prevthg (grps s g)))\<lparr>g_nextthg := g_nextthg (grps s g)\<rparr>);
        q = the (g_nextthg (grps s g)) in m(q := m q\<lparr>g_prevthg := g_prevthg (m g)\<rparr>))"
    "thrg_root (group_out g s) = (if g_nextthg (grps s g) = Some g then None else
        if thrg_root s = Some g then g_nextthg (grps s g) else thrg_root s)"
    "brk (group_out g s) = brk s" "grp_live (group_out g s) = grp_live s - {g}" "thr_live (group_out g s) = thr_live s"
    "thrs (group_out g s) = thrs s" "vtxs (group_out g s) = vtxs s"
    "thread_head (group_out g s) = thread_head s" "thread_tail (group_out g s) = thread_tail s"
    using assms(1-3) rt by (simp_all add: group_out_def delete_threadgroup_def group_idle_def Let_def)
qed

lemma delete_threadgroup_payload:
  assumes "group_idle s g" "idleproc (grps s g) = None" "g_thread (grps s g) = None" "thrg_root s \<noteq> None"
  shows "gpayload (grps (group_out g s) h) = gpayload (grps s h)"
  by (simp add: delete_threadgroup_idle(2) [OF assms] Let_def)

lemma delete_threadgroup_ring:
  assumes "grpring s xs" "g \<in> set xs" "group_idle s g" "idleproc (grps s g) = None" "g_thread (grps s g) = None"
  shows "\<exists>ys. grpring (group_out g s) ys \<and> set ys = set xs - {g}"
proof -
  let ?n = "\<lambda>s g. g_nextthg (grps s g)" and ?p = "\<lambda>s g. g_prevthg (grps s g)"
  from assms(1,2) have r: "ring (?n s) (?p s) xs" "thrg_root s \<in> Some ` set xs" by (auto simp: grpring_def split: if_splits)
  obtain us vs where "xs = us @ g # vs" using assms(2) by (meson split_list)
  then obtain zs where z: "ring (?n s) (?p s) (g # zs)" "set (g # zs) = set xs"
    using r(1) ring_rotate_to [of "?n s" "?p s" us "g # vs"] by (intro that [of "vs @ us"]) auto
  have d: "g \<notin> set zs" "set zs = set xs - {g}" using z by (auto simp: ring_def)
  have "thrg_root s \<noteq> None" using r(2) by auto
  note out = delete_threadgroup_idle(2,3) [OF assms(3-5) this]
  let ?o = "group_out g s"
  show ?thesis
  proof (cases "zs = []")
    case True
    then have "?n s g = Some g" "?p s g = Some g" using z(1) by simp_all
    then have "grpring ?o []" using out by (simp add: grpring_def)
    then show ?thesis using True d by (intro exI [of _ "[]"]) simp
  next
    case False
    have l: "?n s g = Some (hd zs)" "?p s g = Some (last zs)" using z(1) False by (cases zs; simp add: ring_def)+
    have ne: "hd zs \<noteq> g" "last zs \<noteq> g" using False d(1) hd_in_set [of zs] last_in_set [of zs] by metis+
    have f: "?n ?o a = (if a = last zs then Some (hd zs) else ?n s a)" "?p ?o a = (if a = hd zs then Some (last zs) else ?p s a)"
      "thrg_root ?o = (if thrg_root s = Some g then Some (hd zs) else thrg_root s)" for a
      using out l ne by (simp_all add: Let_def)
    have "ring (?n ?o) (?p ?o) zs" by (rule ring_unlink [OF z(1) False]) (use l f in auto)
    moreover have "thrg_root ?o \<in> Some ` set zs" using f(3) r(2) d(2) hd_in_set [OF False] by auto
    ultimately show ?thesis using False d(2) by (intro exI [of _ zs]) (simp add: grpring_def)
  qed
qed

end
