(* ===== verification/Threadqueue.thy ===== *)
theory Threadqueue
  imports Threadinv
begin

text \<open>
  The scheduler's queue as its clients see it: for every configuration entry, channel and host, the
  recipient groups (vertices) that wait for it, first in first out.  The heap structures of
  \<^verbatim>\<open>scheduler/threads.c\<close> implement this map: linking in a vertex appends it to its queue, \<open>web_detangle\<close> takes
  it out again, and moving threads around on the time chain or dropping idle groups leaves it alone.
\<close>

section \<open>The chain of vertices of a thread\<close>

definition vchain :: "sched \<Rightarrow> addr \<Rightarrow> addr list \<Rightarrow> bool" where
  "vchain s t xs \<longleftrightarrow> dlist (\<lambda>v. nextitem (vtxs s v)) (\<lambda>v. previtem (vtxs s v)) (thvertices (thrs s t)) (lastthvertex (thrs s t)) xs"

lemma vchain_linktail:
  assumes "vchain s t xs" "v \<notin> set xs"
  shows "vchain (thread_linktail t v s) t (xs @ [v])"
proof -
  have last: "lastthvertex (thrs (thread_linktail t v s) t) = Some v" by (simp add: thread_linktail_def Let_def)
  show ?thesis
  proof (cases "thvertices (thrs s t)")
    case None
    then have "xs = []" using assms(1) by (simp add: vchain_def)
    then show ?thesis using None by (simp add: vchain_def dlist_def thread_linktail_def Let_def)
  next
    case (Some h)
    then obtain l where l: "lastthvertex (thrs s t) = Some l" "l \<in> set xs"
      using assms(1) by (auto simp: vchain_def dlist_def lastp_def firstp_def split: list.splits)
    then have "l \<noteq> v" using assms(2) by auto
    then show ?thesis
      unfolding vchain_def last using Some l
      by (intro dlist_append [OF assms(1) [unfolded vchain_def] assms(2)]) (auto simp: thread_linktail_def Let_def)
  qed
qed

lemma vchain_unthread:
  "vchain s t xs \<Longrightarrow> v \<in> set xs \<Longrightarrow> vchain (unthread (Some t) v s) t (remove1 v xs)"
  unfolding vchain_def
  by (rule dlist_unlink, assumption+)
     (auto simp: unthread_def Let_def upd_defs unlink_n_def unlink_p_def split: option.splits)

interpretation waiting: fifo "\<lambda>s. vchain s t" "thread_linktail t" "unthread (Some t)" for t
proof
  show "vchain s t xs \<Longrightarrow> distinct xs" for s xs by (simp add: vchain_def dlist_def)
  show "vchain s t xs \<Longrightarrow> vchain s t ys \<Longrightarrow> xs = ys" for s xs ys unfolding vchain_def by (rule dlist_unique)
qed (rule vchain_linktail vchain_unthread; assumption)+

text \<open>What the operations leave of other vertices, of the threads and of the rest.\<close>

lemma linktail_vtxs:
  "orig_chan (vtxs (thread_linktail t v s) a) = orig_chan (vtxs s a)" "orig_host (vtxs (thread_linktail t v s) a) = orig_host (vtxs s a)"
  "v_thread (vtxs (thread_linktail t v s) a) = (if a = v then Some t else v_thread (vtxs s a))"
  "a \<noteq> v \<Longrightarrow> lastthvertex (thrs s t) \<noteq> Some a \<Longrightarrow> thvertices (thrs s t) = None \<or> lastthvertex (thrs s t) \<noteq> None \<Longrightarrow>
     vtxs (thread_linktail t v s) a = vtxs s a"
  by (auto simp: thread_linktail_def Let_def split: option.splits)

lemma linktail_frame [simp]:
  "grps (thread_linktail t v s) = grps s" "a \<noteq> t \<Longrightarrow> thrs (thread_linktail t v s) a = thrs s a"
  "thread_head (thread_linktail t v s) = thread_head s" "thread_tail (thread_linktail t v s) = thread_tail s"
  "thrg_root (thread_linktail t v s) = thrg_root s" "thr_live (thread_linktail t v s) = thr_live s"
  "grp_live (thread_linktail t v s) = grp_live s" "brk (thread_linktail t v s) = brk s"
  by (auto simp: thread_linktail_def Let_def split: option.splits)

lemma upd_vtx_p_simps [simp]:
  "thrs (upd_vtx_p p f s) = thrs s" "grps (upd_vtx_p p f s) = grps s"
  "thread_head (upd_vtx_p p f s) = thread_head s" "thread_tail (upd_vtx_p p f s) = thread_tail s"
  "thrg_root (upd_vtx_p p f s) = thrg_root s" "thr_live (upd_vtx_p p f s) = thr_live s"
  "grp_live (upd_vtx_p p f s) = grp_live s" "brk (upd_vtx_p p f s) = brk s"
  "vtxs (upd_vtx_p p f s) a = (if p = Some a then f (vtxs s a) else vtxs s a)"
  by (simp_all add: upd_vtx_p_def split: option.splits)

lemma unthread_vtxs:
  "orig_chan (vtxs (unthread p v s) a) = orig_chan (vtxs s a)" "orig_host (vtxs (unthread p v s) a) = orig_host (vtxs s a)"
  "v_thread (vtxs (unthread p v s) a) = v_thread (vtxs s a)"
  "nextitem (vtxs (unthread p v s) v) = None" "previtem (vtxs (unthread p v s) v) = None"
  "a \<noteq> v \<Longrightarrow> previtem (vtxs s v) \<noteq> Some a \<Longrightarrow> nextitem (vtxs s v) \<noteq> Some a \<Longrightarrow> previtem (vtxs s v) \<noteq> Some v \<Longrightarrow> vtxs (unthread p v s) a = vtxs s a"
  by (cases p; simp add: unthread_def Let_def)+

lemma unthread_frame [simp]:
  "grps (unthread p v s) = grps s" "p \<noteq> Some a \<Longrightarrow> thrs (unthread p v s) a = thrs s a"
  "thread_head (unthread p v s) = thread_head s" "thread_tail (unthread p v s) = thread_tail s"
  "thrg_root (unthread p v s) = thrg_root s" "thr_live (unthread p v s) = thr_live s"
  "grp_live (unthread p v s) = grp_live s" "brk (unthread p v s) = brk s"
  by (cases p; simp add: unthread_def Let_def)+

text \<open>The fields of a thread that only its vertices touch; the others are its links and its route.\<close>

definition route :: "thread \<Rightarrow> ptr \<times> ptr \<times> ptr \<times> ptr \<times> addr \<times> addr \<times> addr \<times> int" where
  "route r = (nexttr r, prevtr r, t_nextthg r, t_prevthg r, t_thgrp r, t_wchan r, t_whost r, thrkids r)"

lemma route_fields:
  "route r = route r' \<Longrightarrow> nexttr r = nexttr r' \<and> prevtr r = prevtr r' \<and> t_nextthg r = t_nextthg r' \<and> t_prevthg r = t_prevthg r' \<and>
     t_thgrp r = t_thgrp r' \<and> t_wchan r = t_wchan r' \<and> t_whost r = t_whost r' \<and> thrkids r = thrkids r'"
  by (simp add: route_def)

lemma route_upd [simp]:
  "route (r\<lparr>thvertices := x\<rparr>) = route r" "route (r\<lparr>lastthvertex := x\<rparr>) = route r" "route (r\<lparr>jobs := i\<rparr>) = route r"
  "route (r\<lparr>unfed := i\<rparr>) = route r" "route (r\<lparr>nextfeed := x\<rparr>) = route r"
  by (simp_all add: route_def)

lemma route_vertex_ops [simp]:
  "route (thrs (thread_linktail t v s) a) = route (thrs s a)" "route (thrs (unthread p v s) a) = route (thrs s a)"
  "route (thrs (linkin_existing g t v s) a) = route (thrs s a)"
proof -
  show l: "route (thrs (thread_linktail t v s) a) = route (thrs s a)" for s a
    by (simp add: thread_linktail_def Let_def split: option.splits)
  show "route (thrs (unthread p v s) a) = route (thrs s a)"
    by (cases p; simp add: unthread_def Let_def)
  show "route (thrs (linkin_existing g t v s) a) = route (thrs s a)"
    using l [of s a] by (cases "a = t") (simp_all add: linkin_existing_def Let_def)
qed


section \<open>The abstract queue and the invariant\<close>

datatype tkey = TKey (key_cfg: addr) (key_chan: addr) (key_host: addr)

text \<open>The configuration entry, the channel and the host that a thread serves.\<close>

definition thread_key :: "sched \<Rightarrow> addr \<Rightarrow> tkey" where
  "thread_key s t = TKey (cep (grps s (t_thgrp (thrs s t)))) (t_wchan (thrs s t)) (t_whost (thrs s t))"

definition vertex_key :: "addr \<Rightarrow> sched \<Rightarrow> addr \<Rightarrow> tkey" where
  "vertex_key cfg s v = TKey cfg (orig_chan (vtxs s v)) (orig_host (vtxs s v))"

definition same_route :: "threadgroup \<Rightarrow> threadgroup \<Rightarrow> bool" where
  "same_route g h \<longleftrightarrow> cep g = cep h \<and> g_wchan g = g_wchan h \<and> (withhost g \<longrightarrow> g_whost g = g_whost h)"

definition groups_ok :: "(addr \<Rightarrow> config_entry) \<Rightarrow> sched \<Rightarrow> bool" where
  "groups_ok cfgs s \<longleftrightarrow> (\<exists>xs. grpring s xs \<and> set xs = grp_live s) \<and>
     (\<forall>g\<in>grp_live s. g < brk s \<and> (withhost (grps s g) \<longleftrightarrow> cfg_flag CFG_WITHHOST (cfgs (cep (grps s g))))) \<and>
     (\<forall>g\<in>grp_live s. \<forall>h\<in>grp_live s. same_route (grps s g) (grps s h) \<longrightarrow> g = h)"

definition on_route :: "sched \<Rightarrow> addr \<Rightarrow> bool" where
  "on_route s t \<longleftrightarrow> t < brk s \<and> g_wchan (grps s (t_thgrp (thrs s t))) = t_wchan (thrs s t) \<and>
     (withhost (grps s (t_thgrp (thrs s t))) \<longrightarrow> g_whost (grps s (t_thgrp (thrs s t))) = t_whost (thrs s t))"

definition threads_ok :: "sched \<Rightarrow> bool" where
  "threads_ok s \<longleftrightarrow> linked (thr_live s) s \<and> (\<forall>t\<in>thr_live s. on_route s t) \<and> inj_on (thread_key s) (thr_live s)"

definition holds :: "sched \<Rightarrow> addr \<Rightarrow> addr list \<Rightarrow> bool" where
  "holds s t vs \<longleftrightarrow> vchain s t vs \<and> jobs (thrs s t) = int (length vs) \<and> nextfeed (thrs s t) \<in> insert None (Some ` set vs) \<and>
     (\<forall>v\<in>set vs. v_thread (vtxs s v) = Some t \<and> orig_chan (vtxs s v) = t_wchan (thrs s t) \<and> orig_host (vtxs s v) = t_whost (thrs s t))"

definition queues :: "sched \<Rightarrow> (tkey \<Rightarrow> addr list) \<Rightarrow> bool" where
  "queues s q \<longleftrightarrow> (\<forall>t\<in>thr_live s. holds s t (q (thread_key s t))) \<and> (\<forall>k. k \<notin> thread_key s ` thr_live s \<longrightarrow> q k = [])"

definition sched_ok :: "(addr \<Rightarrow> config_entry) \<Rightarrow> sched \<Rightarrow> (tkey \<Rightarrow> addr list) \<Rightarrow> bool" where
  "sched_ok cfgs s q \<longleftrightarrow> groups_ok cfgs s \<and> threads_ok s \<and> queues s q"

definition unqueued :: "(tkey \<Rightarrow> addr list) \<Rightarrow> addr \<Rightarrow> bool" where
  "unqueued q v \<longleftrightarrow> (\<forall>k. v \<notin> set (q k))"

text \<open>The queue that a state represents is unique, and a vertex waits in at most one thread.\<close>

lemma queuesD:
  assumes "queues s q"
  shows "t \<in> thr_live s \<Longrightarrow> holds s t (q (thread_key s t))" "k \<notin> thread_key s ` thr_live s \<Longrightarrow> q k = []"
    "v \<in> set (q k) \<Longrightarrow> \<exists>t\<in>thr_live s. thread_key s t = k \<and> v_thread (vtxs s v) = Some t"
  using assms unfolding queues_def holds_def by (blast, blast, metis (no_types, lifting) empty_iff image_iff list.set(1))

lemma queues_distinct: "queues s q \<Longrightarrow> distinct (q k)"
  by (cases "k \<in> thread_key s ` thr_live s") (auto simp: queues_def holds_def dest: waiting.distinct_members)

lemma queues_unique:
  assumes "queues s q" "queues s q'"
  shows "q = q'"
proof
  fix k
  show "q k = q' k"
  proof (cases "k \<in> thread_key s ` thr_live s")
    case True
    then obtain t where t: "t \<in> thr_live s" "k = thread_key s t" by blast
    then have "vchain s t (q k)" "vchain s t (q' k)" using assms by (auto simp: queues_def holds_def)
    then show ?thesis by (rule waiting.unique_members)
  next
    case False
    then show ?thesis using assms queuesD(2) by metis
  qed
qed

section \<open>Frames\<close>

lemma linked_frame:
  assumes "linked L s"
    and "\<And>a. a \<in> L \<Longrightarrow> nexttr (thrs s' a) = nexttr (thrs s a) \<and> prevtr (thrs s' a) = prevtr (thrs s a) \<and>
          t_nextthg (thrs s' a) = t_nextthg (thrs s a) \<and> t_prevthg (thrs s' a) = t_prevthg (thrs s a) \<and> t_thgrp (thrs s' a) = t_thgrp (thrs s a)"
    and "thread_head s' = thread_head s" "thread_tail s' = thread_tail s"
    and "\<And>t. t \<in> L \<Longrightarrow> t_thgrp (thrs s t) \<in> grp_live s'"
    and "\<And>g. g \<in> grp_live s' \<Longrightarrow> g \<in> grp_live s \<and> g_thread (grps s' g) = g_thread (grps s g) \<and> thrtail (grps s' g) = thrtail (grps s g) \<and> threads (grps s' g) = threads (grps s g) \<or>
          g \<notin> grp_live s \<and> g_thread (grps s' g) = None \<and> thrtail (grps s' g) = None \<and> threads (grps s' g) = 0"
  shows "linked L s'"
proof -
  obtain xs where x: "tchain s xs" "set xs = L" using linkedD(1) [OF assms(1)] by blast
  then have c: "tchain s' xs"
    unfolding tchain_def assms(3,4) by (elim dlist_cong) (use x(2) assms(2) in auto)
  have "\<exists>ys. gring s' g ys \<and> set ys = {t \<in> L. t_thgrp (thrs s' t) = g} \<and> threads (grps s' g) = int (length ys)"
    if g: "g \<in> grp_live s'" for g
    using assms(6) [OF g]
  proof (elim disjE)
    assume e: "g \<in> grp_live s \<and> g_thread (grps s' g) = g_thread (grps s g) \<and> thrtail (grps s' g) = thrtail (grps s g) \<and> threads (grps s' g) = threads (grps s g)"
    then obtain ys where y: "gring s g ys" "set ys = {t \<in> L. t_thgrp (thrs s t) = g}" "threads (grps s g) = int (length ys)"
      using linkedD(3) [OF assms(1)] by blast
    have "gring s' g ys"
      using y(1) e assms(2) y(2) by (auto simp: gring_def split: if_splits intro: ring_cong)
    then show ?thesis using y e assms(2) by (intro exI [of _ ys]) auto
  next
    assume e: "g \<notin> grp_live s \<and> g_thread (grps s' g) = None \<and> thrtail (grps s' g) = None \<and> threads (grps s' g) = 0"
    then have "{t \<in> L. t_thgrp (thrs s' t) = g} = {}" using linkedD(2) [OF assms(1)] assms(2) by auto
    then show ?thesis using e by (intro exI [of _ "[]"]) (simp add: gring_def)
  qed
  then show ?thesis unfolding linked_def using c x(2) assms(2,5) by auto
qed

text \<open>The invariant does not see changes outside the fields it reads.\<close>

lemma holds_frame:
  assumes "holds s t vs"
    and "\<And>v. v \<in> set vs \<Longrightarrow> vtxs s' v = vtxs s v" and "payload (thrs s' t) = payload (thrs s t)"
  shows "holds s' t vs"
proof -
  note f = payload_fields [OF assms(3)]
  have "vchain s' t vs" using assms(1) f assms(2) by (auto simp: holds_def vchain_def intro: dlist_cong)
  then show ?thesis using assms f by (simp add: holds_def)
qed

lemma on_route_frame:
  "on_route s t \<Longrightarrow> brk s \<le> brk s' \<Longrightarrow> t_thgrp (thrs s' t) = t_thgrp (thrs s t) \<Longrightarrow> t_wchan (thrs s' t) = t_wchan (thrs s t) \<Longrightarrow> t_whost (thrs s' t) = t_whost (thrs s t) \<Longrightarrow>
     gpayload (grps s' (t_thgrp (thrs s t))) = gpayload (grps s (t_thgrp (thrs s t))) \<Longrightarrow> on_route s' t"
  by (auto simp: on_route_def gpayload_def)

lemma thread_key_frame:
  "t_thgrp (thrs s' t) = t_thgrp (thrs s t) \<Longrightarrow> t_wchan (thrs s' t) = t_wchan (thrs s t) \<Longrightarrow> t_whost (thrs s' t) = t_whost (thrs s t) \<Longrightarrow>
     cep (grps s' (t_thgrp (thrs s t))) = cep (grps s (t_thgrp (thrs s t))) \<Longrightarrow> thread_key s' t = thread_key s t"
  by (simp add: thread_key_def)

lemma same_route_payload: "gpayload g' = gpayload g \<Longrightarrow> gpayload h' = gpayload h \<Longrightarrow> same_route g' h' = same_route g h"
  by (auto simp: same_route_def gpayload_def)


section \<open>A new thread group\<close>

lemma groups_okD:
  assumes "groups_ok cfgs s"
  shows "\<exists>xs. grpring s xs \<and> set xs = grp_live s" "g \<in> grp_live s \<Longrightarrow> g < brk s"
    "g \<in> grp_live s \<Longrightarrow> withhost (grps s g) \<longleftrightarrow> cfg_flag CFG_WITHHOST (cfgs (cep (grps s g)))"
    "g \<in> grp_live s \<Longrightarrow> h \<in> grp_live s \<Longrightarrow> same_route (grps s g) (grps s h) \<Longrightarrow> g = h"
  using assms unfolding groups_ok_def by blast+

lemma threads_okD:
  assumes "threads_ok s"
  shows "linked (thr_live s) s" "t \<in> thr_live s \<Longrightarrow> on_route s t" "inj_on (thread_key s) (thr_live s)"
    "t \<in> thr_live s \<Longrightarrow> t_thgrp (thrs s t) \<in> grp_live s"
  using assms linkedD(2) unfolding threads_ok_def by blast+

lemma sched_okD:
  assumes "sched_ok cfgs s q"
  shows "groups_ok cfgs s" "threads_ok s" "queues s q"
  using assms unfolding sched_ok_def by blast+

lemma groups_ok_create:
  assumes "groups_ok cfgs s" "create_threadgroup cfg wc wh (cfg_flag CFG_WITHHOST (cfgs cfg)) fill s = (g, s')"
    and "\<And>h. h \<in> grp_live s \<Longrightarrow> \<not> linkin_group cfg wc wh s h"
  shows "groups_ok cfgs s'"
proof -
  note f = create_threadgroup_frame [OF assms(2)]
  note o = groups_okD [OF assms(1)]
  obtain xs where "grpring s xs" "set xs = grp_live s" using o(1) by blast
  then have 1: "\<exists>ys. grpring s' ys \<and> set ys = grp_live s'"
    using create_threadgroup_ring [OF assms(2), of xs] o(2) f(1,3) by force
  have old: "h \<noteq> brk s" "gpayload (grps s' h) = gpayload (grps s h)" if "h \<in> grp_live s" for h
    using o(2) [OF that] f(10) by auto
  have new: "cep (grps s' (brk s)) = cfg" "g_wchan (grps s' (brk s)) = wc" "g_whost (grps s' (brk s)) = wh"
    "withhost (grps s' (brk s)) \<longleftrightarrow> cfg_flag CFG_WITHHOST (cfgs cfg)"
    using f(11) by (auto simp: gpayload_def)
  have 2: "h < brk s' \<and> (withhost (grps s' h) \<longleftrightarrow> cfg_flag CFG_WITHHOST (cfgs (cep (grps s' h))))" if "h \<in> grp_live s'" for h
  proof (cases "h = brk s")
    case False
    then have h: "h \<in> grp_live s" using that f(3) by simp
    then show ?thesis using o(2,3) [OF h] old(2) [OF h] f(2) by (simp add: gpayload_def)
  qed (use new f(2) in simp)
  have no: "\<not> same_route (grps s' h) (grps s' (brk s)) \<and> \<not> same_route (grps s' (brk s)) (grps s' h)" if h: "h \<in> grp_live s" for h
    using assms(3) [OF h] new o(3) [OF h] gpayload_fields [OF old(2) [OF h]] by (auto simp: same_route_def linkin_group_def)
  have 3: "a = b" if "a \<in> grp_live s'" "b \<in> grp_live s'" "same_route (grps s' a) (grps s' b)" for a b
  proof (cases "a \<in> grp_live s \<and> b \<in> grp_live s")
    case True
    then show ?thesis using o(4) [of a b] that(3) same_route_payload [OF old(2) old(2), of a b] by blast
  next
    case False
    then show ?thesis using that no f(3) by auto
  qed
  show ?thesis unfolding groups_ok_def using 1 2 3 by blast
qed

lemma sched_ok_create:
  assumes "sched_ok cfgs s q" "create_threadgroup cfg wc wh (cfg_flag CFG_WITHHOST (cfgs cfg)) fill s = (g, s')"
    and "\<And>h. h \<in> grp_live s \<Longrightarrow> \<not> linkin_group cfg wc wh s h"
  shows "sched_ok cfgs s' q" "linkin_group cfg wc wh s' g" "g \<in> grp_live s'" "vtxs s' = vtxs s" "thr_live s' = thr_live s" "thrs s' = thrs s"
    "grp_live s' = insert g (grp_live s)" "g \<notin> grp_live s"
proof -
  note f = create_threadgroup_frame [OF assms(2)]
  note o = sched_okD [OF assms(1)]
  note t = threads_okD [OF o(2)]
  have live: "t_thgrp (thrs s t) \<noteq> brk s" if "t \<in> thr_live s" for t
    using t(4) [OF that] groups_okD(2) [OF o(1)] by force
  have fresh: "brk s \<notin> grp_live s" using groups_okD(2) [OF o(1)] by blast
  have old: "g_thread (grps s' h) = g_thread (grps s h) \<and> thrtail (grps s' h) = thrtail (grps s h) \<and> threads (grps s' h) = threads (grps s h)"
    if "h \<noteq> brk s" for h using gpayload_fields [OF f(10) [OF that]] by simp
  have new: "g_thread (grps s' (brk s)) = None \<and> thrtail (grps s' (brk s)) = None \<and> threads (grps s' (brk s)) = 0"
    using f(11) by (simp add: gpayload_def)
  have "linked (thr_live s) s'"
  proof (rule linked_frame [OF t(1)])
    show "h \<in> grp_live s \<and> g_thread (grps s' h) = g_thread (grps s h) \<and> thrtail (grps s' h) = thrtail (grps s h) \<and> threads (grps s' h) = threads (grps s h) \<or>
        h \<notin> grp_live s \<and> g_thread (grps s' h) = None \<and> thrtail (grps s' h) = None \<and> threads (grps s' h) = 0" if "h \<in> grp_live s'" for h
      using that f(3) old [of h] new fresh by (cases "h = brk s") simp_all
  qed (use f(3,5,7,8) t(4) in simp_all)
  moreover have "on_route s' t" if h: "t \<in> thr_live s" for t
    using t(2) [OF h] by (rule on_route_frame) (use f live [OF h] in auto)
  moreover have k: "thread_key s' t = thread_key s t" if h: "t \<in> thr_live s" for t
    by (rule thread_key_frame) (use f gpayload_fields [OF f(10) [OF live [OF h]]] in auto)
  ultimately have "threads_ok s'"
    unfolding threads_ok_def using f(4) t(3) inj_on_cong [of "thr_live s" "thread_key s'" "thread_key s"] by simp
  moreover have "holds s' t (q (thread_key s' t))" if h: "t \<in> thr_live s" for t
    unfolding k [OF h] using queuesD(1) [OF o(3) h] by (rule holds_frame) (simp_all add: f)
  then have "queues s' q" using o(3) f(4) k unfolding queues_def by (simp cong: image_cong)
  ultimately show "sched_ok cfgs s' q" using groups_ok_create [OF o(1) assms(2,3)] by (simp add: sched_ok_def)
  show "linkin_group cfg wc wh s' g" using f(1,11) by (simp add: linkin_group_def gpayload_def)
  show "g \<in> grp_live s'" "vtxs s' = vtxs s" "thr_live s' = thr_live s" "thrs s' = thrs s" "grp_live s' = insert g (grp_live s)" "g \<notin> grp_live s"
    using f groups_okD(2) [OF o(1)] by auto
qed


section \<open>Operations on the vertices of one thread\<close>

definition same_frame :: "sched \<Rightarrow> sched \<Rightarrow> bool" where
  "same_frame s s' \<longleftrightarrow> grps s' = grps s \<and> (\<forall>a. route (thrs s' a) = route (thrs s a)) \<and> thread_head s' = thread_head s \<and>
     thread_tail s' = thread_tail s \<and> thrg_root s' = thrg_root s \<and> thr_live s' = thr_live s \<and> grp_live s' = grp_live s \<and> brk s' = brk s"

lemma same_frame_route:
  "same_frame s s' \<Longrightarrow> nexttr (thrs s' a) = nexttr (thrs s a) \<and> prevtr (thrs s' a) = prevtr (thrs s a) \<and>
     t_nextthg (thrs s' a) = t_nextthg (thrs s a) \<and> t_prevthg (thrs s' a) = t_prevthg (thrs s a) \<and> t_thgrp (thrs s' a) = t_thgrp (thrs s a) \<and>
     t_wchan (thrs s' a) = t_wchan (thrs s a) \<and> t_whost (thrs s' a) = t_whost (thrs s a)"
  using route_fields [of "thrs s' a" "thrs s a"] by (simp add: same_frame_def)

lemma same_frame_key: "same_frame s s' \<Longrightarrow> thread_key s' = thread_key s"
  by (rule ext, frule_tac a = x in same_frame_route) (simp add: same_frame_def thread_key_def)

lemma same_frame_grpring: "same_frame s s' \<Longrightarrow> grpring s' = grpring s"
  by (rule ext) (simp add: same_frame_def grpring_def)

lemma groups_ok_frame: "same_frame s s' \<Longrightarrow> groups_ok cfgs s \<Longrightarrow> groups_ok cfgs s'"
  using same_frame_grpring [of s s'] by (simp add: same_frame_def groups_ok_def)

lemma threads_ok_frame:
  assumes "same_frame s s'" "threads_ok s"
  shows "threads_ok s'"
proof -
  note t = threads_okD [OF assms(2)] and r = same_frame_route [OF assms(1)]
  have g: "grps s' = grps s" "thr_live s' = thr_live s" "grp_live s' = grp_live s" "brk s' = brk s" "thread_head s' = thread_head s" "thread_tail s' = thread_tail s"
    using assms(1) by (simp_all add: same_frame_def)
  have "linked (thr_live s) s'" by (rule linked_frame [OF t(1)]) (use r g t(4) in simp_all)
  moreover have "on_route s' u" if "u \<in> thr_live s" for u
    using t(2) [OF that] by (rule on_route_frame) (use r [of u] g in simp_all)
  ultimately show ?thesis using t(3) same_frame_key [OF assms(1)] g by (simp add: threads_ok_def)
qed

text \<open>An operation on the vertices of thread \<open>t\<close> has to say only what it does there.\<close>

lemma sched_ok_vertices:
  assumes "sched_ok cfgs s q" "same_frame s s'" "t \<in> thr_live s" "holds s' t vs"
    and "\<And>u. u \<noteq> t \<Longrightarrow> thrs s' u = thrs s u"
    and "\<And>v k. v \<in> set (q k) \<Longrightarrow> v_thread (vtxs s v) \<noteq> Some t \<Longrightarrow> vtxs s' v = vtxs s v"
  shows "sched_ok cfgs s' (q(thread_key s t := vs))"
proof -
  note o = sched_okD [OF assms(1)]
  note k = same_frame_key [OF assms(2)]
  have live: "thr_live s' = thr_live s" using assms(2) by (simp add: same_frame_def)
  have "holds s' u ((q(thread_key s t := vs)) (thread_key s u))" if u: "u \<in> thr_live s" for u
  proof (cases "u = t")
    case False
    then have ne: "thread_key s u \<noteq> thread_key s t" using threads_okD(3) [OF o(2)] u assms(3) by (auto dest: inj_onD)
    have h: "holds s u (q (thread_key s u))" by (rule queuesD(1) [OF o(3) u])
    have "holds s' u (q (thread_key s u))"
      using h by (rule holds_frame) (use h False assms(5,6) in \<open>auto simp: holds_def\<close>)
    then show ?thesis using ne by simp
  qed (use assms(4) in simp)
  moreover have "(q(thread_key s t := vs)) k = []" if "k \<notin> thread_key s ` thr_live s" for k
    using that assms(3) queuesD(2) [OF o(3)] by auto
  ultimately have "queues s' (q(thread_key s t := vs))" unfolding queues_def k live by blast
  then show ?thesis using groups_ok_frame [OF assms(2) o(1)] threads_ok_frame [OF assms(2) o(2)] by (simp add: sched_ok_def)
qed

lemma vchain_thr_upd:
  "thvertices r = thvertices (thrs s t) \<Longrightarrow> lastthvertex r = lastthvertex (thrs s t) \<Longrightarrow> thrs s' t = r \<Longrightarrow>
     (\<And>v. nextitem (vtxs s' v) = nextitem (vtxs s v) \<and> previtem (vtxs s' v) = previtem (vtxs s v)) \<Longrightarrow> vchain s' t xs = vchain s t xs"
  by (simp add: vchain_def)

lemma linkin_existing_frame:
  "same_frame s (linkin_existing g t v s)" "u \<noteq> t \<Longrightarrow> thrs (linkin_existing g t v s) u = thrs s u"
proof -
  have "route (thrs (linkin_existing g t v s) a) = route (thrs s a)" for a by simp
  then show "same_frame s (linkin_existing g t v s)"
    unfolding same_frame_def by (simp add: linkin_existing_def Let_def)
  show "u \<noteq> t \<Longrightarrow> thrs (linkin_existing g t v s) u = thrs s u" by (simp add: linkin_existing_def Let_def)
qed

lemma linkin_existing_fields:
  "jobs (thrs (linkin_existing g t v s) t) = jobs (thrs s t) + 1"
  "thvertices (thrs (linkin_existing g t v s) t) = thvertices (thrs (thread_linktail t v s) t)"
  "lastthvertex (thrs (linkin_existing g t v s) t) = lastthvertex (thrs (thread_linktail t v s) t)"
  "nextfeed (thrs (linkin_existing g t v s) t) \<in> {nextfeed (thrs s t), Some v}"
  "t_wchan (thrs (linkin_existing g t v s) t) = t_wchan (thrs s t)" "t_whost (thrs (linkin_existing g t v s) t) = t_whost (thrs s t)"
  "vtxs (linkin_existing g t v s) a = (if a = v then (vtxs (thread_linktail t v s) v)\<lparr>v_thgrp := Some g\<rparr> else vtxs (thread_linktail t v s) a)"
  by (simp_all add: linkin_existing_def thread_linktail_def Let_def split: option.splits)

lemma holds_linkin_existing:
  assumes "holds s t vs" "v \<notin> set vs" "orig_chan (vtxs s v) = t_wchan (thrs s t)" "orig_host (vtxs s v) = t_whost (thrs s t)"
  shows "holds (linkin_existing g t v s) t (vs @ [v])"
proof -
  have "vchain (thread_linktail t v s) t (vs @ [v])" using assms(1,2) by (intro waiting.members_add) (auto simp: holds_def)
  then have "vchain (linkin_existing g t v s) t (vs @ [v])"
    by (subst vchain_thr_upd [OF _ _ refl, where s = "thread_linktail t v s"]) (simp_all add: linkin_existing_fields)
  then show ?thesis
    using assms linkin_existing_fields(4) [of g t v s] by (auto simp: holds_def linkin_existing_fields(1,5-7) linktail_vtxs(1-3))
qed

lemma linkin_existing_others:
  assumes "holds s t vs" "a \<notin> set vs" "a \<noteq> v"
  shows "vtxs (linkin_existing g t v s) a = vtxs s a"
proof -
  have "vchain s t vs" using assms(1) by (simp add: holds_def)
  then have l: "lastthvertex (thrs s t) \<in> insert None (Some ` set vs)" "thvertices (thrs s t) = None \<or> lastthvertex (thrs s t) \<noteq> None"
    by (auto simp: vchain_def dlist_def lastp_def firstp_def split: list.splits)
  then have "lastthvertex (thrs s t) \<noteq> Some a" using assms(2) by auto
  then show ?thesis using linktail_vtxs(4) [OF assms(3) _ l(2)] assms(3) by (simp add: linkin_existing_fields(7))
qed

lemma sched_ok_linkin_existing:
  assumes "sched_ok cfgs s q" "t \<in> thr_live s" "thread_key s t = vertex_key cfg s v" "unqueued q v"
  shows "sched_ok cfgs (linkin_existing g t v s) (q(vertex_key cfg s v := q (vertex_key cfg s v) @ [v]))"
proof -
  let ?k = "vertex_key cfg s v"
  note o = sched_okD [OF assms(1)]
  have h: "holds s t (q ?k)" using queuesD(1) [OF o(3) assms(2)] assms(3) by simp
  have v: "orig_chan (vtxs s v) = t_wchan (thrs s t)" "orig_host (vtxs s v) = t_whost (thrs s t)" "v \<notin> set (q k)" for k
    using assms(3) assms(4) [unfolded unqueued_def, rule_format] by (auto simp: thread_key_def vertex_key_def)
  have other: "vtxs (linkin_existing g t v s) a = vtxs s a" if "a \<in> set (q k)" "v_thread (vtxs s a) \<noteq> Some t" for a k
    using that v(3) h by (intro linkin_existing_others [OF h]) (auto simp: holds_def)
  show ?thesis
    using sched_ok_vertices [OF assms(1) linkin_existing_frame(1) assms(2) holds_linkin_existing [OF h v(3,1,2)]
        linkin_existing_frame(2) other] assms(3) by simp
qed


lemma unthread_fields:
  "jobs (thrs (unthread (Some t) v s) t) = jobs (thrs s t) - 1"
  "nextfeed (thrs (unthread (Some t) v s) t) = (if nextfeed (thrs s t) = Some v then
     nextitem (vtxs (upd_vtx_p (nextitem (vtxs (upd_vtx_p (previtem (vtxs s v)) (\<lambda>r. r\<lparr>nextitem := nextitem (vtxs s v)\<rparr>) s) v))
       (\<lambda>r. r\<lparr>previtem := previtem (vtxs s v)\<rparr>) (upd_vtx_p (previtem (vtxs s v)) (\<lambda>r. r\<lparr>nextitem := nextitem (vtxs s v)\<rparr>) s)) v)
     else nextfeed (thrs s t))"
  by (auto simp: unthread_def Let_def)

lemma vchain_member:
  assumes "vchain s t vs" "v \<in> set vs"
  shows "nextitem (vtxs s v) \<in> insert None (Some ` (set vs - {v}))" "previtem (vtxs s v) \<in> insert None (Some ` (set vs - {v}))"
proof -
  obtain xs ys where z: "vs = xs @ v # ys" using assms(2) by (meson split_list)
  have d: "distinct (xs @ v # ys)" "dseg (\<lambda>v. nextitem (vtxs s v)) (\<lambda>v. previtem (vtxs s v)) None (xs @ v # ys) None"
    using assms(1) z by (auto simp: vchain_def dlist_def)
  note u = dseg_unlink(2,3) [OF d]
  show "nextitem (vtxs s v) \<in> insert None (Some ` (set vs - {v}))" using u(1) d(1) z by (cases ys) auto
  show "previtem (vtxs s v) \<in> insert None (Some ` (set vs - {v}))" using u(2) d(1) z by (cases xs rule: rev_cases) (auto simp: lastp_def)
qed

lemma holds_unthread:
  assumes "holds s t vs" "v \<in> set vs"
  shows "holds (unthread (Some t) v s) t (remove1 v vs)"
proof -
  have c: "vchain s t vs" "distinct vs" using assms(1) waiting.distinct_members by (auto simp: holds_def)
  note m = vchain_member [OF c(1) assms(2)]
  have n: "nextfeed (thrs (unthread (Some t) v s) t) = (if nextfeed (thrs s t) = Some v then nextitem (vtxs s v) else nextfeed (thrs s t))"
    unfolding unthread_fields(2) using m by auto
  have "jobs (thrs (unthread (Some t) v s) t) = int (length (remove1 v vs))"
    using assms length_pos_if_in_set [OF assms(2)] by (simp add: unthread_fields(1) holds_def length_remove1 Suc_leI of_nat_diff)
  moreover have "nextfeed (thrs (unthread (Some t) v s) t) \<in> insert None (Some ` set (remove1 v vs))"
    using n m(1) c(2) assms by (auto simp: holds_def)
  moreover have "t_wchan (thrs (unthread (Some t) v s) t) = t_wchan (thrs s t)" "t_whost (thrs (unthread (Some t) v s) t) = t_whost (thrs s t)"
    using route_fields [OF route_vertex_ops(2)] by blast+
  ultimately show ?thesis
    using waiting.members_remove [OF c(1) assms(2)] assms(1) c(2) by (simp add: holds_def unthread_vtxs(1-3))
qed

lemma sched_ok_unthread:
  assumes "sched_ok cfgs s q" "t \<in> thr_live s" "v \<in> set (q (thread_key s t))"
  shows "sched_ok cfgs (unthread (Some t) v s) (q(thread_key s t := remove1 v (q (thread_key s t))))"
proof -
  have h: "holds s t (q (thread_key s t))" using queuesD(1) sched_okD(3) assms by blast
  have m: "nextitem (vtxs s v) \<in> insert None (Some ` (set (q (thread_key s t)) - {v}))"
    "previtem (vtxs s v) \<in> insert None (Some ` (set (q (thread_key s t)) - {v}))"
    using vchain_member [of s t _ v] h assms(3) unfolding holds_def by blast+
  have "same_frame s (unthread (Some t) v s)" by (simp add: same_frame_def)
  moreover have "vtxs (unthread (Some t) v s) a = vtxs s a" if "a \<in> set (q k)" "v_thread (vtxs s a) \<noteq> Some t" for a k
    using that h m assms(3) by (intro unthread_vtxs(6)) (auto simp: holds_def)
  ultimately show ?thesis
    using sched_ok_vertices [OF assms(1) _ assms(2) holds_unthread [OF h assms(3)]] by simp
qed

section \<open>Operations on the links of the threads\<close>

lemma sched_ok_relink:
  assumes "sched_ok cfgs s q" "linked (thr_live s') s'" "thr_live s' \<subseteq> thr_live s"
    and "\<And>a. payload (thrs s' a) = payload (thrs s a)" "vtxs s' = vtxs s" "grp_live s' = grp_live s" "brk s' = brk s" "thrg_root s' = thrg_root s"
    and "\<And>g. g_nextthg (grps s' g) = g_nextthg (grps s g) \<and> g_prevthg (grps s' g) = g_prevthg (grps s g) \<and> g_wchan (grps s' g) = g_wchan (grps s g) \<and>
          g_whost (grps s' g) = g_whost (grps s g) \<and> withhost (grps s' g) = withhost (grps s g) \<and> cep (grps s' g) = cep (grps s g)"
    and "\<And>t. t \<in> thr_live s \<Longrightarrow> t \<notin> thr_live s' \<Longrightarrow> q (thread_key s t) = []"
  shows "sched_ok cfgs s' q"
proof -
  note o = sched_okD [OF assms(1)] and f = payload_fields [OF assms(4)]
  have k: "thread_key s' t = thread_key s t" for t using f [of t] assms(9) by (simp add: thread_key_def)
  have "grpring s' = grpring s" by (rule ext) (simp add: grpring_def assms(8,9))
  then have 1: "groups_ok cfgs s'" using o(1) assms(6,7,9) by (simp add: groups_ok_def same_route_def)
  have "on_route s' t" if "t \<in> thr_live s'" for t
    using threads_okD(2) [OF o(2) subsetD [OF assms(3) that]] assms(7,9) f [of t] by (simp add: on_route_def)
  moreover have "inj_on (thread_key s') (thr_live s')"
    using inj_on_subset [OF threads_okD(3) [OF o(2)] assms(3)] k by (simp add: inj_on_def)
  ultimately have 2: "threads_ok s'" using assms(2) by (simp add: threads_ok_def)
  have "holds s' t (q (thread_key s t))" if "t \<in> thr_live s'" for t
    using queuesD(1) [OF o(3) subsetD [OF assms(3) that]] by (rule holds_frame) (simp_all only: assms(4,5))
  moreover have "q k = []" if "k \<notin> thread_key s ` thr_live s'" for k
    using that assms(10) queuesD(2) [OF o(3), of k] by (cases "k \<in> thread_key s ` thr_live s") auto
  ultimately have "queues s' q" unfolding queues_def k by blast
  then show ?thesis using 1 2 by (simp add: sched_ok_def)
qed

lemma sched_ok_requeue:
  assumes "sched_ok cfgs s q" "t \<in> thr_live s"
  shows "sched_ok cfgs (thread_timechain_append t (thread_timechain_unlink t s)) q"
proof -
  note t = threads_okD [OF sched_okD(2) [OF assms(1)]]
  have "linked (thr_live s - {t}) (thread_timechain_unlink t s)" by (rule linked_unlink [OF t(1) assms(2)])
  then have "linked (insert t (thr_live s - {t})) (thread_timechain_append t (thread_timechain_unlink t s))"
    using t(4) [OF assms(2)] by (intro linked_append) auto
  then have "linked (thr_live s) (thread_timechain_append t (thread_timechain_unlink t s))" using assms(2) by (simp add: insert_absorb)
  then show ?thesis using assms(1) by (intro sched_ok_relink [OF assms(1)]) auto
qed

lemma sched_ok_delete_thread:
  assumes "sched_ok cfgs s q" "t \<in> thr_live s"
  shows "sched_ok cfgs (snd (delete_thread t s)) q"
proof (cases "thrkids (thrs s t) \<noteq> 0 \<or> jobs (thrs s t) \<noteq> 0")
  case True
  then show ?thesis using assms(1) by (simp add: delete_thread_def)
next
  case False
  note o = sched_okD [OF assms(1)]
  let ?s = "thread_timechain_unlink t s"
  have s': "snd (delete_thread t s) = ?s\<lparr>thr_live := thr_live s - {t}\<rparr>" using False by (simp add: delete_thread_def Let_def)
  have l: "linked (thr_live s - {t}) ?s" by (rule linked_unlink [OF threads_okD(1) [OF o(2)] assms(2)])
  have "linked (thr_live s - {t}) (?s\<lparr>thr_live := thr_live s - {t}\<rparr>)"
    by (rule linked_frame [OF l]) (use linkedD(2) [OF l] in auto)
  moreover have "q (thread_key s t) = []" using queuesD(1) [OF o(3) assms(2)] False by (simp add: holds_def)
  ultimately show ?thesis unfolding s' by (intro sched_ok_relink [OF assms(1)]) auto
qed

lemma sched_ok_detangle:
  assumes "sched_ok cfgs s q" "v \<in> set (q k)"
  shows "sched_ok cfgs (web_detangle v s) (q(k := remove1 v (q k)))"
proof -
  obtain t where t: "t \<in> thr_live s" "thread_key s t = k" "v_thread (vtxs s v) = Some t"
    using queuesD(3) [OF sched_okD(3) [OF assms(1)] assms(2)] by blast
  have u: "sched_ok cfgs (unthread (Some t) v s) (q(k := remove1 v (q k)))"
    using sched_ok_unthread [OF assms(1) t(1)] t(2) assms(2) by simp
  then show ?thesis
    using t sched_ok_delete_thread [OF u, of t] by (simp add: web_detangle_def Let_def)
qed


section \<open>A new thread\<close>

lemma create_thread_prepare:
  obtains s1 where "create_thread cfgs tm g v s = (brk s, thread_timechain_append (brk s) s1)"
    "brk s1 = brk s + 1" "thr_live s1 = insert (brk s) (thr_live s)" "grp_live s1 = grp_live s" "grps s1 = grps s" "thrg_root s1 = thrg_root s"
    "thread_head s1 = thread_head s" "thread_tail s1 = thread_tail s" "\<forall>a. a \<noteq> brk s \<longrightarrow> thrs s1 a = thrs s a"
    "payload (thrs s1 (brk s)) = (g, orig_chan (vtxs s v), orig_host (vtxs s v), Some v, Some v, 1, None, None)"
    "vtxs s1 = (vtxs s)(v := (vtxs s v)\<lparr>v_thread := Some (brk s)\<rparr>)"
proof -
  define s0 where "s0 = s\<lparr>brk := brk s + 1, last_threadid := last_threadid s + 1, thr_live := insert (brk s) (thr_live s)\<rparr>"
  define s1 where "s1 = (let s = s0; t = brk s - 1;
          s = s\<lparr>thrs := (thrs s)(t := thread_zero\<lparr>threadid := last_threadid s, t_thgrp := g,
                 t_wchan := orig_chan (vtxs s v), t_whost := orig_host (vtxs s v)\<rparr>)\<rparr>;
          c = cfgs (cep (grps s g));
          s = (if cfg_flag CFG_QUEUEONLY c \<and> nretries c \<noteq> 0 then upd_thr t (\<lambda>r. r\<lparr>wakeup := tm + retries c ! 0\<rparr>) s else s);
          s = upd_thr t (\<lambda>r. r\<lparr>thvertices := Some v, lastthvertex := Some v, jobs := 1\<rparr>) s
      in upd_vtx v (\<lambda>r. r\<lparr>v_thread := Some t\<rparr>) s)"
  have "create_thread cfgs tm g v s = (brk s, thread_timechain_append (brk s) s1)"
    by (simp add: create_thread_def malloc_def s0_def s1_def Let_def)
  moreover have "brk s1 = brk s + 1" "thr_live s1 = insert (brk s) (thr_live s)" "grp_live s1 = grp_live s" "grps s1 = grps s" "thrg_root s1 = thrg_root s"
    "thread_head s1 = thread_head s" "thread_tail s1 = thread_tail s" "\<forall>a. a \<noteq> brk s \<longrightarrow> thrs s1 a = thrs s a"
    "payload (thrs s1 (brk s)) = (g, orig_chan (vtxs s v), orig_host (vtxs s v), Some v, Some v, 1, None, None)"
    "vtxs s1 = (vtxs s)(v := (vtxs s v)\<lparr>v_thread := Some (brk s)\<rparr>)"
    by (simp_all add: s1_def s0_def Let_def payload_def thread_zero_def)
  ultimately show thesis by (rule that)
qed

text \<open>A thread for a vertex that none of the group's threads serves.\<close>

lemma no_thread_for_key:
  assumes "sched_ok cfgs s q" "g \<in> grp_live s" "linkin_group cfg (orig_chan (vtxs s v)) (orig_host (vtxs s v)) s g"
    and "\<And>t. t \<in> thr_live s \<Longrightarrow> t_thgrp (thrs s t) = g \<Longrightarrow> t_whost (thrs s t) \<noteq> orig_host (vtxs s v)"
  shows "vertex_key cfg s v \<notin> thread_key s ` thr_live s"
proof
  assume "vertex_key cfg s v \<in> thread_key s ` thr_live s"
  then obtain t where t: "t \<in> thr_live s" "thread_key s t = vertex_key cfg s v" by auto
  note o = sched_okD [OF assms(1)]
  have "same_route (grps s (t_thgrp (thrs s t))) (grps s g)"
    using t(2) threads_okD(2) [OF o(2) t(1)] assms(3) groups_okD(3) [OF o(1) assms(2)] groups_okD(3) [OF o(1) threads_okD(4) [OF o(2) t(1)]]
    by (auto simp: same_route_def thread_key_def vertex_key_def on_route_def linkin_group_def)
  then have "t_thgrp (thrs s t) = g" using groups_okD(4) [OF o(1) threads_okD(4) [OF o(2) t(1)] assms(2)] by simp
  then show False using assms(4) t by (auto simp: thread_key_def vertex_key_def)
qed

lemma sched_ok_linkin_new:
  assumes "sched_ok cfgs s q" "g \<in> grp_live s" "linkin_group cfg (orig_chan (vtxs s v)) (orig_host (vtxs s v)) s g"
    and "\<And>t. t \<in> thr_live s \<Longrightarrow> t_thgrp (thrs s t) = g \<Longrightarrow> t_whost (thrs s t) \<noteq> orig_host (vtxs s v)"
    and "unqueued q v" "nextitem (vtxs s v) = None" "previtem (vtxs s v) = None" "linkin_new cfgs tm g v s = (t, s')"
  shows "sched_ok cfgs s' (q(vertex_key cfg s v := q (vertex_key cfg s v) @ [v]))" "t \<in> thr_live s'" "thread_key s' t = vertex_key cfg s v"
    "v_thread (vtxs s' v) = Some t" "a \<noteq> v \<Longrightarrow> vtxs s' a = vtxs s a"
proof -
  let ?k = "vertex_key cfg s v" and ?t = "brk s"
  note o = sched_okD [OF assms(1)]
  obtain s1 where c: "create_thread cfgs tm g v s = (?t, thread_timechain_append ?t s1)"
    and f: "brk s1 = ?t + 1" "thr_live s1 = insert ?t (thr_live s)" "grp_live s1 = grp_live s" "grps s1 = grps s" "thrg_root s1 = thrg_root s"
      "thread_head s1 = thread_head s" "thread_tail s1 = thread_tail s" "\<forall>a. a \<noteq> ?t \<longrightarrow> thrs s1 a = thrs s a"
      "payload (thrs s1 ?t) = (g, orig_chan (vtxs s v), orig_host (vtxs s v), Some v, Some v, 1, None, None)"
      "vtxs s1 = (vtxs s)(v := (vtxs s v)\<lparr>v_thread := Some ?t\<rparr>)"
    by (rule create_thread_prepare [of cfgs tm g v s]) (rule that)
  let ?a = "thread_timechain_append ?t s1"
  have s': "t = ?t" "s' = upd_vtx v (\<lambda>r. r\<lparr>v_thgrp := Some g\<rparr>) ?a" using assms(8) c by (auto simp: linkin_new_def)
  have fresh: "u \<noteq> ?t" if "u \<in> thr_live s" for u using threads_okD(2) [OF o(2) that] by (auto simp: on_route_def)
  have pold: "payload (thrs s' u) = payload (thrs s u)" if "u \<in> thr_live s" for u using f(8) [rule_format, OF fresh [OF that]] by (simp add: s'(2))
  note fold = payload_fields [OF pold]
  have pnew: "payload (thrs s' ?t) = (g, orig_chan (vtxs s v), orig_host (vtxs s v), Some v, Some v, 1, None, None)" using f(9) by (simp add: s'(2))
  have fnew: "t_thgrp (thrs s' ?t) = g" "t_wchan (thrs s' ?t) = orig_chan (vtxs s v)" "t_whost (thrs s' ?t) = orig_host (vtxs s v)"
    "thvertices (thrs s' ?t) = Some v" "lastthvertex (thrs s' ?t) = Some v" "jobs (thrs s' ?t) = 1" "nextfeed (thrs s' ?t) = None"
    using pnew by (simp_all add: payload_def)
  have gr: "cep (grps s' h) = cep (grps s h)" "g_wchan (grps s' h) = g_wchan (grps s h)" "g_whost (grps s' h) = g_whost (grps s h)"
    "withhost (grps s' h) = withhost (grps s h)" for h using f(4) by (simp_all add: s'(2))
  have fr: "brk s' = ?t + 1" "thr_live s' = insert ?t (thr_live s)" "grp_live s' = grp_live s" using f(1-3) by (simp_all add: s'(2))
  have kold: "thread_key s' u = thread_key s u" if "u \<in> thr_live s" for u using fold [OF that] gr by (simp add: thread_key_def)
  have knew: "thread_key s' ?t = ?k" using fnew gr assms(3) by (simp add: thread_key_def vertex_key_def linkin_group_def)
  have nk: "?k \<notin> thread_key s ` thr_live s" by (rule no_thread_for_key [OF assms(1-4)])
  have "grpring s' = grpring s" by (rule ext) (simp add: grpring_def s'(2) f(4,5))
  then have 1: "groups_ok cfgs s'" using o(1) gr fr by (auto simp: groups_ok_def same_route_def)
  have "linked (thr_live s) s1"
    by (rule linked_frame [OF threads_okD(1) [OF o(2)]]) (use f fresh threads_okD(4) [OF o(2)] in auto)
  then have la: "linked (insert ?t (thr_live s)) ?a" using fresh f(3,9) assms(2) by (intro linked_append) (auto simp: payload_def)
  then have l: "linked (thr_live s') s'" unfolding fr(2)
    by (rule linked_frame) (use s'(2) linkedD(2) [OF la] in auto)
  have r: "on_route s' u" if "u \<in> thr_live s'" for u
  proof (cases "u = ?t")
    case True
    then show ?thesis using fnew gr fr assms(3) by (auto simp: on_route_def linkin_group_def)
  next
    case False
    then have u: "u \<in> thr_live s" using that fr(2) by simp
    show ?thesis using threads_okD(2) [OF o(2) u] fold [OF u] gr fr(1) by (simp add: on_route_def)
  qed
  have "inj_on (thread_key s') (thr_live s')"
    unfolding fr(2) using threads_okD(3) [OF o(2)] nk knew kold fresh by (auto simp: inj_on_def image_iff)
  then have 2: "threads_ok s'" using l r by (simp add: threads_ok_def)
  have vt: "vtxs s' a = vtxs s a" if "a \<noteq> v" for a using that f(10) by (simp add: s'(2))
  have qk: "q ?k = []" by (rule queuesD(2) [OF o(3) nk])
  have "holds s' ?t [v]"
    using fnew assms(6,7) f(10) by (simp add: holds_def vchain_def dlist_def s'(2))
  moreover have "holds s' u (q (thread_key s u))" if u: "u \<in> thr_live s" for u
    using queuesD(1) [OF o(3) u] by (rule holds_frame) (use assms(5) [unfolded unqueued_def] vt pold [OF u] in metis)+
  moreover have "thread_key s u \<noteq> ?k" if "u \<in> thr_live s" for u using nk that by (auto simp: image_iff)
  ultimately have "queues s' (q(?k := q ?k @ [v]))"
    unfolding queues_def fr(2) using knew kold qk queuesD(2) [OF o(3)] by (auto simp: image_iff)
  then show "sched_ok cfgs s' (q(?k := q ?k @ [v]))" using 1 2 by (simp add: sched_ok_def)
  show "t \<in> thr_live s'" "thread_key s' t = ?k" "v_thread (vtxs s' v) = Some t" "a \<noteq> v \<Longrightarrow> vtxs s' a = vtxs s a"
    using fr(2) knew f(10) s' vt by simp_all
qed


section \<open>Linking in a vertex\<close>

lemma find_members: "set ys = A \<Longrightarrow> find P ys = None \<Longrightarrow> x \<in> A \<Longrightarrow> \<not> P x" "set ys = A \<Longrightarrow> find P ys = Some x \<Longrightarrow> x \<in> A \<and> P x"
  by (auto simp: find_None_iff find_Some_iff)

lemma group_walk:
  assumes "sched_ok cfgs s q" "thrg_root s \<noteq> None"
  obtains ys where "set ys = grp_live s" "ring_walk (\<lambda>g. g_nextthg (grps s g)) P (thrg_root s) (thrg_root s) True = Some (find P ys)"
proof -
  obtain xs where x: "grpring s xs" "set xs = grp_live s" using groups_okD(1) [OF sched_okD(1) [OF assms(1)]] by blast
  then obtain rt where "thrg_root s = Some rt" "rt \<in> set xs"
    "ring (\<lambda>g. g_nextthg (grps s g)) (\<lambda>g. g_prevthg (grps s g)) xs" using assms(2) by (auto simp: grpring_def split: if_splits)
  then show thesis using ring_walk_find [of _ _ xs rt P] x(2) that by metis
qed

lemma thread_walk:
  assumes "sched_ok cfgs s q" "g \<in> grp_live s"
  obtains ys where "set ys = {t \<in> thr_live s. t_thgrp (thrs s t) = g}"
    "ring_walk (\<lambda>t. t_nextthg (thrs s t)) P (g_thread (grps s g)) (g_thread (grps s g)) True = Some (find P ys)"
proof -
  obtain xs where x: "gring s g xs" "set xs = {t \<in> thr_live s. t_thgrp (thrs s t) = g}"
    using linkedD(3) [OF threads_okD(1) [OF sched_okD(2) [OF assms(1)]] assms(2)] by blast
  show thesis
  proof (cases "xs = []")
    case True
    then show ?thesis using x that [of "[]"] by (simp add: gring_def ring_walk.simps)
  next
    case False
    then obtain e where "g_thread (grps s g) = Some e" "e \<in> set xs"
      "ring (\<lambda>a. t_nextthg (thrs s a)) (\<lambda>a. t_prevthg (thrs s a)) xs" using x(1) by (auto simp: gring_def)
    then show ?thesis using ring_walk_find [of _ _ xs e P] x(2) that by metis
  qed
qed

text \<open>The common part of the cases: a group that matches has been found or made.\<close>

lemma linkin_in_group:
  assumes "sched_ok cfgs s q" "g \<in> grp_live s" "linkin_group cfg (orig_chan (vtxs s v)) (orig_host (vtxs s v)) s g"
    and "unqueued q v" "nextitem (vtxs s v) = None" "previtem (vtxs s v) = None"
    and "ys = find (\<lambda>t. t_whost (thrs s t) = orig_host (vtxs s v)) ts" "set ts = {t \<in> thr_live s. t_thgrp (thrs s t) = g}"
    and "(t, s') = (case ys of None \<Rightarrow> linkin_new cfgs tm g v s | Some t \<Rightarrow> (t, linkin_existing g t v s))"
  shows "sched_ok cfgs s' (q(vertex_key cfg s v := q (vertex_key cfg s v) @ [v])) \<and> t \<in> thr_live s' \<and> thread_key s' t = vertex_key cfg s v \<and>
    v_thread (vtxs s' v) = Some t \<and> (\<forall>w. w \<noteq> v \<longrightarrow> unqueued q w \<longrightarrow> vtxs s' w = vtxs s w)"
proof (cases ys)
  case None
  then have no: "t_whost (thrs s u) \<noteq> orig_host (vtxs s v)" if "u \<in> thr_live s" "t_thgrp (thrs s u) = g" for u
    using find_members(1) [OF assms(8)] assms(7) that by auto
  show ?thesis
    using sched_ok_linkin_new [OF assms(1-3) no assms(4-6), of tm t s'] assms(9) None by simp
next
  case (Some u)
  then have u: "u \<in> thr_live s" "t_thgrp (thrs s u) = g" "t_whost (thrs s u) = orig_host (vtxs s v)"
    using find_members(2) [OF assms(8), of _ u] assms(7) by auto
  have k: "thread_key s u = vertex_key cfg s v"
    using u assms(3) threads_okD(2) [OF sched_okD(2) [OF assms(1)] u(1)] by (simp add: thread_key_def vertex_key_def linkin_group_def on_route_def)
  have s': "t = u" "s' = linkin_existing g u v s" using assms(9) Some by simp_all
  have fr: "same_frame s s'" unfolding s' by (rule linkin_existing_frame)
  have "vtxs s' w = vtxs s w" if "w \<noteq> v" "unqueued q w" for w
    unfolding s' using that by (intro linkin_existing_others [OF queuesD(1) [OF sched_okD(3) [OF assms(1)] u(1)]]) (auto simp: unqueued_def)
  then show ?thesis
    using sched_ok_linkin_existing [OF assms(1) u(1) k assms(4), of g] k u(1) same_frame_key [OF fr] fr
    by (simp add: s' same_frame_def linkin_existing_fields(7) linktail_vtxs(3))
qed

lemma linkin_simulates:
  assumes "sched_ok cfgs s q" "unqueued q v" "nextitem (vtxs s v) = None" "previtem (vtxs s v) = None"
  shows "\<exists>t s'. linkin_thread cfgs ce_fillin tm v cfg s = Some (t, s') \<and> t \<in> thr_live s' \<and> thread_key s' t = vertex_key cfg s v \<and>
    v_thread (vtxs s' v) = Some t \<and> sched_ok cfgs s' (q(vertex_key cfg s v := q (vertex_key cfg s v) @ [v])) \<and>
    (\<forall>w. w \<noteq> v \<longrightarrow> unqueued q w \<longrightarrow> vtxs s' w = vtxs s w)"
proof -
  let ?wc = "orig_chan (vtxs s v)" and ?wh = "orig_host (vtxs s v)" and ?fl = "cfg_flag CFG_WITHHOST (cfgs cfg)"
  let ?new = "create_threadgroup cfg ?wc ?wh ?fl ce_fillin"
  define s0 where "s0 = (if thrg_root s = None then snd (?new s) else s)"
  have link: "linkin_thread cfgs ce_fillin tm v cfg s =
     (case ring_walk (\<lambda>g. g_nextthg (grps s0 g)) (linkin_group cfg ?wc ?wh s0) (thrg_root s0) (thrg_root s0) True of
        None \<Rightarrow> None
      | Some None \<Rightarrow> (case ?new s0 of (g, s) \<Rightarrow> Some (linkin_new cfgs tm g v s))
      | Some (Some g) \<Rightarrow>
          (case ring_walk (\<lambda>t. t_nextthg (thrs s0 t)) (\<lambda>t. t_whost (thrs s0 t) = ?wh) (g_thread (grps s0 g)) (g_thread (grps s0 g)) True of
             None \<Rightarrow> None
           | Some (Some t) \<Rightarrow> Some (t, linkin_existing g t v s0)
           | Some None \<Rightarrow> Some (linkin_new cfgs tm g v s0)))"
    by (simp only: linkin_thread_def s0_def Let_def)
  have empty: "thrg_root s = None \<Longrightarrow> grp_live s = {}"
    using groups_okD(1) [OF sched_okD(1) [OF assms(1)]] grpring_empty by fastforce
  have 0: "sched_ok cfgs s0 q" "vtxs s0 = vtxs s" "thrg_root s0 \<noteq> None"
  proof (atomize (full), cases "thrg_root s = None")
    case True
    have n: "?new s = (fst (?new s), snd (?new s))" by simp
    have "s0 = snd (?new s)" using True by (simp add: s0_def)
    then show "sched_ok cfgs s0 q \<and> vtxs s0 = vtxs s \<and> thrg_root s0 \<noteq> None"
      using sched_ok_create(1,4) [OF assms(1) n] create_threadgroup_frame(9) [OF n] empty [OF True] by simp
  qed (use assms(1) in \<open>auto simp: s0_def\<close>)
  have vk: "vertex_key cfg s0 v = vertex_key cfg s v" using 0(2) by (simp add: vertex_key_def)
  obtain gs where g: "set gs = grp_live s0"
    "ring_walk (\<lambda>g. g_nextthg (grps s0 g)) (linkin_group cfg ?wc ?wh s0) (thrg_root s0) (thrg_root s0) True = Some (find (linkin_group cfg ?wc ?wh s0) gs)"
    by (rule group_walk [OF 0(1,3), of "linkin_group cfg ?wc ?wh s0"])
  show ?thesis
  proof (cases "find (linkin_group cfg ?wc ?wh s0) gs")
    case None
    obtain h s1 where n: "?new s0 = (h, s1)" by (cases "?new s0")
    note c = sched_ok_create [OF 0(1) n find_members(1) [OF g(1) None]]
    have none: "set [] = {t \<in> thr_live s1. t_thgrp (thrs s1 t) = h}"
      using c(5-8) threads_okD(4) [OF sched_okD(2) [OF 0(1)]] by auto
    obtain t s' where r: "linkin_new cfgs tm h v s1 = (t, s')" by (cases "linkin_new cfgs tm h v s1")
    have l: "linkin_thread cfgs ce_fillin tm v cfg s = Some (t, s')"
      using g(2) None n r 0(2) by (simp add: link)
    have vk1: "vertex_key cfg s1 v = vertex_key cfg s v" using c(4) vk by (simp add: vertex_key_def)
    show ?thesis
      using linkin_in_group [where t = t and s' = s' and tm = tm and cfg = cfg, OF c(1,3) _ assms(2) _ _ refl none] c(2,4) 0(2) assms(3,4) r l vk1 by simp
  next
    case (Some h)
    have h: "h \<in> grp_live s0" "linkin_group cfg ?wc ?wh s0 h" using find_members(2) [OF g(1) Some] by auto
    let ?P = "\<lambda>t. t_whost (thrs s0 t) = ?wh"
    obtain ts where ts: "set ts = {t \<in> thr_live s0. t_thgrp (thrs s0 t) = h}"
      "ring_walk (\<lambda>t. t_nextthg (thrs s0 t)) ?P (g_thread (grps s0 h)) (g_thread (grps s0 h)) True = Some (find ?P ts)"
      by (rule thread_walk [OF 0(1) h(1), of ?P])
    obtain t s' where r: "(case find ?P ts of None \<Rightarrow> linkin_new cfgs tm h v s0 | Some t \<Rightarrow> (t, linkin_existing h t v s0)) = (t, s')"
      by fastforce
    have l: "linkin_thread cfgs ce_fillin tm v cfg s = Some (t, s')"
      using g(2) Some ts(2) r 0(2) by (simp add: link split: option.splits)
    show ?thesis
      using linkin_in_group [where t = t and s' = s' and tm = tm and cfg = cfg, OF 0(1) h(1) _ assms(2) _ _ refl ts(1)] h(2) 0(2) assms(3,4) r l vk by simp
  qed
qed


section \<open>Dropping an idle group\<close>

lemma sched_ok_delete_group:
  assumes "sched_ok cfgs s q" "g \<in> grp_live s" "delete_threadgroup g s = Some s'"
  shows "sched_ok cfgs s' q" "vtxs s' = vtxs s"
proof (atomize (full), cases "group_idle s g")
  case False
  then show "sched_ok cfgs s' q \<and> vtxs s' = vtxs s" using assms delete_threadgroup_busy by fastforce
next
  case True
  note o = sched_okD [OF assms(1)]
  obtain xs where x: "grpring s xs" "set xs = grp_live s" using groups_okD(1) [OF o(1)] by blast
  have a: "idleproc (grps s g) = None" "g_thread (grps s g) = None" "thrg_root s \<noteq> None"
    using assms(3) True by (auto simp: delete_threadgroup_def group_idle_def split: if_splits)
  note f = delete_threadgroup_idle [OF True a] and p = delete_threadgroup_payload [OF True a]
  have s': "s' = group_out g s" using assms(3) f(1) by simp
  have pf: "cep (grps s' h) = cep (grps s h)" "g_wchan (grps s' h) = g_wchan (grps s h)" "g_whost (grps s' h) = g_whost (grps s h)"
    "withhost (grps s' h) = withhost (grps s h)" "g_thread (grps s' h) = g_thread (grps s h)" "thrtail (grps s' h) = thrtail (grps s h)"
    "threads (grps s' h) = threads (grps s h)" for h
    using gpayload_fields [OF p [of h]] by (simp_all add: s')
  have out: "t_thgrp (thrs s t) \<noteq> g" if t: "t \<in> thr_live s" for t
  proof -
    obtain ys where "set ys = {t \<in> thr_live s. t_thgrp (thrs s t) = g}" "threads (grps s g) = int (length ys)"
      using linkedD(3) [OF threads_okD(1) [OF o(2)] assms(2)] by blast
    then show ?thesis using True t by (auto simp: group_idle_def)
  qed
  have fr: "brk s' = brk s" "grp_live s' = grp_live s - {g}" "thr_live s' = thr_live s" "thrs s' = thrs s" "vtxs s' = vtxs s"
    "thread_head s' = thread_head s" "thread_tail s' = thread_tail s" using f by (simp_all add: s')
  have "\<exists>ys. grpring s' ys \<and> set ys = grp_live s'"
    using delete_threadgroup_ring [OF x(1) _ True a(1,2)] x(2) assms(2) fr(2) by (simp add: s')
  then have 1: "groups_ok cfgs s'" using groups_okD [OF o(1)] fr(1,2) pf(1-4) by (auto simp: groups_ok_def same_route_def)
  have "linked (thr_live s) s'"
    by (rule linked_frame [OF threads_okD(1) [OF o(2)]]) (use fr pf out threads_okD(4) [OF o(2)] in auto)
  moreover have k: "thread_key s' = thread_key s" by (rule ext) (simp add: thread_key_def fr pf)
  ultimately have 2: "threads_ok s'" using o(2) fr pf by (simp add: threads_ok_def on_route_def)
  have "holds s' = holds s" by (intro ext) (simp add: holds_def vchain_def fr)
  then have "queues s' q" using o(3) fr k by (simp add: queues_def)
  then show "sched_ok cfgs s' q \<and> vtxs s' = vtxs s" using 1 2 fr(5) by (simp add: sched_ok_def)
qed

end
