(* ===== verification/Shuffle.thy ===== *)
theory Shuffle
  imports Threadqueue "HOL-Library.Multiset"
begin

text \<open>
  The order in which the vertices of a thread are fed to a transporter (\<open>thread_vertex_shuffle\<close> of
  \<^verbatim>\<open>scheduler/threads.c\<close>): by the time of the spool file, or at random.  The C library's \<open>qsort\<close> is a
  parameter; its promise is to permute the array into an order the comparison accepts.
\<close>

section \<open>Definitions\<close>

definition vtx_mtime_cmp :: "sched \<Rightarrow> addr \<Rightarrow> addr \<Rightarrow> int" where
  "vtx_mtime_cmp s a b =
     (if v_mtime (vtxs s a) < v_mtime (vtxs s b) then - 1
      else if v_mtime (vtxs s a) > v_mtime (vtxs s b) then 1
      else if v_mtimens (vtxs s a) < v_mtimens (vtxs s b) then - 1
      else if v_mtimens (vtxs s a) > v_mtimens (vtxs s b) then 1
      else 0)"

text \<open>Step 2: the walk along the chain stores the vertices in the static array, which grows as needed.\<close>

partial_function (option) ur_collect :: "(addr \<Rightarrow> ptr) \<Rightarrow> ptr \<Rightarrow> addr list \<Rightarrow> nat \<Rightarrow> (addr list \<times> nat) option" where
  "ur_collect nxt p arr ur_size =
     (case p of
        None \<Rightarrow> Some (arr, ur_size)
      | Some v \<Rightarrow> ur_collect nxt (nxt v) (arr @ [v]) (if length arr \<ge> ur_size then ur_size * 2 else ur_size))"

declare ur_collect.simps [code]

text \<open>Step 3, random order: every position is swapped with a random one.\<close>

function ur_random :: "ulong \<Rightarrow> nat \<Rightarrow> addr list \<Rightarrow> rng \<Rightarrow> addr list \<times> rng" where
  "ur_random clock i arr r =
     (if i < length arr then
        let (w, r) = ranny clock (word_of_nat (length arr - 1)) r; ni = unat w
        in ur_random clock (i + 1) (arr[i := arr ! ni, ni := arr ! i]) r
      else (arr, r))"
  by pat_completeness auto
termination by (relation "measure (\<lambda>(c, i, arr, r). length arr - i)") auto

declare ur_random.simps [simp del]

text \<open>Step 4: the links of the vertices between the first and the last.\<close>

function ur_relink :: "nat \<Rightarrow> addr list \<Rightarrow> sched \<Rightarrow> sched" where
  "ur_relink i arr s =
     (if i < length arr then
        let s = (if i > 0 then upd_vtx (arr ! i) (\<lambda>r. r\<lparr>previtem := Some (arr ! (i - 1))\<rparr>) s else s);
            s = (if i < length arr - 1 then upd_vtx (arr ! i) (\<lambda>r. r\<lparr>nextitem := Some (arr ! (i + 1))\<rparr>) s else s)
        in ur_relink (i + 1) arr s
      else s)"
  by pat_completeness auto
termination by (relation "measure (\<lambda>(i, arr, s). length arr - i)") auto

declare ur_relink.simps [simp del]

definition ur_finish :: "addr \<Rightarrow> addr list \<Rightarrow> sched \<Rightarrow> sched" where
  "ur_finish t arr s =
     (let s = ur_relink 0 arr s;
          s = upd_vtx (arr ! 0) (\<lambda>r. r\<lparr>previtem := None\<rparr>) s;
          s = upd_vtx (arr ! (length arr - 1)) (\<lambda>r. r\<lparr>nextitem := None\<rparr>) s
      in upd_thr t (\<lambda>r. r\<lparr>thvertices := Some (arr ! 0), nextfeed := Some (arr ! 0),
                          lastthvertex := Some (arr ! (length arr - 1)), unfed := int (length arr)\<rparr>) s)"

text \<open>
  The result is \<open>None\<close> when the thread has no vertices (the code then writes through \<open>ur_arr[-1]\<close>) or
  when its chain has no end.
\<close>

definition thread_vertex_shuffle ::
  "((addr \<Rightarrow> addr \<Rightarrow> int) \<Rightarrow> addr list \<Rightarrow> addr list) \<Rightarrow> ulong \<Rightarrow> addr \<Rightarrow> nat \<Rightarrow> rng \<Rightarrow> sched \<Rightarrow> (sched \<times> nat \<times> rng) option" where
  "thread_vertex_shuffle qsort clock t ur_size r s =
     (let ur_size = (if ur_size = 0 then 100 else ur_size)
      in case ur_collect (\<lambda>v. nextitem (vtxs s v)) (thvertices (thrs s t)) [] ur_size of
           None \<Rightarrow> None
         | Some (arr, ur_size) \<Rightarrow>
             if arr = [] then None
             else
               let (arr, r) =
                     (if cfg_flag CFG_AGEORDER (ce (grps s (t_thgrp (thrs s t))))
                      then (if length arr > 1 then qsort (vtx_mtime_cmp s) arr else arr, r)
                      else ur_random clock 0 arr r)
               in Some (ur_finish t arr s, ur_size, r))"

section \<open>Collecting\<close>

lemma ur_collect_seg:
  "dseg n p a xs None \<Longrightarrow> 0 < u \<Longrightarrow> length arr \<le> u \<Longrightarrow>
     \<exists>u'. ur_collect n (firstp xs None) arr u = Some (arr @ xs, u') \<and> length (arr @ xs) \<le> u' \<and> u \<le> u'"
proof (induction xs arbitrary: a arr u)
  case Nil
  then show ?case by (subst ur_collect.simps) simp
next
  case (Cons x xs)
  define u1 where "u1 = (if length arr \<ge> u then u * 2 else u)"
  have u1: "0 < u1" "length (arr @ [x]) \<le> u1" "u \<le> u1" using Cons.prems(2,3) by (auto simp: u1_def)
  obtain u' where r: "ur_collect n (firstp xs None) (arr @ [x]) u1 = Some ((arr @ [x]) @ xs, u')" "length ((arr @ [x]) @ xs) \<le> u'" "u1 \<le> u'"
    using Cons.IH [of "Some x" u1 "arr @ [x]"] Cons.prems(1) u1 by auto
  have "ur_collect n (firstp (x # xs) None) arr u = ur_collect n (n x) (arr @ [x]) u1" by (subst ur_collect.simps) (simp add: u1_def)
  then show ?case using r u1(3) Cons.prems(1) by (intro exI [of _ u']) simp
qed

section \<open>Permuting\<close>

lemma ranny_below:
  assumes "0 < n" "n < 2 ^ 32"
  shows "unat (fst (ranny clock (word_of_nat (n - 1)) r)) < n"
proof -
  have u: "unat (word_of_nat (n - 1) :: 32 word) = n - 1" unfolding unsigned_of_nat using assms by (simp add: take_bit_nat_eq_self_iff)
  have "(word_of_nat (n - 1) :: 32 word) \<noteq> - 1"
  proof
    assume "(word_of_nat (n - 1) :: 32 word) = - 1"
    then have "n - 1 = unat (- 1 :: 32 word)" using u by simp
    then show False using assms by (simp add: unsigned_minus_1_eq_mask mask_eq_exp_minus_1)
  qed
  then have "fst (ranny clock (word_of_nat (n - 1)) r) \<le> word_of_nat (n - 1)" by (rule ranny_le)
  then show ?thesis using u assms(1) by (simp add: word_le_nat_alt)
qed

lemma ur_random_mset: "length arr < 2 ^ 32 \<Longrightarrow> mset (fst (ur_random clock i arr r)) = mset arr"
proof (induction clock i arr r rule: ur_random.induct)
  case (1 clock i arr r)
  show ?case
  proof (cases "i < length arr")
    case False
    then show ?thesis by (subst ur_random.simps) simp
  next
    case True
    obtain w r' where w: "ranny clock (word_of_nat (length arr - 1)) r = (w, r')" by fastforce
    have "0 < length arr" using True by (rule le_less_trans [OF le0])
    then have ni: "unat w < length arr" using ranny_below [OF _ "1.prems", of clock r] unfolding w by simp
    have "mset (fst (ur_random clock (i + 1) (arr[i := arr ! unat w, unat w := arr ! i]) r')) = mset (arr[i := arr ! unat w, unat w := arr ! i])"
      by (rule "1.IH" [OF True w [symmetric] refl refl]) (use "1.prems" in simp)
    then show ?thesis using True w mset_swap [OF ni True] by (subst ur_random.simps) (simp add: Let_def)
  qed
qed

section \<open>Relinking\<close>

lemma ur_relink_links:
  "distinct arr \<Longrightarrow> j < length arr \<Longrightarrow>
     nextitem (vtxs (ur_relink i arr s) (arr ! j)) = (if i \<le> j \<and> j < length arr - 1 then Some (arr ! (j + 1)) else nextitem (vtxs s (arr ! j))) \<and>
     previtem (vtxs (ur_relink i arr s) (arr ! j)) = (if i \<le> j \<and> 0 < j then Some (arr ! (j - 1)) else previtem (vtxs s (arr ! j)))"
proof (induction i arr s rule: ur_relink.induct)
  case (1 i arr s)
  show ?case
  proof (cases "i < length arr")
    case False
    then show ?thesis using "1.prems" by (subst (1 2) ur_relink.simps) auto
  next
    case True
    define s1 where "s1 = (if i > 0 then upd_vtx (arr ! i) (\<lambda>r. r\<lparr>previtem := Some (arr ! (i - 1))\<rparr>) s else s)"
    define s2 where "s2 = (if i < length arr - 1 then upd_vtx (arr ! i) (\<lambda>r. r\<lparr>nextitem := Some (arr ! (i + 1))\<rparr>) s1 else s1)"
    note ih = "1.IH" [OF True s1_def s2_def "1.prems"]
    have eq: "arr ! j = arr ! i \<longleftrightarrow> j = i" using "1.prems" True by (simp add: nth_eq_iff_index_eq)
    have "ur_relink i arr s = ur_relink (i + 1) arr s2" using True by (simp add: ur_relink.simps [of i] s1_def s2_def Let_def)
    moreover have "nextitem (vtxs s2 (arr ! j)) = (if j = i \<and> i < length arr - 1 then Some (arr ! (i + 1)) else nextitem (vtxs s (arr ! j)))"
      "previtem (vtxs s2 (arr ! j)) = (if j = i \<and> i > 0 then Some (arr ! (i - 1)) else previtem (vtxs s (arr ! j)))"
      using eq by (simp_all add: s1_def s2_def)
    ultimately show ?thesis using ih by auto
  qed
qed

lemma ur_relink_frame:
  "thrs (ur_relink i arr s) = thrs s \<and> grps (ur_relink i arr s) = grps s \<and> thread_head (ur_relink i arr s) = thread_head s \<and>
   thread_tail (ur_relink i arr s) = thread_tail s \<and> thrg_root (ur_relink i arr s) = thrg_root s \<and> thr_live (ur_relink i arr s) = thr_live s \<and>
   grp_live (ur_relink i arr s) = grp_live s \<and> brk (ur_relink i arr s) = brk s \<and>
   (a \<notin> set arr \<longrightarrow> vtxs (ur_relink i arr s) a = vtxs s a) \<and> v_thread (vtxs (ur_relink i arr s) a) = v_thread (vtxs s a) \<and>
   orig_chan (vtxs (ur_relink i arr s) a) = orig_chan (vtxs s a) \<and> orig_host (vtxs (ur_relink i arr s) a) = orig_host (vtxs s a)"
proof (induction i arr s rule: ur_relink.induct)
  case (1 i arr s)
  show ?case
  proof (cases "i < length arr")
    case False
    then show ?thesis by (simp add: ur_relink.simps [of i])
  next
    case True
    define s1 where "s1 = (if i > 0 then upd_vtx (arr ! i) (\<lambda>r. r\<lparr>previtem := Some (arr ! (i - 1))\<rparr>) s else s)"
    define s2 where "s2 = (if i < length arr - 1 then upd_vtx (arr ! i) (\<lambda>r. r\<lparr>nextitem := Some (arr ! (i + 1))\<rparr>) s1 else s1)"
    note ih = "1.IH" [OF True s1_def s2_def]
    have "a \<notin> set arr \<Longrightarrow> a \<noteq> arr ! i" using True by auto
    moreover have "ur_relink i arr s = ur_relink (i + 1) arr s2" using True by (simp add: ur_relink.simps [of i] s1_def s2_def Let_def)
    ultimately show ?thesis using ih by (simp add: s1_def s2_def)
  qed
qed

lemma dseg_nth:
  "(\<And>j. j < length xs \<Longrightarrow> p (xs ! j) = (if j = 0 then a else Some (xs ! (j - 1))) \<and>
      n (xs ! j) = (if j + 1 < length xs then Some (xs ! (j + 1)) else b)) \<Longrightarrow> dseg n p a xs b"
proof (induction xs arbitrary: a)
  case (Cons x xs)
  have "dseg n p (Some x) xs b"
  proof (rule Cons.IH)
    fix j
    assume "j < length xs"
    then show "p (xs ! j) = (if j = 0 then Some x else Some (xs ! (j - 1))) \<and> n (xs ! j) = (if j + 1 < length xs then Some (xs ! (j + 1)) else b)"
      using Cons.prems [of "Suc j"] by (cases j) auto
  qed
  then show ?case using Cons.prems [of 0] by (cases xs) auto
qed simp

lemma ur_finish_chain:
  assumes "distinct arr" "arr \<noteq> []"
  shows "vchain (ur_finish t arr s) t arr"
proof -
  let ?s = "ur_finish t arr s"
  have n: "0 < length arr" using assms(2) by simp
  have "dseg (\<lambda>v. nextitem (vtxs ?s v)) (\<lambda>v. previtem (vtxs ?s v)) None arr None"
  proof (rule dseg_nth)
    fix j
    assume j: "j < length arr"
    have e: "arr ! j = arr ! 0 \<longleftrightarrow> j = 0" "arr ! j = arr ! (length arr - 1) \<longleftrightarrow> j = length arr - 1"
      using assms(1) j n by (simp_all add: nth_eq_iff_index_eq)
    show "previtem (vtxs ?s (arr ! j)) = (if j = 0 then None else Some (arr ! (j - 1))) \<and>
        nextitem (vtxs ?s (arr ! j)) = (if j + 1 < length arr then Some (arr ! (j + 1)) else None)"
    proof -
      have "previtem (vtxs ?s (arr ! j)) = (if arr ! j = arr ! 0 then None else previtem (vtxs (ur_relink 0 arr s) (arr ! j)))"
        "nextitem (vtxs ?s (arr ! j)) = (if arr ! j = arr ! (length arr - 1) then None else nextitem (vtxs (ur_relink 0 arr s) (arr ! j)))"
        by (auto simp: ur_finish_def Let_def)
      then have "previtem (vtxs ?s (arr ! j)) = (if j = 0 then None else previtem (vtxs (ur_relink 0 arr s) (arr ! j)))"
        "nextitem (vtxs ?s (arr ! j)) = (if j = length arr - 1 then None else nextitem (vtxs (ur_relink 0 arr s) (arr ! j)))"
        unfolding e .
      moreover have "j = length arr - 1 \<longleftrightarrow> \<not> j + 1 < length arr" "j < length arr - 1 \<longleftrightarrow> j + 1 < length arr" using j by auto
      ultimately show ?thesis
        using ur_relink_links [OF assms(1) j, of 0 s] by (cases "j = 0"; cases "j + 1 < length arr") (simp_all only: if_True if_False simp_thms, simp_all)
    qed
  qed
  then show ?thesis
    using assms by (simp add: vchain_def dlist_def ur_finish_def Let_def firstp_def lastp_def last_conv_nth hd_conv_nth split: list.splits)
qed


section \<open>What the shuffle does to the queue\<close>

text \<open>The documented behaviour of \<open>qsort\<close>, for a comparison that is a total preorder.\<close>

definition total_cmp :: "(addr \<Rightarrow> addr \<Rightarrow> int) \<Rightarrow> bool" where
  "total_cmp cmp \<longleftrightarrow> (\<forall>a b. cmp a b \<le> 0 \<or> cmp b a \<le> 0) \<and> (\<forall>a b c. cmp a b \<le> 0 \<longrightarrow> cmp b c \<le> 0 \<longrightarrow> cmp a c \<le> 0)"

definition qsort_spec :: "((addr \<Rightarrow> addr \<Rightarrow> int) \<Rightarrow> addr list \<Rightarrow> addr list) \<Rightarrow> bool" where
  "qsort_spec qs \<longleftrightarrow> (\<forall>cmp xs. mset (qs cmp xs) = mset xs \<and> (total_cmp cmp \<longrightarrow> sorted_wrt (\<lambda>a b. cmp a b \<le> 0) (qs cmp xs)))"

lemma vtx_mtime_cmp_le:
  "vtx_mtime_cmp s a b \<le> 0 \<longleftrightarrow>
     v_mtime (vtxs s a) < v_mtime (vtxs s b) \<or> v_mtime (vtxs s a) = v_mtime (vtxs s b) \<and> v_mtimens (vtxs s a) \<le> v_mtimens (vtxs s b)"
  by (simp add: vtx_mtime_cmp_def)

lemma vtx_mtime_cmp_total: "total_cmp (vtx_mtime_cmp s)"
  by (auto simp: total_cmp_def vtx_mtime_cmp_le)

definition shuffled :: "sched \<Rightarrow> addr \<Rightarrow> addr list \<Rightarrow> addr list \<Rightarrow> bool" where
  "shuffled s t xs vs \<longleftrightarrow> mset vs = mset xs \<and>
     (cfg_flag CFG_AGEORDER (ce (grps s (t_thgrp (thrs s t)))) \<longrightarrow> sorted_wrt (\<lambda>a b. vtx_mtime_cmp s a b \<le> 0) vs)"

lemma shuffle_result:
  assumes "vchain s t xs" "xs \<noteq> []" "length xs < 2 ^ 32" "qsort_spec qs"
  shows "\<exists>vs u' r'. thread_vertex_shuffle qs clock t u r s = Some (ur_finish t vs s, u', r') \<and> length vs \<le> u' \<and> shuffled s t xs vs"
proof -
  define u0 where "u0 = (if u = 0 then 100 else u)"
  have pos: "0 < u0" by (simp add: u0_def)
  have c: "dseg (\<lambda>v. nextitem (vtxs s v)) (\<lambda>v. previtem (vtxs s v)) None xs None" "thvertices (thrs s t) = firstp xs None"
    using assms(1) by (auto simp: vchain_def dlist_def)
  obtain u' where u: "ur_collect (\<lambda>v. nextitem (vtxs s v)) (thvertices (thrs s t)) [] u0 = Some (xs, u')" "length xs \<le> u'"
    using ur_collect_seg [OF c(1), of u0 "[]"] c(2) pos by auto
  have one: "sorted_wrt (\<lambda>a b. vtx_mtime_cmp s a b \<le> 0) xs" if "\<not> length xs > 1" using that by (cases xs rule: remdups_adj.cases) auto
  show ?thesis
  proof (cases "cfg_flag CFG_AGEORDER (ce (grps s (t_thgrp (thrs s t))))")
    case True
    define vs where "vs = (if length xs > 1 then qs (vtx_mtime_cmp s) xs else xs)"
    have m: "shuffled s t xs vs" using assms(4) vtx_mtime_cmp_total one by (auto simp: shuffled_def vs_def qsort_spec_def)
    moreover have "length vs = length xs" using m mset_eq_length by (auto simp: shuffled_def)
    moreover have "thread_vertex_shuffle qs clock t u r s = Some (ur_finish t vs s, u', r)"
      using u True assms(2) by (simp add: thread_vertex_shuffle_def Let_def vs_def flip: u0_def)
    ultimately show ?thesis using u(2) by auto
  next
    case False
    have m: "mset (fst (ur_random clock 0 xs r)) = mset xs" by (rule ur_random_mset [OF assms(3)])
    then have "length (fst (ur_random clock 0 xs r)) = length xs" by (rule mset_eq_length)
    then show ?thesis
      using u False assms(2) m
      by (intro exI [of _ "fst (ur_random clock 0 xs r)"]) (simp add: thread_vertex_shuffle_def Let_def shuffled_def case_prod_unfold flip: u0_def)
  qed
qed

lemma ur_finish_frame:
  "same_frame s (ur_finish t arr s)" "u \<noteq> t \<Longrightarrow> thrs (ur_finish t arr s) u = thrs s u"
  "jobs (thrs (ur_finish t arr s) t) = jobs (thrs s t)" "nextfeed (thrs (ur_finish t arr s) t) = Some (arr ! 0)"
  "unfed (thrs (ur_finish t arr s) t) = int (length arr)"
  "t_wchan (thrs (ur_finish t arr s) t) = t_wchan (thrs s t)" "t_whost (thrs (ur_finish t arr s) t) = t_whost (thrs s t)"
  using ur_relink_frame [of 0 arr s] by (auto simp: ur_finish_def Let_def same_frame_def)

lemma ur_finish_vtxs:
  assumes "arr \<noteq> []"
  shows "a \<notin> set arr \<Longrightarrow> vtxs (ur_finish t arr s) a = vtxs s a"
    "v_thread (vtxs (ur_finish t arr s) a) = v_thread (vtxs s a)"
    "orig_chan (vtxs (ur_finish t arr s) a) = orig_chan (vtxs s a)" "orig_host (vtxs (ur_finish t arr s) a) = orig_host (vtxs s a)"
proof -
  have "arr ! 0 \<in> set arr" "arr ! (length arr - 1) \<in> set arr" using assms by simp_all
  then show "a \<notin> set arr \<Longrightarrow> vtxs (ur_finish t arr s) a = vtxs s a"
    using ur_relink_frame [of 0 arr s a] by (auto simp: ur_finish_def Let_def)
  show "v_thread (vtxs (ur_finish t arr s) a) = v_thread (vtxs s a)"
    "orig_chan (vtxs (ur_finish t arr s) a) = orig_chan (vtxs s a)" "orig_host (vtxs (ur_finish t arr s) a) = orig_host (vtxs s a)"
    by (simp_all add: ur_finish_def Let_def ur_relink_frame)
qed

lemma sched_ok_finish:
  assumes "sched_ok cfgs s q" "t \<in> thr_live s" "mset vs = mset (q (thread_key s t))" "vs \<noteq> []"
  shows "sched_ok cfgs (ur_finish t vs s) (q(thread_key s t := vs))"
proof -
  note o = sched_okD [OF assms(1)]
  have h: "holds s t (q (thread_key s t))" by (rule queuesD(1) [OF o(3) assms(2)])
  have e: "set vs = set (q (thread_key s t))" "length vs = length (q (thread_key s t))" "distinct vs"
    using assms(3) mset_eq_setD mset_eq_length queues_distinct [OF o(3)] mset_eq_imp_distinct_iff by blast+
  have "vs ! 0 \<in> set (q (thread_key s t))" using e(1) nth_mem [of 0 vs] assms(4) by simp
  then have "holds (ur_finish t vs s) t vs"
    using ur_finish_chain [OF e(3) assms(4)] h e assms(4) by (auto simp: holds_def ur_finish_frame ur_finish_vtxs)
  moreover have "vtxs (ur_finish t vs s) v = vtxs s v" if "v_thread (vtxs s v) \<noteq> Some t" for v
    using that h e(1) assms(4) by (intro ur_finish_vtxs(1)) (auto simp: holds_def)
  ultimately show ?thesis
    using sched_ok_vertices [OF assms(1) ur_finish_frame(1) assms(2)] ur_finish_frame(2) by blast
qed

end
