(* ===== verification/Reachable.thy ===== *)
theory Reachable
  imports Shuffle
begin

text \<open>
  The states the thread structures of the scheduler can reach, and the properties of \<^verbatim>\<open>scheduler/threads.c\<close> that hold in
  all of them: consistency of the structures, refinement of the abstract queue by linking in and taking out, round robin of
  the time chain, and the count of the recipients.
\<close>

section \<open>Reachable states\<close>

definition vertex_zero :: vertex where
  "vertex_zero = \<lparr>v_mtime = 0, v_mtimens = 0, orig_chan = 0, orig_host = 0, v_thread = None, v_thgrp = None,
     nextitem = None, previtem = None, ce_pending = 0, ce_expiry = 0, ce_expiry2 = 0, v_attempts = 0\<rparr>"

definition proc_zero :: procinfo where
  "proc_zero = \<lparr>p_pid = 0, p_tofd = 0, p_state = 0, hungertime = 0, overfed = 0, p_ch = None, p_ho = None, p_thg = 0, pthread = None,
     pnext = None, pprev = None, cmdlen = 0\<rparr>"

definition sched_init :: sched where
  "sched_init = \<lparr>spt_mesh = spt_mesh web_init, webs = webs web_init, web_live = web_live web_init, brk = brk web_init,
     thrs = (\<lambda>_. thread_zero), grps = (\<lambda>_. group_zero), vtxs = (\<lambda>_. vertex_zero), prcs = (\<lambda>_. proc_zero), thr_live = {}, grp_live = {},
     thread_head = None, thread_tail = None, thrg_root = None, last_groupid = 0, last_threadid = 0, idleprocs = 0,
     StoredThreadsSc = 0, TransportAgentsActiveSc = 0, TransportAgentsIdleSc = 0\<rparr>"

lemma sched_init_ok: "sched_ok cfgs sched_init (\<lambda>_. [])"
proof -
  have "grpring sched_init []" "tchain sched_init []" by (simp_all add: sched_init_def grpring_def tchain_def)
  then have "groups_ok cfgs sched_init" "threads_ok sched_init" "queues sched_init (\<lambda>_. [])"
    by (auto simp: sched_init_def groups_ok_def threads_ok_def linked_def queues_def intro: exI [of _ "[]"])
  then show ?thesis by (simp add: sched_ok_def)
qed

definition unlinked :: "sched \<Rightarrow> (tkey \<Rightarrow> addr list) \<Rightarrow> bool" where
  "unlinked s q \<longleftrightarrow> (\<forall>v. unqueued q v \<longrightarrow> nextitem (vtxs s v) = None \<and> previtem (vtxs s v) = None)"

text \<open>
  What may happen: names are interned, vertices are made (\<open>vtx_new\<close>: the links are null), linked in and taken out, threads are
  requeued, their vertices shuffled, empty threads and idle groups dropped.  The second component is the abstract queue.
\<close>

inductive reach :: "(addr \<Rightarrow> config_entry) \<Rightarrow> (addr \<Rightarrow> config_entry) \<Rightarrow> sched \<Rightarrow> (tkey \<Rightarrow> addr list) \<Rightarrow> bool" for cfgs fill where
  init: "reach cfgs fill sched_init (\<lambda>_. [])"
| web: "reach cfgs fill s q \<Longrightarrow> web_findcreate flag name s = (w, s') \<Longrightarrow> reach cfgs fill s' q"
| vertex: "reach cfgs fill s q \<Longrightarrow> unqueued q v \<Longrightarrow> nextitem r = None \<Longrightarrow> previtem r = None \<Longrightarrow>
    reach cfgs fill (upd_vtx v (\<lambda>_. r) s) q"
| link: "reach cfgs fill s q \<Longrightarrow> unqueued q v \<Longrightarrow> linkin_thread cfgs fill tm v cfg s = Some (t, s') \<Longrightarrow>
    reach cfgs fill s' (q(vertex_key cfg s v := q (vertex_key cfg s v) @ [v]))"
| detangle: "reach cfgs fill s q \<Longrightarrow> v \<in> set (q k) \<Longrightarrow> reach cfgs fill (web_detangle v s) (q(k := remove1 v (q k)))"
| requeue: "reach cfgs fill s q \<Longrightarrow> t \<in> thr_live s \<Longrightarrow> reach cfgs fill (thread_timechain_append t (thread_timechain_unlink t s)) q"
| shuffle: "reach cfgs fill s q \<Longrightarrow> t \<in> thr_live s \<Longrightarrow> length (q (thread_key s t)) < 2 ^ 32 \<Longrightarrow> qsort_spec qs \<Longrightarrow>
    thread_vertex_shuffle qs clock t u r s = Some (s', u', r') \<Longrightarrow> vchain s' t vs \<Longrightarrow> reach cfgs fill s' (q(thread_key s t := vs))"
| drop: "reach cfgs fill s q \<Longrightarrow> t \<in> thr_live s \<Longrightarrow> reach cfgs fill (snd (delete_thread t s)) q"
| drop_group: "reach cfgs fill s q \<Longrightarrow> g \<in> grp_live s \<Longrightarrow> delete_threadgroup g s = Some s' \<Longrightarrow> reach cfgs fill s' q"

lemma web_findcreate_frame:
  fixes s :: sched
  assumes "web_findcreate f n s = (w, s')"
  shows "thrs s' = thrs s" "grps s' = grps s" "vtxs s' = vtxs s" "thread_head s' = thread_head s" "thread_tail s' = thread_tail s"
    "thrg_root s' = thrg_root s" "thr_live s' = thr_live s" "grp_live s' = grp_live s" "brk s \<le> brk s'"
  using assms by (auto simp: web_findcreate_def Let_def split: prod.splits option.splits)

lemma sched_ok_grow:
  assumes "sched_ok cfgs s q" "thrs s' = thrs s" "grps s' = grps s" "thread_head s' = thread_head s" "thread_tail s' = thread_tail s"
    "thrg_root s' = thrg_root s" "thr_live s' = thr_live s" "grp_live s' = grp_live s" "brk s \<le> brk s'"
    "\<And>v. unqueued q v \<or> vtxs s' v = vtxs s v"
  shows "sched_ok cfgs s' q"
proof -
  note o = sched_okD [OF assms(1)]
  have "grpring s' = grpring s" by (rule ext) (simp add: grpring_def assms)
  then have 1: "groups_ok cfgs s'" using o(1) assms(3,8,9) by (auto simp: groups_ok_def)
  have "linked (thr_live s) s'"
    by (rule linked_frame [OF threads_okD(1) [OF o(2)]]) (use assms threads_okD(4) [OF o(2)] in auto)
  moreover have k: "thread_key s' = thread_key s" by (rule ext) (simp add: thread_key_def assms)
  ultimately have 2: "threads_ok s'" using o(2) assms(2,3,7,9) by (auto simp: threads_ok_def on_route_def)
  have "holds s' t (q (thread_key s t))" if "t \<in> thr_live s" for t
    using queuesD(1) [OF o(3) that] by (rule holds_frame) (use assms(2,10) in \<open>auto simp: unqueued_def\<close>)
  then have "queues s' q" using o(3) assms(7) k by (simp add: queues_def)
  then show ?thesis using 1 2 by (simp add: sched_ok_def)
qed

lemma detangle_links:
  assumes "sched_ok cfgs s q" "v \<in> set (q k)"
  shows "nextitem (vtxs (web_detangle v s) v) = None" "previtem (vtxs (web_detangle v s) v) = None"
    "unqueued q w \<Longrightarrow> vtxs (web_detangle v s) w = vtxs s w"
proof -
  have d: "vtxs (web_detangle v s) = vtxs (unthread (v_thread (vtxs s v)) v s)"
    by (simp add: web_detangle_def delete_thread_def Let_def split: option.splits)
  obtain t where t: "t \<in> thr_live s" "thread_key s t = k" "v_thread (vtxs s v) = Some t"
    using queuesD(3) [OF sched_okD(3) [OF assms(1)] assms(2)] by blast
  have "vchain s t (q k)" using queuesD(1) [OF sched_okD(3) [OF assms(1)] t(1)] t(2) by (simp add: holds_def)
  note m = vchain_member [OF this assms(2)]
  show "nextitem (vtxs (web_detangle v s) v) = None" "previtem (vtxs (web_detangle v s) v) = None"
    unfolding d by (simp_all add: unthread_vtxs)
  show "vtxs (web_detangle v s) w = vtxs s w" if "unqueued q w"
    unfolding d using that m assms(2) by (intro unthread_vtxs(6)) (auto simp: unqueued_def)
qed

lemma unqueued_upd:
  "unqueued (q(k := q k @ [v])) w \<longleftrightarrow> unqueued q w \<and> w \<noteq> v"
  "distinct (q k) \<Longrightarrow> unqueued (q(k := remove1 v (q k))) w \<Longrightarrow> unqueued q w \<or> w = v"
  by (auto simp: unqueued_def split: if_splits)

lemma shuffle_vs:
  assumes "sched_ok cfgs s q" "t \<in> thr_live s" "length (q (thread_key s t)) < 2 ^ 32" "qsort_spec qs"
    "thread_vertex_shuffle qs clock t u r s = Some (s', u', r')" "vchain s' t vs"
  obtains ws where "s' = ur_finish t ws s" "vs = ws" "ws \<noteq> []" "mset ws = mset (q (thread_key s t))"
proof -
  have c: "vchain s t (q (thread_key s t))" using queuesD(1) [OF sched_okD(3) [OF assms(1)] assms(2)] by (simp add: holds_def)
  have ne: "q (thread_key s t) \<noteq> []"
  proof
    assume "q (thread_key s t) = []"
    then have "thvertices (thrs s t) = None" using c by (simp add: vchain_def dlist_def)
    then show False using assms(5) by (simp add: thread_vertex_shuffle_def ur_collect.simps)
  qed
  obtain ws where w: "s' = ur_finish t ws s" "mset ws = mset (q (thread_key s t))"
    using shuffle_result [OF c ne assms(3,4), of clock u r] assms(5) by (auto simp: shuffled_def)
  have "ws \<noteq> []" "distinct ws"
    using w(2) ne mset_eq_imp_distinct_iff [OF w(2)] queues_distinct [OF sched_okD(3) [OF assms(1)]] by auto
  then have "vs = ws" using waiting.unique_members [OF assms(6)] ur_finish_chain w(1) by blast
  then show thesis using that w \<open>ws \<noteq> []\<close> by blast
qed

lemma reach_ok: "reach cfgs fill s q \<Longrightarrow> sched_ok cfgs s q \<and> unlinked s q"
proof (induction rule: reach.induct)
  case init
  then show ?case using sched_init_ok by (simp add: unlinked_def) (simp add: sched_init_def vertex_zero_def)
next
  case (web s q flag name w s')
  note f = web_findcreate_frame [OF web.hyps(2)]
  have "sched_ok cfgs s' q" by (rule sched_ok_grow [OF conjunct1 [OF web.IH]]) (simp_all add: f)
  then show ?case using web.IH f(3) by (simp add: unlinked_def)
next
  case (vertex s q v r)
  have "sched_ok cfgs (upd_vtx v (\<lambda>_. r) s) q"
    by (rule sched_ok_grow [OF conjunct1 [OF vertex.IH]]) (use vertex.hyps(2) in auto)
  then show ?case using vertex by (simp add: unlinked_def)
next
  case (link s q v tm cfg t s')
  then have l: "nextitem (vtxs s v) = None" "previtem (vtxs s v) = None" and o: "sched_ok cfgs s q" by (simp_all add: unlinked_def)
  have r: "sched_ok cfgs s' (q(vertex_key cfg s v := q (vertex_key cfg s v) @ [v]))" "\<And>w. w \<noteq> v \<Longrightarrow> unqueued q w \<Longrightarrow> vtxs s' w = vtxs s w"
    using linkin_simulates [OF o link.hyps(2) l, of fill tm cfg] link.hyps(3) by auto
  have "unlinked s' (q(vertex_key cfg s v := q (vertex_key cfg s v) @ [v]))"
    unfolding unlinked_def unqueued_upd(1) using r(2) link.IH by (simp add: unlinked_def)
  with r(1) show ?case by blast
next
  case (detangle s q v k)
  then have o: "sched_ok cfgs s q" by blast
  note d = queues_distinct [OF sched_okD(3) [OF o], of k] and l = detangle_links [OF o detangle.hyps(2)]
  have "nextitem (vtxs (web_detangle v s) w) = None \<and> previtem (vtxs (web_detangle v s) w) = None"
    if "unqueued (q(k := remove1 v (q k))) w" for w
    using unqueued_upd(2) [OF d that] l l(3) [of w] detangle.IH by (auto simp: unlinked_def)
  then show ?case using sched_ok_detangle [OF o detangle.hyps(2)] unfolding unlinked_def by blast
next
  case (requeue s q t)
  then show ?case using sched_ok_requeue by (simp add: unlinked_def)
next
  case (shuffle s q t qs clock u r s' u' r' vs)
  then have o: "sched_ok cfgs s q" by blast
  obtain ws where w: "s' = ur_finish t ws s" "vs = ws" "ws \<noteq> []" "mset ws = mset (q (thread_key s t))"
    by (rule shuffle_vs [OF o shuffle.hyps(2-6)])
  have "nextitem (vtxs s' w) = None \<and> previtem (vtxs s' w) = None" if "unqueued (q(thread_key s t := ws)) w" for w
  proof -
    have "w \<notin> set ws" "unqueued q w" using that mset_eq_setD [OF w(4)] by (auto simp: unqueued_def split: if_splits)
    then show ?thesis using shuffle.IH ur_finish_vtxs(1) [OF w(3)] by (simp add: w(1) unlinked_def)
  qed
  then have "unlinked s' (q(thread_key s t := vs))" unfolding unlinked_def w(2) by blast
  then show ?case using sched_ok_finish [OF o shuffle.hyps(2) w(4,3)] unfolding w(1,2) by blast
next
  case (drop s q t)
  then show ?case using sched_ok_delete_thread by (auto simp: unlinked_def delete_thread_def Let_def)
next
  case (drop_group s q g s')
  then show ?case using sched_ok_delete_group [of cfgs s q g s'] by (simp add: unlinked_def)
qed


section \<open>The number of queued recipient groups\<close>

lemma ring_sum_suffix:
  assumes "ring n p (ys @ zs)" "zs \<noteq> []" "\<And>x. x \<in> set zs \<Longrightarrow> f x = Some (d x)"
  shows "ring_sum n f (hd (ys @ zs)) (hd zs) (ys = []) acc = Some (acc + sum_list (map d zs))"
  using assms
proof (induction zs arbitrary: ys acc)
  case (Cons z zs)
  have e: "z \<noteq> hd (ys @ z # zs)" if "ys \<noteq> []" using that Cons.prems(1) by (cases ys) (auto simp: ring_def)
  have step: "ring_sum n f (hd (ys @ z # zs)) z (ys = []) acc = ring_sum n f (hd (ys @ z # zs)) (the (n z)) False (acc + d z)"
    using e Cons.prems(3) by (subst ring_sum.simps) auto
  show ?case
  proof (cases zs)
    case Nil
    then have "n z = Some (hd (ys @ z # zs))" using ring_next_last [OF Cons.prems(1)] by simp
    then show ?thesis using step Nil by (simp add: ring_sum.simps [of n f "hd (ys @ [z])" "hd (ys @ [z])"])
  next
    case (Cons z' zs')
    have "n z = Some (hd zs)" using Cons.prems(1) Cons by (auto simp: ring_def dseg_append)
    moreover have "ring_sum n f (hd ((ys @ [z]) @ zs)) (hd zs) (ys @ [z] = []) (acc + d z) = Some (acc + d z + sum_list (map d zs))"
      using Cons.prems(1,3) Cons by (intro Cons.IH) auto
    ultimately show ?thesis using step by (simp add: add.assoc)
  qed
qed simp

lemma ring_sum_ring:
  assumes "ring n p xs" "x \<in> set xs" "\<And>y. y \<in> set xs \<Longrightarrow> f y = Some (d y)"
  shows "ring_sum n f x x True 0 = Some (\<Sum>y\<in>set xs. d y)"
proof -
  obtain us vs where "xs = us @ x # vs" using assms(2) by (meson split_list)
  then have r: "ring n p (x # (vs @ us))" "set (x # (vs @ us)) = set xs"
    using assms(1) ring_rotate_to [of n p us "x # vs"] by auto
  then have "distinct (x # (vs @ us))" by (simp add: ring_def)
  then have "sum_list (map d (x # (vs @ us))) = (\<Sum>y\<in>set xs. d y)" unfolding r(2) [symmetric] by (rule sum_list_distinct_conv_sum_set)
  moreover have "ring_sum n f x x True 0 = Some (0 + sum_list (map d (x # (vs @ us))))"
    using ring_sum_suffix [of n p "[]" "x # (vs @ us)" f d 0] r assms(3) by auto
  ultimately show ?thesis by (simp only: add_0)
qed

lemma count_group:
  assumes "sched_ok cfgs s q" "g \<in> grp_live s"
  shows "(case g_thread (grps s g) of None \<Rightarrow> Some 0
      | Some t \<Rightarrow> ring_sum (\<lambda>t. t_nextthg (thrs s t)) (\<lambda>t. Some (jobs (thrs s t))) t t True 0) =
    Some (\<Sum>t\<in>{t \<in> thr_live s. t_thgrp (thrs s t) = g}. jobs (thrs s t))"
proof -
  obtain ys where y: "gring s g ys" "set ys = {t \<in> thr_live s. t_thgrp (thrs s t) = g}"
    using linkedD(3) [OF threads_okD(1) [OF sched_okD(2) [OF assms(1)]] assms(2)] by blast
  show ?thesis
  proof (cases "ys = []")
    case True
    then show ?thesis using y by (simp add: gring_def flip: y(2))
  next
    case False
    then obtain t where "g_thread (grps s g) = Some t" "t \<in> set ys" "ring (\<lambda>t. t_nextthg (thrs s t)) (\<lambda>t. t_prevthg (thrs s t)) ys"
      using y(1) by (auto simp: gring_def)
    then show ?thesis using ring_sum_ring [of _ _ ys t "\<lambda>t. Some (jobs (thrs s t))" "\<lambda>t. jobs (thrs s t)"] y(2) by simp
  qed
qed

lemma count_jobs:
  assumes "sched_ok cfgs s q"
  shows "thread_count_recipients s = Some (\<Sum>t\<in>thr_live s. jobs (thrs s t))"
proof -
  note o = sched_okD [OF assms]
  obtain xs where x: "grpring s xs" "set xs = grp_live s" using groups_okD(1) [OF o(1)] by blast
  obtain ts where ts: "set ts = thr_live s" using linkedD(1) [OF threads_okD(1) [OF o(2)]] by auto
  have grp: "t_thgrp (thrs s t) \<in> grp_live s" if "t \<in> thr_live s" for t by (rule threads_okD(4) [OF o(2) that])
  have split: "(\<Sum>t\<in>thr_live s. jobs (thrs s t)) = (\<Sum>g\<in>grp_live s. \<Sum>t\<in>{t \<in> thr_live s. t_thgrp (thrs s t) = g}. jobs (thrs s t))"
    using grp by (intro sum.group [symmetric]) (auto simp flip: x(2) ts)
  show ?thesis
  proof (cases "thrg_root s")
    case None
    then have "grp_live s = {}" using x grpring_empty [OF x(1)] by simp
    then show ?thesis using None split by (simp add: thread_count_recipients_def)
  next
    case (Some rt)
    then have r: "rt \<in> set xs" "ring (\<lambda>g. g_nextthg (grps s g)) (\<lambda>g. g_prevthg (grps s g)) xs" using x(1) by (auto simp: grpring_def split: if_splits)
    show ?thesis
      unfolding thread_count_recipients_def Some option.case split
      using ring_sum_ring [OF r(2,1)] count_group [OF assms] x(2) by simp
  qed
qed

text \<open>The queues of the threads are disjoint, so the jobs add up to the number of vertices that wait.\<close>

lemma jobs_queued:
  assumes "sched_ok cfgs s q"
  shows "(\<Sum>t\<in>thr_live s. jobs (thrs s t)) = int (card {v. \<not> unqueued q v})"
proof -
  note o = sched_okD [OF assms]
  obtain ts where ts: "set ts = thr_live s" using linkedD(1) [OF threads_okD(1) [OF o(2)]] by auto
  have h: "jobs (thrs s t) = int (card (set (q (thread_key s t))))" "v \<in> set (q (thread_key s t)) \<Longrightarrow> v_thread (vtxs s v) = Some t"
    if "t \<in> thr_live s" for t v
    using queuesD(1) [OF o(3) that] queues_distinct [OF o(3)] by (auto simp: holds_def distinct_card)
  have "{v. \<not> unqueued q v} = (\<Union>t\<in>thr_live s. set (q (thread_key s t)))"
    using queuesD(3) [OF o(3)] by (auto simp: unqueued_def)
  moreover have "card (\<Union>t\<in>thr_live s. set (q (thread_key s t))) = (\<Sum>t\<in>thr_live s. card (set (q (thread_key s t))))"
  proof (rule card_UN_disjoint)
    show "finite (thr_live s)" by (simp flip: ts)
    show "\<forall>t\<in>thr_live s. \<forall>u\<in>thr_live s. t \<noteq> u \<longrightarrow> set (q (thread_key s t)) \<inter> set (q (thread_key s u)) = {}"
      using h(2) by (metis disjoint_iff option.inject)
  qed simp
  ultimately show ?thesis using h(1) by simp
qed


section \<open>Properties\<close>

text \<open>A small run: one vertex of channel 4 and host 5 is linked in under configuration entry 3.\<close>

definition demo_cfgs :: "addr \<Rightarrow> config_entry" where
  "demo_cfgs _ = \<lparr>interval = 60, cflags = 0, maxkids = 1, maxkidChannel = 1, maxkidThreads = 1, maxkidThread = 1, idlemax = 0, skew = 1,
     nretries = 1, retries = [1]\<rparr>"

definition demo_new :: sched where
  "demo_new = upd_vtx 1 (\<lambda>_. vertex_zero\<lparr>orig_chan := 4, orig_host := 5\<rparr>) sched_init"

definition demo_queue :: "tkey \<Rightarrow> addr list" where
  "demo_queue = (\<lambda>_. [])(TKey 3 4 5 := [1])"

lemma demo_new_reach: "reach demo_cfgs demo_cfgs demo_new (\<lambda>_. [])"
  unfolding demo_new_def by (rule reach.vertex [OF reach.init]) (simp_all add: unqueued_def vertex_zero_def)

definition demo_sched :: sched where
  "demo_sched = snd (the (linkin_thread demo_cfgs demo_cfgs 0 1 3 demo_new))"

lemma demo_reach: "reach demo_cfgs demo_cfgs demo_sched demo_queue"
proof -
  have v: "nextitem (vtxs demo_new 1) = None" "previtem (vtxs demo_new 1) = None" "vertex_key 3 demo_new 1 = TKey 3 4 5"
    by (simp_all add: demo_new_def vertex_zero_def vertex_key_def)
  obtain t s' where r: "linkin_thread demo_cfgs demo_cfgs 0 1 3 demo_new = Some (t, s')"
    using linkin_simulates [OF conjunct1 [OF reach_ok [OF demo_new_reach]] _ v(1,2), of demo_cfgs 0 3] by (auto simp: unqueued_def)
  have "reach demo_cfgs demo_cfgs s' ((\<lambda>_. [])(vertex_key 3 demo_new 1 := [] @ [1]))"
    by (rule reach.link [OF demo_new_reach _ r]) (simp add: unqueued_def)
  then show ?thesis using r v(3) by (simp add: demo_sched_def demo_queue_def)
qed

text \<open>
  C7: In every state the scheduler can reach, the pointer structures are consistent: the time chain runs through exactly the live
  threads, the ring of each group through its threads (and its count is right), the ring of groups through the live groups; every
  thread's chain holds, in order, the vertices queued for its configuration entry, channel and host, its job count is
  their number, \<open>nextfeed\<close> is null or one of them; no two threads serve the same destination, and a vertex that waits nowhere has null links.
\<close>

theorem scheduler_invariant:
  assumes "reach cfgs fill s q"
  shows "(\<exists>xs. tchain s xs \<and> set xs = thr_live s) \<and>
    (\<forall>g\<in>grp_live s. \<exists>ys. gring s g ys \<and> set ys = {t \<in> thr_live s. t_thgrp (thrs s t) = g} \<and> threads (grps s g) = int (length ys)) \<and>
    (\<exists>gs. grpring s gs \<and> set gs = grp_live s) \<and>
    (\<forall>t\<in>thr_live s. t_thgrp (thrs s t) \<in> grp_live s \<and> on_route s t \<and> holds s t (q (thread_key s t))) \<and>
    inj_on (thread_key s) (thr_live s) \<and> (\<forall>k. k \<notin> thread_key s ` thr_live s \<longrightarrow> q k = []) \<and> unlinked s q"
proof -
  have ok: "sched_ok cfgs s q" "unlinked s q" using reach_ok [OF assms] by simp_all
  note o = sched_okD [OF ok(1)]
  note l = threads_okD [OF o(2)]
  show ?thesis
    using linkedD(1) [OF l(1)] linkedD(3) [OF l(1)] groups_okD(1) [OF o(1)] l(2-4) queuesD(1,2) [OF o(3)] ok(2) by blast
qed

theorem scheduler_invariant_witness:
  "reach demo_cfgs demo_cfgs demo_sched demo_queue \<and> inj_on (thread_key demo_sched) (thr_live demo_sched) \<and> unlinked demo_sched demo_queue"
  using scheduler_invariant [OF demo_reach] demo_reach by blast

text \<open>
  C4: Linking in a vertex that does not wait yet always ends, whatever the rings look like: the vertex is appended to the queue of its
  configuration entry, channel and host, it points to the live thread that serves them, and no other queue changes.
\<close>

theorem linkin_refines:
  assumes "reach cfgs fill s q" "unqueued q v"
  shows "\<exists>t s'. linkin_thread cfgs fill tm v cfg s = Some (t, s') \<and> t \<in> thr_live s' \<and> thread_key s' t = vertex_key cfg s v \<and>
    v_thread (vtxs s' v) = Some t \<and> reach cfgs fill s' (q(vertex_key cfg s v := q (vertex_key cfg s v) @ [v])) \<and>
    queues s' (q(vertex_key cfg s v := q (vertex_key cfg s v) @ [v]))"
proof -
  have ok: "sched_ok cfgs s q" "unlinked s q" using reach_ok [OF assms(1)] by simp_all
  then have v: "nextitem (vtxs s v) = None" "previtem (vtxs s v) = None" using assms(2) by (simp_all add: unlinked_def)
  show ?thesis
    using linkin_simulates [OF ok(1) assms(2) v, of fill tm cfg] reach.link [OF assms] sched_okD(3) by blast
qed

theorem linkin_refines_witness:
  "unqueued demo_queue 2 \<and> (\<exists>t s'. linkin_thread demo_cfgs demo_cfgs 9 2 3 demo_sched = Some (t, s') \<and> t \<in> thr_live s' \<and> v_thread (vtxs s' 2) = Some t)"
proof -
  have u: "unqueued demo_queue 2" by (simp add: unqueued_def demo_queue_def)
  show ?thesis using u linkin_refines [OF demo_reach u, of 9 3] by blast
qed

text \<open>
  C24: Taking a vertex out removes it from its queue and from nothing else; when it was the last one and no transporter works on the thread,
  the thread is gone from every structure, otherwise it stays.
\<close>

theorem detangle_refines:
  assumes "reach cfgs fill s q" "v \<in> set (q k)" "v_thread (vtxs s v) = Some t"
  shows "queues (web_detangle v s) (q(k := remove1 v (q k))) \<and> thread_key s t = k \<and>
    thr_live (web_detangle v s) = (if q k = [v] \<and> thrkids (thrs s t) = 0 then thr_live s - {t} else thr_live s)"
proof -
  have ok: "sched_ok cfgs s q" using reach_ok [OF assms(1)] by simp
  obtain u where u: "u \<in> thr_live s" "thread_key s u = k" "v_thread (vtxs s v) = Some u"
    using queuesD(3) [OF sched_okD(3) [OF ok] assms(2)] by blast
  then have t: "t \<in> thr_live s" "thread_key s t = k" using assms(3) by simp_all
  have h: "holds (unthread (Some t) v s) t (remove1 v (q k))"
    using queuesD(1) [OF sched_okD(3) [OF ok] t(1)] t(2) assms(2) by (intro holds_unthread) auto
  have e: "thvertices (thrs (unthread (Some t) v s) t) = None \<longleftrightarrow> remove1 v (q k) = []"
    "jobs (thrs (unthread (Some t) v s) t) = int (length (remove1 v (q k)))"
    using h by (auto simp: holds_def vchain_def dlist_def)
  have k: "thrkids (thrs (unthread (Some t) v s) t) = thrkids (thrs s t)" using route_fields [OF route_vertex_ops(2)] by blast
  have one: "remove1 v (q k) = [] \<longleftrightarrow> q k = [v]" using assms(2) by (cases "q k") auto
  have "thr_live (web_detangle v s) = (if q k = [v] \<and> thrkids (thrs s t) = 0 then thr_live s - {t} else thr_live s)"
    using e k one by (simp add: web_detangle_def assms(3) delete_thread_def Let_def)
  then show ?thesis using sched_okD(3) [OF sched_ok_detangle [OF ok assms(2)]] t(2) by blast
qed

theorem detangle_refines_witness:
  "\<exists>t. v_thread (vtxs demo_sched 1) = Some t \<and> queues (web_detangle 1 demo_sched) (demo_queue(TKey 3 4 5 := []))"
proof -
  have m: "1 \<in> set (demo_queue (TKey 3 4 5))" "remove1 1 (demo_queue (TKey 3 4 5)) = []" by (simp_all add: demo_queue_def)
  obtain t where t: "v_thread (vtxs demo_sched 1) = Some t"
    using queuesD(3) [OF sched_okD(3) [OF conjunct1 [OF reach_ok [OF demo_reach]]] m(1)] by blast
  then show ?thesis using detangle_refines [OF demo_reach m(1) t] m(2) by auto
qed



text \<open>
  In every reachable state the count of the recipients ends, and it is the number of vertices that wait in some queue.
\<close>

lemma count_recipients_correct:
  assumes "reach cfgs fill s q"
  shows "thread_count_recipients s = Some (int (card {v. \<not> unqueued q v}))"
  using reach_ok [OF assms] count_jobs jobs_queued by metis

lemma count_recipients_correct_witness: "thread_count_recipients demo_sched = Some 1"
proof -
  have "{v. \<not> unqueued demo_queue v} = {1}" by (auto simp: unqueued_def demo_queue_def)
  then show ?thesis using count_recipients_correct [OF demo_reach] by simp
qed


text \<open>
  C26: Before a transporter gets the vertices of a thread, they are put into a new order: the same vertices, none lost or
  duplicated; by the time of the spool file (nanoseconds included) when the entry asks for age order.  The growing
  array is never overrun, feeding starts at the first vertex, and the state stays consistent.
\<close>

theorem shuffle_permutes:
  assumes "reach cfgs fill s q" "t \<in> thr_live s" "q (thread_key s t) \<noteq> []" "length (q (thread_key s t)) < 2 ^ 32" "qsort_spec qs"
  shows "\<exists>s' vs u' r'. thread_vertex_shuffle qs clock t u r s = Some (s', u', r') \<and> mset vs = mset (q (thread_key s t)) \<and>
    length vs \<le> u' \<and> reach cfgs fill s' (q(thread_key s t := vs)) \<and> nextfeed (thrs s' t) = Some (hd vs) \<and> unfed (thrs s' t) = int (length vs) \<and>
    (cfg_flag CFG_AGEORDER (ce (grps s (t_thgrp (thrs s t)))) \<longrightarrow>
       sorted_wrt (\<lambda>a b. v_mtime (vtxs s a) < v_mtime (vtxs s b) \<or>
         v_mtime (vtxs s a) = v_mtime (vtxs s b) \<and> v_mtimens (vtxs s a) \<le> v_mtimens (vtxs s b)) vs)"
proof -
  have o: "sched_ok cfgs s q" using reach_ok [OF assms(1)] by simp
  have c: "vchain s t (q (thread_key s t))" using queuesD(1) [OF sched_okD(3) [OF o] assms(2)] by (simp add: holds_def)
  obtain vs u' r' where r: "thread_vertex_shuffle qs clock t u r s = Some (ur_finish t vs s, u', r')" "length vs \<le> u'" "shuffled s t (q (thread_key s t)) vs"
    using shuffle_result [OF c assms(3-5)] by blast
  have vs: "mset vs = mset (q (thread_key s t))" "vs \<noteq> []" using r(3) assms(3) by (auto simp: shuffled_def)
  have d: "distinct vs" using mset_eq_imp_distinct_iff [OF vs(1)] queues_distinct [OF sched_okD(3) [OF o]] by simp
  have "reach cfgs fill (ur_finish t vs s) (q(thread_key s t := vs))"
    by (rule reach.shuffle [OF assms(1,2,4,5) r(1) ur_finish_chain [OF d vs(2)]])
  then show ?thesis
    using r vs unfolding shuffled_def vtx_mtime_cmp_le by (intro exI [of _ "ur_finish t vs s"] exI [of _ vs] exI [of _ u'] exI [of _ r']) (auto simp: ur_finish_frame hd_conv_nth)
qed

text \<open>A sorting function with the promised behaviour.\<close>

fun cmp_insert :: "(addr \<Rightarrow> addr \<Rightarrow> int) \<Rightarrow> addr \<Rightarrow> addr list \<Rightarrow> addr list" where
  "cmp_insert cmp x [] = [x]"
| "cmp_insert cmp x (y # ys) = (if cmp x y \<le> 0 then x # y # ys else y # cmp_insert cmp x ys)"

definition cmp_sort :: "(addr \<Rightarrow> addr \<Rightarrow> int) \<Rightarrow> addr list \<Rightarrow> addr list" where
  "cmp_sort cmp xs = foldr (cmp_insert cmp) xs []"

lemma cmp_insert_mset: "mset (cmp_insert cmp x ys) = add_mset x (mset ys)"
  by (induction ys) auto

lemma cmp_insert_sorted:
  "total_cmp cmp \<Longrightarrow> sorted_wrt (\<lambda>a b. cmp a b \<le> 0) ys \<Longrightarrow> sorted_wrt (\<lambda>a b. cmp a b \<le> 0) (cmp_insert cmp x ys)"
proof (induction ys)
  case (Cons y ys)
  have s: "set (cmp_insert cmp x ys) = insert x (set ys)" using cmp_insert_mset [of cmp x ys] by (metis set_mset_add_mset_insert set_mset_mset)
  show ?case using Cons s unfolding total_cmp_def by (auto; blast)
qed simp

lemma cmp_sort_spec: "qsort_spec cmp_sort"
proof -
  have "mset (foldr (cmp_insert cmp) xs []) = mset xs \<and> (total_cmp cmp \<longrightarrow> sorted_wrt (\<lambda>a b. cmp a b \<le> 0) (foldr (cmp_insert cmp) xs []))" for cmp xs
    by (induction xs) (auto simp: cmp_insert_mset cmp_insert_sorted)
  then show ?thesis by (simp add: qsort_spec_def cmp_sort_def)
qed

theorem shuffle_permutes_witness:
  "\<exists>t\<in>thr_live demo_sched. \<exists>s' vs u' r'. thread_vertex_shuffle cmp_sort 7 t 0 rng_init demo_sched = Some (s', u', r') \<and> mset vs = {#1#} \<and> length vs \<le> u'"
proof -
  have m: "1 \<in> set (demo_queue (TKey 3 4 5))" "demo_queue (TKey 3 4 5) = [1]" by (simp_all add: demo_queue_def)
  obtain t where t: "t \<in> thr_live demo_sched" "thread_key demo_sched t = TKey 3 4 5"
    using queuesD(3) [OF sched_okD(3) [OF conjunct1 [OF reach_ok [OF demo_reach]]] m(1)] by blast
  then show ?thesis using shuffle_permutes [OF demo_reach t(1) _ _ cmp_sort_spec, of 7 0 rng_init] m(2) by auto
qed

end
