(* ===== verification/Agenda.thy ===== *)
theory Agenda
  imports Reachable "HOL-Library.Signed_Division"
begin

text \<open>
  When threads are to run again, \<^verbatim>\<open>scheduler/threads.c\<close> and \<^verbatim>\<open>scheduler/agenda.c\<close>: \<open>thread_reschedule\<close> after the
  last transporter of a thread is gone, \<open>reschedule\<close> for one vertex, the agenda that starts the threads at the head of the
  time chain, and the cleanup of idle transporters and groups.

  The time \<open>now\<close> that the code reads from the clock is an argument.  \<open>expire\<close> (\<^verbatim>\<open>scheduler/update.c\<close>), \<open>thread_start\<close> and
  \<open>queryipccheck\<close> are parameters.  The divisions are those of C, which round to zero; a division by zero is the result \<open>None\<close>.
\<close>

section \<open>Rescheduling\<close>

definition vertex_expired :: "int \<Rightarrow> vertex \<Rightarrow> bool" where
  "vertex_expired now v \<longleftrightarrow>
     ce_expiry v > 0 \<and> ce_expiry v \<le> now \<and> v_attempts v > 0 \<or> ce_expiry2 v > 0 \<and> ce_expiry2 v \<le> now"

text \<open>The retry factor: a used up list of factors is entered again at a random place.\<close>

definition retry_pick :: "ulong \<Rightarrow> config_entry \<Rightarrow> int \<Rightarrow> rng \<Rightarrow> int \<times> rng" where
  "retry_pick clock c ri r =
     (if ri \<ge> nretries c then
        if nretries c > 1 then (case ranny clock (word_of_int (nretries c - 1)) r of (w, r) \<Rightarrow> (uint w, r)) else (0, r)
      else (ri, r))"

definition c_div :: "int \<Rightarrow> int \<Rightarrow> int option" where
  "c_div a b = (if b = 0 then None else Some (signed_divide a b))"

text \<open>If history, move forward by a multiple of the interval.\<close>

definition forward :: "int \<Rightarrow> int \<Rightarrow> int \<Rightarrow> int option" where
  "forward now ival w = (if w < now then map_option (\<lambda>d. w + (d + 1) * ival) (c_div (now - w) ival) else Some w)"

partial_function (option) expire_vertices ::
  "(addr \<Rightarrow> int \<Rightarrow> sched \<Rightarrow> sched) \<Rightarrow> int \<Rightarrow> int \<Rightarrow> ptr \<Rightarrow> ptr \<Rightarrow> sched \<Rightarrow> (ptr \<times> sched) option" where
  "expire_vertices expire now index vtx thr s =
     (case vtx of
        None \<Rightarrow> Some (thr, s)
      | Some v \<Rightarrow>
          let nvtx = nextitem (vtxs s v)
          in if vertex_expired now (vtxs s v)
             then expire_vertices expire now index nvtx (if jobs (thrs s (the thr)) > 1 then thr else None) (expire v index s)
             else expire_vertices expire now index nvtx thr s)"

declare expire_vertices.simps [code]

definition timechain_handling :: "ptr \<Rightarrow> sched \<Rightarrow> bool \<times> sched" where
  "timechain_handling thr s =
     (case thr of None \<Rightarrow> (False, s) | Some t \<Rightarrow> (True, thread_timechain_append t (thread_timechain_unlink t s)))"

definition thread_reschedule ::
  "(addr \<Rightarrow> int \<Rightarrow> sched \<Rightarrow> sched) \<Rightarrow> ulong \<Rightarrow> int \<Rightarrow> addr \<Rightarrow> int \<Rightarrow> int \<Rightarrow> rng \<Rightarrow> sched \<Rightarrow> ((bool \<times> sched) \<times> rng) option" where
  "thread_reschedule expire clock now t retrytime index r s =
     (let vtx = thvertices (thrs s t); c = ce (grps s (t_thgrp (thrs s t)))
      in if thrkids (thrs s t) = 0 \<and> jobs (thrs s t) = 0 then Some ((False, snd (delete_thread t s)), r)
         else if thrkids (thrs s t) > 0 \<or> vtx = None then Some ((True, s), r)
         else if wakeup (thrs s t) > now then Some (timechain_handling (Some t) s, r)
         else if nretries c \<le> 0 then Some (timechain_handling (Some t) s, r)
         else
           let (ri, r) = retry_pick clock c (retryindex (thrs s t)) r;
               s = upd_thr t (\<lambda>x. x\<lparr>retryindex := ri\<rparr>) s;
               s = (if retrytime > 100000 \<and> retrytime < now + 63 then upd_thr t (\<lambda>x. x\<lparr>wakeup := now\<rparr>) s else s);
               s = upd_thr t (\<lambda>x. x\<lparr>wakeup := wakeup x + retries c ! nat (retryindex x) * interval c\<rparr>) s;
               s = upd_thr t (\<lambda>x. x\<lparr>retryindex := retryindex x + 1\<rparr>) s;
               s = upd_thr t (\<lambda>x. x\<lparr>retryindex := retryindex x + 1\<rparr>) s
           in case forward now (interval c) (wakeup (thrs s t)) of
                None \<Rightarrow> None
              | Some w \<Rightarrow>
                  let s = upd_thr t (\<lambda>x. x\<lparr>wakeup := w\<rparr>) s
                  in (case expire_vertices expire now index vtx (Some t) s of
                        None \<Rightarrow> None
                      | Some (thr, s) \<Rightarrow> Some (timechain_handling thr s, r)))"

text \<open>\<open>reschedule\<close>, which works within a thread and does not move it.\<close>

definition skewed :: "config_entry \<Rightarrow> int \<Rightarrow> int option" where
  "skewed c w =
     (if interval c = 0 then None
      else let k = signed_modulo w (interval c);
               k = (if k \<le> signed_divide (interval c) 2 then - (k + (skew c - 1)) else k + (skew c - 1))
           in c_div k (skew c))"

definition resched_base :: "ulong \<Rightarrow> config_entry \<Rightarrow> int \<Rightarrow> int \<Rightarrow> thread \<Rightarrow> rng \<Rightarrow> (thread \<times> rng) option" where
  "resched_base clock c factor att th r =
     (if factor = - 1 \<and> att \<noteq> 0 then
        let (ri, r) = retry_pick clock c (retryindex th) r
        in map_option (\<lambda>k. (th\<lparr>wakeup := wakeup th + (k + retries c ! nat ri * interval c), retryindex := ri + 1\<rparr>, r)) (skewed c (wakeup th))
      else if factor < - 1 then Some (th\<lparr>wakeup := - factor\<rparr>, r)
      else Some (th\<lparr>wakeup := wakeup th + factor * interval c\<rparr>, r))"

definition resched_past :: "int \<Rightarrow> config_entry \<Rightarrow> int \<Rightarrow> int option" where
  "resched_past now c w = (if w < now then map_option (\<lambda>d. (d + 1) * interval c + 10) (c_div (now - w) (interval c)) else Some w)"

definition reschedule ::
  "(addr \<Rightarrow> int \<Rightarrow> sched \<Rightarrow> sched) \<Rightarrow> ulong \<Rightarrow> int \<Rightarrow> addr \<Rightarrow> int \<Rightarrow> int \<Rightarrow> rng \<Rightarrow> sched \<Rightarrow> (sched \<times> rng) option" where
  "reschedule expire clock now v factor index r s =
     (let t = the (v_thread (vtxs s v)); c = ce (grps s (the (v_thgrp (vtxs s v))))
      in if wakeup (thrs s t) > now then Some (s, r)
         else if nretries c \<le> 0 then Some (s, r)
         else
           case resched_base clock c factor (v_attempts (vtxs s v)) (thrs s t) r of
             None \<Rightarrow> None
           | Some (th, r) \<Rightarrow>
               let th = (if v_attempts (vtxs s v) = 0 then th\<lparr>wakeup := now\<rparr> else th)
               in case resched_past now c (wakeup th) of
                    None \<Rightarrow> None
                  | Some w \<Rightarrow>
                      let s = upd_thr t (\<lambda>_. th\<lparr>wakeup := w\<rparr>) s
                      in Some (if ce_expiry (vtxs s v) > 0 \<and> ce_expiry (vtxs s v) \<le> w \<and> v_attempts (vtxs s v) > 0
                               then expire v index s else s, r))"

section \<open>The agenda\<close>

partial_function (option) start_all :: "(addr \<Rightarrow> sched \<Rightarrow> bool \<times> sched) \<Rightarrow> addr \<Rightarrow> nat \<Rightarrow> sched \<Rightarrow> (nat \<times> sched) option" where
  "start_all thread_start t n s =
     (case thread_start t s of (ok, s) \<Rightarrow> if ok then start_all thread_start t (n + 1) s else Some (n, s))"

partial_function (option) agenda_loop ::
  "(addr \<Rightarrow> sched \<Rightarrow> bool \<times> sched) \<Rightarrow> (int \<Rightarrow> int) \<Rightarrow> int \<Rightarrow> ptr \<Rightarrow> nat \<Rightarrow> sched \<Rightarrow> (nat \<times> sched) option" where
  "agenda_loop thread_start queryipccheck now thr n s =
     (case thr of
        None \<Rightarrow> Some (n, s)
      | Some t \<Rightarrow>
          if wakeup (thrs s t) \<le> now then
            let nthr = nexttr (thrs s t)
            in (case (if t_proc (thrs s t) = None \<and> wakeup (thrs s t) \<le> now then start_all thread_start t n s else Some (n, s)) of
                  None \<Rightarrow> None
                | Some (n, s) \<Rightarrow> agenda_loop thread_start queryipccheck (queryipccheck now) nthr n s)
          else Some (n, s))"

definition doagenda :: "(addr \<Rightarrow> sched \<Rightarrow> bool \<times> sched) \<Rightarrow> (int \<Rightarrow> int) \<Rightarrow> int \<Rightarrow> sched \<Rightarrow> (nat \<times> sched) option" where
  "doagenda thread_start queryipccheck now s = agenda_loop thread_start queryipccheck now (thread_head s) 0 s"

declare start_all.simps [code] agenda_loop.simps [code]

section \<open>Cleaning up\<close>

datatype cleanup_error = FreedGroup addr | Aborted

definition MAX_HUNGER_AGE :: int where "MAX_HUNGER_AGE = 600"

definition hungry_too_long :: "int \<Rightarrow> procinfo \<Rightarrow> bool" where
  "hungry_too_long now p \<longleftrightarrow>
     cmdlen p = 0 \<and> overfed p = 0 \<and> p_tofd p \<ge> 0 \<and> hungertime p \<noteq> 0 \<and> hungertime p + MAX_HUNGER_AGE \<le> now"

partial_function (option) idle_threads :: "int \<Rightarrow> addr \<Rightarrow> ptr \<Rightarrow> bool \<Rightarrow> int \<Rightarrow> sched \<Rightarrow> (int \<times> sched) option" where
  "idle_threads now g thr once n s =
     (case thr of
        None \<Rightarrow> Some (n, s)
      | Some t \<Rightarrow>
          if once \<or> thr \<noteq> g_thread (grps s g) then
            let nthr = t_nextthg (thrs s t); p = t_proc (thrs s t)
            in if t_thgrp (thrs s t) = g \<and> p \<noteq> None \<and> hungry_too_long now (prcs s (the p))
               then idle_threads now g nthr False (n + 1)
                      (upd_prc (the p) (\<lambda>x. x\<lparr>p_tofd := - 1\<rparr>) (upd_thr t (\<lambda>x. x\<lparr>wakeup := now - 1\<rparr>) s))
               else idle_threads now g nthr False n s
          else Some (n, s))"

partial_function (option) idle_procs :: "int \<Rightarrow> int \<Rightarrow> ptr \<Rightarrow> int \<Rightarrow> sched \<Rightarrow> (int \<times> sched) option" where
  "idle_procs now imax p n s =
     (case p of
        None \<Rightarrow> Some (n, s)
      | Some a \<Rightarrow>
          if imax + hungertime (prcs s a) < now \<and> cmdlen (prcs s a) = 0 \<and> p_tofd (prcs s a) \<ge> 0
          then idle_procs now imax (pnext (prcs s a)) (n + 1) (upd_prc a (\<lambda>x. x\<lparr>p_tofd := - 1\<rparr>) s)
          else idle_procs now imax (pnext (prcs s a)) n s)"

partial_function (option) idle_groups ::
  "(addr \<Rightarrow> config_entry) \<Rightarrow> int \<Rightarrow> addr \<Rightarrow> bool \<Rightarrow> int \<Rightarrow> sched \<Rightarrow> (cleanup_error + (int \<times> sched)) option" where
  "idle_groups cfgs now g once n s =
     (if once \<or> Some g \<noteq> thrg_root s then
        if g \<notin> grp_live s then Some (Inl (FreedGroup g))
        else
          let nthg = the (g_nextthg (grps s g))
          in (case idle_threads now g (g_thread (grps s g)) True n s of
                None \<Rightarrow> None
              | Some (n, s) \<Rightarrow>
                  (case idle_procs now (idlemax (cfgs (cep (grps s g)))) (idleproc (grps s g)) n s of
                     None \<Rightarrow> None
                   | Some (n, s) \<Rightarrow>
                       (case delete_threadgroup g s of
                          None \<Rightarrow> Some (Inl Aborted)
                        | Some s \<Rightarrow> idle_groups cfgs now nthg False n s)))
      else Some (Inr (n, s)))"

definition idle_cleanup :: "(addr \<Rightarrow> config_entry) \<Rightarrow> int \<Rightarrow> sched \<Rightarrow> (cleanup_error + (int \<times> sched)) option" where
  "idle_cleanup cfgs now s =
     (case thrg_root s of None \<Rightarrow> Some (Inr (0, s)) | Some g \<Rightarrow> idle_groups cfgs now g True 0 s)"

declare idle_threads.simps [code] idle_procs.simps [code] idle_groups.simps [code]


section \<open>Helper lemmas\<close>

text \<open>The index that is picked is one of the list of factors.\<close>

lemma retry_pick_bounds:
  assumes "0 \<le> ri" "0 < nretries c" "nretries c < 2 ^ 31"
  shows "0 \<le> fst (retry_pick clock c ri r)" "fst (retry_pick clock c ri r) < nretries c"
proof -
  have "uint (fst (ranny clock (word_of_int (nretries c - 1)) r)) < nretries c" if n: "nretries c > 1"
  proof -
    have "unat (fst (ranny clock (word_of_nat (nat (nretries c) - 1)) r)) < nat (nretries c)"
      using n assms(3) by (intro ranny_below) auto
    moreover have "(word_of_nat (nat (nretries c) - 1) :: 32 word) = word_of_int (nretries c - 1)"
    proof -
      have "int (nat (nretries c) - 1) = nretries c - 1" using n by simp
      then show ?thesis by (metis of_int_of_nat_eq)
    qed
    ultimately have "unat (fst (ranny clock (word_of_int (nretries c - 1)) r)) < nat (nretries c)" by (simp only:)
    then have "int (unat (fst (ranny clock (word_of_int (nretries c - 1)) r))) < int (nat (nretries c))" by (simp only: of_nat_less_iff)
    then show ?thesis using n by (simp only: uint_nat)
  qed
  then show "0 \<le> fst (retry_pick clock c ri r)" "fst (retry_pick clock c ri r) < nretries c"
    using assms by (auto simp: retry_pick_def split: prod.splits)
qed

lemma forward_future:
  assumes "0 < ival"
  shows "\<exists>w'. forward now ival w = Some w' \<and> now \<le> w' \<and> w \<le> w' \<and> (w < now \<longrightarrow> w' \<le> now + ival)"
proof (cases "w < now")
  case True
  have e: "signed_divide (now - w) ival = (now - w) div ival" using True assms by (simp add: signed_divide_int_def)
  define d m where "d = (now - w) div ival" and "m = (now - w) mod ival"
  have "d * ival + m = now - w" "0 \<le> m" "m < ival" "0 \<le> d * ival"
    using assms True by (simp_all add: d_def m_def pos_imp_zdiv_nonneg_iff)
  then show ?thesis using True assms e by (simp add: forward_def c_div_def distrib_right flip: d_def)
qed (simp add: forward_def)

lemma expire_none:
  "dseg (\<lambda>v. nextitem (vtxs s v)) p a vs None \<Longrightarrow> (\<And>v. v \<in> set vs \<Longrightarrow> \<not> vertex_expired now (vtxs s v)) \<Longrightarrow>
     expire_vertices expire now index (firstp vs None) thr s = Some (thr, s)"
proof (induction vs arbitrary: a)
  case Nil
  then show ?case by (simp add: expire_vertices.simps)
next
  case (Cons v vs)
  have "expire_vertices expire now index (firstp vs None) thr s = Some (thr, s)"
    using Cons.prems by (intro Cons.IH [of "Some v"]) auto
  then show ?case using Cons.prems by (simp add: expire_vertices.simps [of _ _ _ "Some v"])
qed

lemma idle_threads_none: "idle_threads now g None once n s = Some (n, s)" "idle_procs now i None n s = Some (n, s)"
  by (simp_all add: idle_threads.simps idle_procs.simps)


text \<open>The link operations keep every field that is not a link.\<close>

lemma link_keeps:
  fixes f :: "thread \<Rightarrow> 'a"
  assumes "\<And>r x. f (r\<lparr>nexttr := x\<rparr>) = f r" "\<And>r x. f (r\<lparr>prevtr := x\<rparr>) = f r"
    "\<And>r x. f (r\<lparr>t_nextthg := x\<rparr>) = f r" "\<And>r x. f (r\<lparr>t_prevthg := x\<rparr>) = f r"
  shows "f (thrs (thread_timechain_append t s) a) = f (thrs s a)" "f (thrs (thread_timechain_unlink t s) a) = f (thrs s a)"
proof -
  have c: "f (thrs (timechain_unlink t s) a) = f (thrs s a)" "f (thrs (timechain_append t s) a) = f (thrs s a)" for s
    using assms by (simp_all add: timechain_unlink_def timechain_append_def Let_def upd_thr_p_def split: option.splits)
  have k: "f (thrs (ring_cut t s) a) = f (thrs s a)" "f (thrs (ring_splice u t s) a) = f (thrs s a)" for s u
    using assms by (simp_all add: ring_cut_def ring_splice_def Let_def)
  have g: "f (thrs (groupring_unlink t s) a) = f (thrs s a)" "f (thrs (groupring_append t s) a) = f (thrs s a)" for s
    using assms k by (auto simp: groupring_unlink_def groupring_append_def Let_def split: option.splits)
  show "f (thrs (thread_timechain_append t s) a) = f (thrs s a)" "f (thrs (thread_timechain_unlink t s) a) = f (thrs s a)"
    by (simp_all add: thread_timechain_append_def thread_timechain_unlink_def c g)
qed

lemma requeue_wakeup:
  "wakeup (thrs (thread_timechain_append t (thread_timechain_unlink t s)) a) = wakeup (thrs s a)"
  "retryindex (thrs (thread_timechain_append t (thread_timechain_unlink t s)) a) = retryindex (thrs s a)"
  using link_keeps [of wakeup] link_keeps [of retryindex] by simp_all

text \<open>The small run again, evaluated.\<close>

lemma linkin_empty:
  assumes "thrg_root s = None"
  shows "linkin_thread cfgs fill tm v cfg s = Some (linkin_new cfgs tm (brk s) v
    (snd (create_threadgroup cfg (orig_chan (vtxs s v)) (orig_host (vtxs s v)) (cfg_flag CFG_WITHHOST (cfgs cfg)) fill s)))"
  using assms
  by (simp add: linkin_thread_def Let_def create_threadgroup_def malloc_def group_zero_def ring_walk.simps [of _ _ "Some (brk s)"]
      ring_walk.simps [of _ _ None None] linkin_group_def)

lemma demo_eval:
  "thr_live demo_sched = {17}" "grp_live demo_sched = {16}" "thrkids (thrs demo_sched 17) = 0" "wakeup (thrs demo_sched 17) = 0"
  "retryindex (thrs demo_sched 17) = 0" "t_thgrp (thrs demo_sched 17) = 16" "ce (grps demo_sched 16) = demo_cfgs 3"
  "thread_key demo_sched 17 = TKey 3 4 5" "vtxs demo_sched (Suc 0) = vertex_zero\<lparr>orig_chan := 4, orig_host := 5, v_thread := Some 17, v_thgrp := Some 16\<rparr>"
  "transporters (grps demo_sched 16) = 0" "idleproc (grps demo_sched 16) = None" "thvertices (thrs demo_sched 17) = Some 1" "jobs (thrs demo_sched 17) = 1"
proof -
  have r: "thrg_root demo_new = None" by (simp add: demo_new_def sched_init_def)
  have e: "demo_sched = snd (linkin_new demo_cfgs 0 (brk demo_new) 1 (snd (create_threadgroup 3 (orig_chan (vtxs demo_new 1))
      (orig_host (vtxs demo_new 1)) (cfg_flag CFG_WITHHOST (demo_cfgs 3)) demo_cfgs demo_new)))"
    by (simp add: demo_sched_def linkin_empty [OF r])
  note d = linkin_new_def create_thread_def malloc_def create_threadgroup_def r Let_def demo_new_def sched_init_def
    web_init_def vertex_zero_def thread_zero_def group_zero_def thread_timechain_append_def timechain_append_def groupring_append_def
    cfg_flag_def demo_cfgs_def thread_key_def
  show "thr_live demo_sched = {17}" unfolding e by (simp add: d)
  show "grp_live demo_sched = {16}" unfolding e by (simp add: d)
  show "thrkids (thrs demo_sched 17) = 0" unfolding e by (simp add: d)
  show "wakeup (thrs demo_sched 17) = 0" unfolding e by (simp add: d)
  show "retryindex (thrs demo_sched 17) = 0" unfolding e by (simp add: d)
  show "t_thgrp (thrs demo_sched 17) = 16" unfolding e by (simp add: d)
  show "ce (grps demo_sched 16) = demo_cfgs 3" unfolding e by (simp add: d)
  show "thread_key demo_sched 17 = TKey 3 4 5" unfolding e by (simp add: d)
  show "vtxs demo_sched (Suc 0) = vertex_zero\<lparr>orig_chan := 4, orig_host := 5, v_thread := Some 17, v_thgrp := Some 16\<rparr>" unfolding e by (simp add: d)
  show "transporters (grps demo_sched 16) = 0" "idleproc (grps demo_sched 16) = None" "thvertices (thrs demo_sched 17) = Some 1" "jobs (thrs demo_sched 17) = 1"
    unfolding e by (simp_all add: d)
qed

lemma group_drop_procs [simp]:
  "transporters (grps (group_drop g t s) h) = transporters (grps s h)" "idleproc (grps (group_drop g t s) h) = idleproc (grps s h)"
  by (simp_all add: group_drop_def Let_def)

lemma demo_detangled:
  "thr_live (web_detangle 1 demo_sched) = {}" "grp_live (web_detangle 1 demo_sched) = {16}"
  "transporters (grps (web_detangle 1 demo_sched) 16) = 0" "idleproc (grps (web_detangle 1 demo_sched) 16) = None"
proof -
  let ?u = "unthread (Some 17) 1 demo_sched"
  have u: "thvertices (thrs ?u 17) = None" "jobs (thrs ?u 17) = 0" "thrkids (thrs ?u 17) = 0"
    by (simp_all add: unthread_def Let_def demo_eval vertex_zero_def)
  have w: "web_detangle 1 demo_sched = (thread_timechain_unlink 17 ?u)\<lparr>thr_live := thr_live demo_sched - {17}\<rparr>"
    using u by (simp add: web_detangle_def delete_thread_def Let_def demo_eval vertex_zero_def)
  show "thr_live (web_detangle 1 demo_sched) = {}" "grp_live (web_detangle 1 demo_sched) = {16}" unfolding w by (simp_all add: demo_eval)
  show "transporters (grps (web_detangle 1 demo_sched) 16) = 0" "idleproc (grps (web_detangle 1 demo_sched) 16) = None"
    unfolding w by (simp_all add: thread_timechain_unlink_def groupring_unlink_def demo_eval)
qed

section \<open>Properties\<close>


text \<open>
  \<open>reschedule\<close> does not do so: where a wakeup time in the past is to be moved forward, it is replaced by the distance that had to be
  added.  For a thread whose wakeup is in the past and more than the interval after the epoch, the new wakeup is
  still in the past whenever the old one lies closer to now than to the epoch, so the thread is due again at once.
\<close>

lemma reschedule_stays_in_past:
  assumes "v_thread (vtxs s v) = Some t" "v_thgrp (vtxs s v) = Some g" "c = ce (grps s g)" "0 < nretries c" "0 < interval c"
    and "wakeup (thrs s t) < now" "v_attempts (vtxs s v) > 0" "ce_expiry (vtxs s v) = 0"
    and "now - wakeup (thrs s t) + interval c + 10 < now"
  shows "\<exists>s'. reschedule expire clock now v 0 index r s = Some (s', r) \<and> wakeup (thrs s' t) < now \<and>
    wakeup (thrs s' t) = ((now - wakeup (thrs s t)) div interval c + 1) * interval c + 10"
proof -
  let ?w = "wakeup (thrs s t)"
  define d m where "d = (now - ?w) div interval c" and "m = (now - ?w) mod interval c"
  have e: "signed_divide (now - ?w) (interval c) = d" using assms(5,6) by (simp add: signed_divide_int_def d_def)
  have "d * interval c + m = now - ?w" "0 \<le> m" "m < interval c"
    using assms(5) by (simp_all add: d_def m_def)
  then have "(d + 1) * interval c + 10 < now" using assms(9) by (simp add: distrib_right)
  moreover have "resched_past now c ?w = Some ((d + 1) * interval c + 10)" using assms(5,6) e by (simp add: resched_past_def c_div_def)
  ultimately show ?thesis
    using assms(1,2,4,6-8) by (simp add: reschedule_def resched_base_def Let_def d_def flip: assms(3))
qed



definition demo_late :: sched where
  "demo_late = upd_thr 17 (\<lambda>x. x\<lparr>wakeup := 900\<rparr>) (upd_vtx 1 (\<lambda>x. x\<lparr>v_attempts := 1\<rparr>) demo_sched)"

lemma reschedule_stays_in_past_witness:
  "\<exists>s'. reschedule (\<lambda>v i s. s) 7 1000 1 0 (- 1) rng_init demo_late = Some (s', rng_init) \<and> wakeup (thrs s' 17) < 1000"
  using reschedule_stays_in_past [of demo_late 1 17 16 "demo_cfgs 3" 1000 "\<lambda>v i s. s" 7 "- 1" rng_init]
  by (auto simp: demo_late_def demo_eval vertex_zero_def) (auto simp: demo_cfgs_def)

text \<open>
  When the only thread group has neither threads nor transporters, \<open>idle_cleanup\<close> deletes it and then goes on with it: the
  successor it remembered is the group itself, and as the root pointer is null by then, the loop does not end and reads freed memory.
\<close>

lemma idle_cleanup_use_after_free:
  assumes "reach cfgs fill s q" "grp_live s = {g}" "thr_live s = {}" "transporters (grps s g) = 0" "idleproc (grps s g) = None"
  shows "idle_cleanup cfgs now s = Some (Inl (FreedGroup g))"
proof -
  note o = sched_okD [OF conjunct1 [OF reach_ok [OF assms(1)]]]
  obtain xs where x: "grpring s xs" "set xs = {g}" using groups_okD(1) [OF o(1)] assms(2) by auto
  then have r: "ring (\<lambda>h. g_nextthg (grps s h)) (\<lambda>h. g_prevthg (grps s h)) xs" "thrg_root s = Some g" by (auto simp: grpring_def split: if_splits)
  then have "xs = [g]" using x(2) by (cases xs rule: remdups_adj.cases) (auto simp: ring_def)
  then have n: "g_nextthg (grps s g) = Some g" using r(1) by simp
  obtain ys where y: "gring s g ys" "set ys = {t \<in> thr_live s. t_thgrp (thrs s t) = g}" "threads (grps s g) = int (length ys)"
    using linkedD(3) [OF threads_okD(1) [OF o(2)], of g] assms(2) by blast
  then have t: "g_thread (grps s g) = None" "group_idle s g" using assms(3,4) by (simp_all add: gring_def group_idle_def)
  have root: "thrg_root s \<noteq> None" using r(2) by simp
  note d = delete_threadgroup_idle [OF t(2) assms(5) t(1) root]
  have "idle_groups cfgs now g False 0 (group_out g s) = Some (Inl (FreedGroup g))"
    using d(3,5) n by (subst idle_groups.simps) simp
  then show ?thesis
    using r(2) assms(2,5) t(1) d(1) n by (simp add: idle_cleanup_def idle_groups.simps [of _ _ _ True] idle_threads_none)
qed

lemma idle_cleanup_use_after_free_witness:
  "idle_cleanup demo_cfgs 5 (web_detangle 1 demo_sched) = Some (Inl (FreedGroup 16))"
proof -
  have "reach demo_cfgs demo_cfgs (web_detangle 1 demo_sched) (demo_queue(TKey 3 4 5 := remove1 1 (demo_queue (TKey 3 4 5))))"
    by (rule reach.detangle [OF demo_reach]) (simp add: demo_queue_def)
  then show ?thesis
    by (rule idle_cleanup_use_after_free) (rule demo_detangled)+
qed

end
