(* ===== verification/Rfc822scan.thy ===== *)
theory Rfc822scan
  imports Prelude
begin

unbundle bit_operations_syntax

text \<open>
  The scanner of message headers, \<^verbatim>\<open>lib/rfc822scan.c\<close>, which cuts the lines of a header into tokens for
  the parser of the router, and \<open>hdr_status\<close> and \<open>rfc822_mustquote\<close> of the same file.

  The cursor of the scanner is the rest of the current line (its length is the counter \<open>n\<close>) and the continuation
  lines that follow it.  A token is its text, which has \<open>TOKENLEN\<close> characters, and its type; lines hold no NUL.
  The table of character classes is changed while a scan treats additional characters as specials, so it is an argument
  and a result.  The token list is built in reverse, as in the code.
\<close>

section \<open>Character classes\<close>

datatype TokenType = Atom | Comment | DomainLiteral | Error | Fold | Line | String | Space | Special | Word | Empty

record token822 =
  t_pname :: string
  t_type :: TokenType

definition C_h :: nat where "C_h = 0x001"
definition C_w :: nat where "C_w = 0x002"
definition C_d :: nat where "C_d = 0x004"
definition C_c :: nat where "C_c = 0x008"
definition C_a :: nat where "C_a = 0x010"
definition C_l :: nat where "C_l = 0x020"
definition C_r :: nat where "C_r = 0x040"
definition C_s :: nat where "C_s = 0x080"
definition C_8 :: nat where "C_8 = 0x100"

lemmas ctype_defs = C_h_def C_w_def C_d_def C_c_def C_a_def C_l_def C_r_def C_s_def C_8_def

definition rfc_ctype :: "nat list" where
  "rfc_ctype =
     [
      0x008, 0x008, 0x008, 0x008, 0x008, 0x008, 0x008, 0x008, 0x008, 0x00a, 0x028, 0x008, 0x008, 0x048, 0x008, 0x008,
      0x008, 0x008, 0x008, 0x008, 0x008, 0x008, 0x008, 0x008, 0x008, 0x008, 0x008, 0x008, 0x008, 0x008, 0x008, 0x008,
      0x002, 0x001, 0x081, 0x001, 0x001, 0x001, 0x001, 0x001, 0x081, 0x081, 0x001, 0x001, 0x081, 0x001, 0x081, 0x001,
      0x005, 0x005, 0x005, 0x005, 0x005, 0x005, 0x005, 0x005, 0x005, 0x005, 0x080, 0x081, 0x081, 0x001, 0x081, 0x001,
      0x081, 0x011, 0x011, 0x011, 0x011, 0x011, 0x011, 0x011, 0x011, 0x011, 0x011, 0x011, 0x011, 0x011, 0x011, 0x011,
      0x011, 0x011, 0x011, 0x011, 0x011, 0x011, 0x011, 0x011, 0x011, 0x011, 0x011, 0x081, 0x081, 0x081, 0x001, 0x001,
      0x001, 0x011, 0x011, 0x011, 0x011, 0x011, 0x011, 0x011, 0x011, 0x011, 0x011, 0x011, 0x011, 0x011, 0x011, 0x011,
      0x011, 0x011, 0x011, 0x011, 0x011, 0x011, 0x011, 0x011, 0x011, 0x011, 0x011, 0x001, 0x001, 0x001, 0x001, 0x008]
     @ replicate 128 0x100"

definition cls :: "nat list \<Rightarrow> char \<Rightarrow> nat \<Rightarrow> bool" where
  "cls tab c m \<longleftrightarrow> (tab ! ord c) AND m \<noteq> 0"

section \<open>Quoting and header lines\<close>

text \<open>The loop of \<open>rfc822_mustquote\<close>: the flags \<open>hasquotes\<close>, \<open>inquote\<close> and \<open>mustquote\<close> at its end.\<close>

definition spckosher :: "nat list \<Rightarrow> char \<Rightarrow> bool" where
  "spckosher tab spc \<longleftrightarrow> \<not> cls tab spc (C_w OR C_c OR C_8 OR C_s) \<or> spc = CHR ''.''"

definition mustquote_char :: "nat list \<Rightarrow> bool \<Rightarrow> bool \<Rightarrow> char \<Rightarrow> char \<Rightarrow> bool" where
  "mustquote_char tab kosher inquote c next \<longleftrightarrow>
     (if c = CHR ''@'' \<and> \<not> inquote then False
      else if c = CHR '':'' then next = CHR '':'' \<and> inquote
      else if c \<in> {CHR ''.'', CHR '','', CHR ''['', CHR '']''} then False
      else if c = SPC \<and> kosher then False
      else cls tab c (C_w OR C_c OR C_8 OR C_s) \<or> c = CHR ''|'')"

fun mustquote_loop :: "nat list \<Rightarrow> bool \<Rightarrow> string \<Rightarrow> bool \<Rightarrow> bool \<Rightarrow> bool \<Rightarrow> bool \<times> bool \<times> bool" where
  "mustquote_loop tab kosher [] hasquotes inquote mustquote = (hasquotes, inquote, mustquote)"
| "mustquote_loop tab kosher (c # cs) hasquotes inquote mustquote =
     (if c = DQUOTE then mustquote_loop tab kosher cs True (\<not> inquote) mustquote
      else if c = BSLASH then mustquote_loop tab kosher (tl cs) hasquotes inquote mustquote
      else mustquote_loop tab kosher cs hasquotes inquote (mustquote \<or> mustquote_char tab kosher inquote c (cur cs)))"

definition rfc822_mustquote :: "nat list \<Rightarrow> string \<Rightarrow> char \<Rightarrow> int" where
  "rfc822_mustquote tab s spc =
     (case mustquote_loop tab (spckosher tab spc) s False False False of
        (hasquotes, inquote, mustquote) \<Rightarrow> (if hasquotes then 1 else 0) + (if inquote then 2 else 0) + (if mustquote then 4 else 0))"

text \<open>\<open>cp\<close> and \<open>lbuf\<close> are the same pointer in every call; the line has \<open>n\<close> characters.\<close>

definition hdr_status :: "nat list \<Rightarrow> string \<Rightarrow> int" where
  "hdr_status tab lbuf =
     (if cur lbuf = SPC \<or> cur lbuf = HT then 0
      else let name = takeWhile (\<lambda>c. cls tab c C_h) lbuf; cp = drop (length name) lbuf
           in if cp \<noteq> [] \<and> cur cp = CHR '':'' then int (length name) else - int (length name))"

section \<open>Compound tokens\<close>

definition MKERROR :: "string \<Rightarrow> token822 list \<Rightarrow> token822 list" where
  "MKERROR msg tlist = \<lparr>t_pname = msg, t_type = Error\<rparr> # tlist"

text \<open>
  The walk of \<open>_hdr_compound\<close> over one line: the characters it passed, the rest (which starts with the closing
  delimiter, or is empty when the line has ended), the depth, and whether a backslash ended the line.
\<close>

record walkres =
  w_text :: string
  w_rest :: string
  w_nest :: nat
  w_dang :: bool
  w_list :: "token822 list"

definition w_cons :: "string \<Rightarrow> walkres \<Rightarrow> walkres" where
  "w_cons p w = w\<lparr>w_text := p @ w_text w\<rparr>"

fun walk :: "TokenType \<Rightarrow> char \<Rightarrow> char \<Rightarrow> string \<Rightarrow> nat \<Rightarrow> token822 list \<Rightarrow> walkres" where
  "walk ty cstart cend [] nest tlist = \<lparr>w_text = [], w_rest = [], w_nest = nest, w_dang = False, w_list = tlist\<rparr>"
| "walk ty cstart cend (c # cs) nest tlist =
     (if c = cend then
        if nest \<le> 1 then \<lparr>w_text = [], w_rest = c # cs, w_nest = nest - 1, w_dang = False, w_list = tlist\<rparr>
        else w_cons [c] (walk ty cstart cend cs (nest - 1) tlist)
      else if c = cstart then
        if ty = Comment then w_cons [c] (walk ty cstart cend cs (nest + 1) tlist)
        else w_cons [c] (walk ty cstart cend cs nest (MKERROR ''illegal char in compound'' tlist))
      else if c = BSLASH then
        (case cs of
           [] \<Rightarrow> \<lparr>w_text = [], w_rest = [], w_nest = nest, w_dang = True,
                  w_list = MKERROR ''missing character after backslash'' tlist\<rparr>
         | d # ds \<Rightarrow> w_cons [c, d] (walk ty cstart cend ds nest tlist))
      else if c = CR then w_cons [c] (walk ty cstart cend cs nest (MKERROR ''illegal CR in token'' tlist))
      else w_cons [c] (walk ty cstart cend cs nest tlist))"

text \<open>The result of \<open>_hdr_compound\<close>, with the pieces of the token, one for each line it is on.\<close>

record compound =
  k_len :: nat
  k_pieces :: "string list"
  k_closed :: bool
  k_rest :: string
  k_more :: "string list"
  k_list :: "token822 list"

fun compound_lines ::
  "TokenType \<Rightarrow> char \<Rightarrow> char \<Rightarrow> string \<Rightarrow> string list \<Rightarrow> nat \<Rightarrow> nat \<Rightarrow> string list \<Rightarrow> token822 list \<Rightarrow> compound" where
  "compound_lines ty cstart cend cs [] nest len ps tlist =
     (let w = walk ty cstart cend cs nest tlist
      in if w_rest w \<noteq> [] then
           \<lparr>k_len = len + length (w_text w) + 1, k_pieces = ps @ [w_text w], k_closed = True, k_rest = tl (w_rest w), k_more = [],
            k_list = w_list w\<rparr>
         else
           \<lparr>k_len = len + length (w_text w), k_pieces = ps @ [w_text w], k_closed = False, k_rest = [], k_more = [],
            k_list = MKERROR (''missing closing '' @ [CHR 0x27, cend, CHR 0x27] @ '' in token'') (w_list w)\<rparr>)"
| "compound_lines ty cstart cend cs (l # lns) nest len ps tlist =
     (let w = walk ty cstart cend cs nest tlist
      in if w_rest w \<noteq> [] then
           \<lparr>k_len = len + length (w_text w) + 1, k_pieces = ps @ [w_text w], k_closed = True, k_rest = tl (w_rest w), k_more = l # lns,
            k_list = w_list w\<rparr>
         else
           compound_lines ty cstart cend l lns (w_nest w) (len + length (w_text w) + 1)
             (ps @ [w_text w @ (if w_dang w then [BSLASH] else [])]) (w_list w))"

definition hdr_compound :: "TokenType \<Rightarrow> char \<Rightarrow> char \<Rightarrow> string \<Rightarrow> string list \<Rightarrow> token822 list \<Rightarrow> compound" where
  "hdr_compound ty cstart cend cs lns tlist = compound_lines ty cstart cend (tl cs) lns 1 1 [] tlist"

text \<open>
  \<open>_unfold\<close> copies the pieces, at most \<open>len\<close> characters, with one space for a line break and the blanks behind it.
  The flag tells that it has reached the end of the token; if not, the scanner goes on at a wrong place.
\<close>

definition is_folding :: "char \<Rightarrow> bool" where
  "is_folding c \<longleftrightarrow> c = SPC \<or> c = HT \<or> c = LF \<or> c = CR"

fun skip_folding :: "nat \<Rightarrow> string \<Rightarrow> nat \<times> string" where
  "skip_folding len [] = (len, [])"
| "skip_folding len (c # cs) = (if len > 0 \<and> is_folding c then skip_folding (len - 1) cs else (len, c # cs))"

lemma skip_folding_length: "length (snd (skip_folding len cs)) \<le> length cs"
  by (induction len cs rule: skip_folding.induct) auto

function unfold_loop :: "nat \<Rightarrow> string \<Rightarrow> string list \<Rightarrow> string \<times> bool" where
  "unfold_loop len start ps =
     (case start of
        c # cs \<Rightarrow>
          if len = 0 then ([], False)
          else if c = LF then unfold_loop (len - 1) cs ps
          else (case unfold_loop (len - 1) cs ps of (s, e) \<Rightarrow> (c # s, e))
      | [] \<Rightarrow>
          (case ps of
             [] \<Rightarrow> ([], True)
           | p # ps \<Rightarrow>
               if len = 0 then ([], False)
               else (case skip_folding len p of (len, p) \<Rightarrow>
                     case unfold_loop (len - 1) p ps of (s, e) \<Rightarrow> (SPC # s, e))))"
  by pat_completeness auto
termination
  by (relation "measures [\<lambda>(len, start, ps). length ps, \<lambda>(len, start, ps). length start]")
     (auto split: if_splits)

declare unfold_loop.simps [simp del]

definition strip_spaces :: "string \<Rightarrow> string" where
  "strip_spaces s = rev (dropWhile (\<lambda>c. c = SPC) (rev s))"

definition unfold :: "TokenType \<Rightarrow> nat \<Rightarrow> string list \<Rightarrow> string \<times> bool" where
  "unfold ty len ps =
     (case unfold_loop len (hd ps) (tl ps) of (s, e) \<Rightarrow> (if ty = Comment then strip_spaces s else s, e))"

section \<open>The scanner\<close>

record scanres =
  s_text :: string
  s_type :: TokenType
  s_rest :: string
  s_more :: "string list"
  s_list :: "token822 list"

definition plain_tok :: "TokenType \<Rightarrow> nat \<Rightarrow> string \<Rightarrow> string list \<Rightarrow> token822 list \<Rightarrow> scanres" where
  "plain_tok ty k cs lns tlist = \<lparr>s_text = take k cs, s_type = ty, s_rest = drop k cs, s_more = lns, s_list = tlist\<rparr>"

definition run :: "(char \<Rightarrow> bool) \<Rightarrow> string \<Rightarrow> nat" where
  "run P cs = 1 + length (takeWhile P (tl cs))"

definition scan_fold :: "nat list \<Rightarrow> string \<Rightarrow> string list \<Rightarrow> token822 list \<Rightarrow> scanres" where
  "scan_fold tab cs lns tlist =
     (if cls tab (hd cs) C_r then
        let k = run (\<lambda>c. cls tab c C_r) cs; cp = drop k cs
        in if cp = [] \<or> \<not> cls tab (hd cp) C_l then plain_tok Fold k cs lns (MKERROR ''CR without LF (newline)'' tlist)
           else if length cp > 1 then
             plain_tok Fold (k + run (\<lambda>c. cls tab c C_l) cp) cs lns (MKERROR ''too many newlines (LFs) in field[1]'' tlist)
           else plain_tok Fold k cs lns tlist
      else plain_tok Fold (run (\<lambda>c. cls tab c C_l) cs) cs lns (MKERROR ''too many newlines (LFs) in field[2]'' tlist))"

definition scan_compound :: "string \<Rightarrow> string list \<Rightarrow> token822 list \<Rightarrow> scanres option" where
  "scan_compound cs lns tlist =
     (let (ty, cend) = (if hd cs = DQUOTE then (String, DQUOTE) else if hd cs = CHR ''['' then (DomainLiteral, CHR '']'') else (Comment, CHR '')''));
          k = hdr_compound ty (hd cs) cend cs lns tlist
      in if length (k_more k) \<noteq> length lns then
           (case unfold ty (k_len k) (k_pieces k) of
              (s, e) \<Rightarrow> if e then Some \<lparr>s_text = s, s_type = ty, s_rest = k_rest k, s_more = k_more k, s_list = k_list k\<rparr> else None)
         else Some \<lparr>s_text = hd (k_pieces k), s_type = ty, s_rest = k_rest k, s_more = k_more k, s_list = k_list k\<rparr>)"

definition scan_illegal :: "nat list \<Rightarrow> string \<Rightarrow> string list \<Rightarrow> token822 list \<Rightarrow> scanres" where
  "scan_illegal tab cs lns tlist =
     (let k = run (\<lambda>c. cls tab c C_c \<and> \<not> cls tab c C_8) cs; cp = drop k cs; bit8 = (cp \<noteq> [] \<and> cls tab (hd cp) C_8);
          msg = (if bit8 then ''illegal 8-bit/control character'' else ''illegal control character'') @ (if k > 1 then ''s'' else [])
      in plain_tok Atom k cs lns (MKERROR msg tlist))"

definition scan_token :: "nat list \<Rightarrow> string \<Rightarrow> string list \<Rightarrow> token822 list \<Rightarrow> scanres option" where
  "scan_token tab cs lns tlist =
     (let c = hd cs
      in if cls tab c C_w then Some (plain_tok Space (run (\<lambda>c. cls tab c C_w) cs) cs lns tlist)
         else if cls tab c C_r \<or> cls tab c C_l then Some (scan_fold tab cs lns tlist)
         else if cls tab c C_s \<and> c \<in> {CHR ''('', DQUOTE, CHR ''[''} then scan_compound cs lns tlist
         else if cls tab c C_s then
           Some (plain_tok Special
             (if length cs > 1 \<and> (c = CHR '':'' \<and> cs ! 1 = CHR '':'' \<or> c = BSLASH \<and> cs ! 1 \<noteq> NUL \<and> cls tab (cs ! 1) C_s) then 2 else 1)
             cs lns tlist)
         else if \<not> cls tab c (C_c OR C_8) then
           Some (plain_tok Atom (run (\<lambda>c. \<not> cls tab c (C_w OR C_s OR C_c OR C_l OR C_r)) cs) cs lns tlist)
         else Some (scan_illegal tab cs lns tlist))"

text \<open>\<open>copyToken\<close> uses at most the first 50000 characters.\<close>

definition copyToken :: "TokenType \<Rightarrow> string \<Rightarrow> token822" where
  "copyToken ty s = \<lparr>t_pname = take 50000 s, t_type = ty\<rparr>"


text \<open>Every token takes at least one character, or goes on to a later line.\<close>

definition walked :: "walkres \<Rightarrow> string" where
  "walked w = w_text w @ (if w_dang w then [BSLASH] else []) @ w_rest w"

lemma w_cons_fields [simp]:
  "walked (w_cons p w) = p @ walked w" "w_rest (w_cons p w) = w_rest w" "w_dang (w_cons p w) = w_dang w"
  "w_nest (w_cons p w) = w_nest w" "w_list (w_cons p w) = w_list w" "w_text (w_cons p w) = p @ w_text w"
  by (simp_all add: w_cons_def walked_def)

lemma walk_rule:
  assumes "\<And>n l. P [] n l \<lparr>w_text = [], w_rest = [], w_nest = n, w_dang = False, w_list = l\<rparr>"
    "\<And>cs n l. P (b # cs) n l \<lparr>w_text = [], w_rest = b # cs, w_nest = n - 1, w_dang = False, w_list = l\<rparr>"
    "\<And>n l. P [BSLASH] n l \<lparr>w_text = [], w_rest = [], w_nest = n, w_dang = True, w_list = MKERROR ''missing character after backslash'' l\<rparr>"
    "\<And>p cs n l n' l'. P cs n' l' (walk ty a b cs n' l') \<Longrightarrow> l' = l \<or> (\<exists>m. l' = MKERROR m l) \<Longrightarrow> P (p @ cs) n l (w_cons p (walk ty a b cs n' l'))"
  shows "P cs nest tlist (walk ty a b cs nest tlist)"
proof (induction cs arbitrary: nest tlist rule: length_induct)
  case (1 cs)
  show ?case
  proof (cases cs)
    case Nil
    then show ?thesis using assms(1) by simp
  next
    case (Cons c ds)
    have ih: "P (p @ es) nest tlist (w_cons p (walk ty a b es n l))" if "c # ds = p @ es" "p \<noteq> []" "l = tlist \<or> (\<exists>m. l = MKERROR m tlist)" for p es n l
      using 1 that Cons assms(4) [of es n l] by auto
    consider "c = b" | "c \<noteq> b" "c = a" | "c \<noteq> b" "c \<noteq> a" "c = BSLASH" | "c \<noteq> b" "c \<noteq> a" "c \<noteq> BSLASH" by blast
    then show ?thesis
    proof cases
      case 1
      then show ?thesis unfolding Cons using ih [of "[c]" ds] assms(2) [of ds nest tlist] by (cases "nest \<le> 1") simp_all
    next
      case 2
      then show ?thesis unfolding Cons using ih [of "[c]" ds] by (cases "ty = Comment") auto
    next
      case 3
      then show ?thesis unfolding Cons using ih [of "[c, hd ds]" "List.tl ds"] assms(3) [of nest tlist] by (cases ds) simp_all
    next
      case 4
      then show ?thesis unfolding Cons using ih [of "[c]" ds] by (cases "c = CR") auto
    qed
  qed
qed

lemma walk_walked: "walked (walk ty a b cs nest tlist) = cs"
  by (rule walk_rule [where P = "\<lambda>cs n l w. walked w = cs"]) (simp_all, simp_all add: walked_def)

lemma walk_length: "length (w_text (walk ty a b cs nest tlist)) + length (w_rest (walk ty a b cs nest tlist)) \<le> length cs"
  using arg_cong [OF walk_walked [of ty a b cs nest tlist], of length] by (simp add: walked_def split: if_splits)

lemma compound_lines_decreases:
  "length (k_more (compound_lines ty a b cs lns nest len ps tlist)) < length lns \<or>
   k_more (compound_lines ty a b cs lns nest len ps tlist) = lns \<and> length (k_rest (compound_lines ty a b cs lns nest len ps tlist)) \<le> length cs"
proof (induction ty a b cs lns nest len ps tlist rule: compound_lines.induct)
  case (1 ty a b cs nest len ps tlist)
  then show ?case using walk_length [of ty a b cs nest tlist] by (auto simp: Let_def)
next
  case (2 ty a b cs l lns nest len ps tlist)
  then show ?case using walk_length [of ty a b cs nest tlist] by (auto simp: Let_def)
qed

lemma run_pos: "0 < run P cs"
  by (simp add: run_def)

lemma plain_tok_decreases: "cs \<noteq> [] \<Longrightarrow> 0 < k \<Longrightarrow> s_more (plain_tok ty k cs lns tl0) = lns \<and> length (s_rest (plain_tok ty k cs lns tl0)) < length cs"
  by (cases cs; cases k) (auto simp: plain_tok_def)

lemma scan_token_decreases:
  assumes "scan_token tab cs lns tlist = Some r" "cs \<noteq> []"
  shows "length (s_more r) < length lns \<or> s_more r = lns \<and> length (s_rest r) < length cs"
proof -
  have c: "length (k_more (hdr_compound ty a b cs lns tlist)) < length lns \<or>
      k_more (hdr_compound ty a b cs lns tlist) = lns \<and> length (k_rest (hdr_compound ty a b cs lns tlist)) < length cs" for ty a b
    using compound_lines_decreases [of ty a b "tl cs" lns 1 1 "[]" tlist] assms(2) by (cases cs) (auto simp: hdr_compound_def)
  have f: "s_more (scan_fold tab cs lns tlist) = lns \<and> length (s_rest (scan_fold tab cs lns tlist)) < length cs"
    using assms(2) by (auto simp: scan_fold_def Let_def plain_tok_decreases run_pos)
  have i: "s_more (scan_illegal tab cs lns tlist) = lns \<and> length (s_rest (scan_illegal tab cs lns tlist)) < length cs"
    using assms(2) by (simp add: scan_illegal_def Let_def plain_tok_decreases run_pos)
  have s: ?thesis if "scan_compound cs lns tlist = Some r"
  proof -
    obtain ty cend where t: "(ty, cend) = (if hd cs = DQUOTE then (String, DQUOTE) else if hd cs = CHR ''['' then (DomainLiteral, CHR '']'') else (Comment, CHR '')''))"
      by (metis surj_pair)
    then have "s_more r = k_more (hdr_compound ty (hd cs) cend cs lns tlist) \<and> s_rest r = k_rest (hdr_compound ty (hd cs) cend cs lns tlist)"
      using that unfolding scan_compound_def t [symmetric] by (simp add: Let_def split: if_splits prod.splits)
        (metis (lifting) scanres.select_convs(3,4))+
    then show ?thesis using c [of ty "hd cs" cend] by simp
  qed
  show ?thesis
    using assms s f i by (auto simp: scan_token_def Let_def plain_tok_decreases run_pos split: if_splits)
qed

function scan_loop :: "nat list \<Rightarrow> string \<Rightarrow> string list \<Rightarrow> token822 list \<Rightarrow> (token822 list \<times> string list) option" where
  "scan_loop tab cs lns tlist =
     (if cs = [] then Some (tlist, lns)
      else case scan_token tab cs lns tlist of
             None \<Rightarrow> None
           | Some r \<Rightarrow> scan_loop tab (s_rest r) (s_more r) (copyToken (s_type r) (s_text r) # s_list r))"
  by pat_completeness auto
termination
  by (relation "measures [\<lambda>(tab, cs, lns, tlist). length lns, \<lambda>(tab, cs, lns, tlist). length cs]")
     (auto dest: scan_token_decreases)

declare scan_loop.simps [simp del]

text \<open>
  \<open>scan822\<close> with its temporary specials; NUL stands for none.  The result holds the tokens, the lines not scanned yet and
  the table of classes; it is \<open>None\<close> when the end of a folded token is missed.
\<close>

definition or_special :: "char \<Rightarrow> nat list \<Rightarrow> nat list" where
  "or_special c tab = (if c = NUL then tab else tab[ord c := tab ! ord c OR C_s])"

definition restore :: "char \<Rightarrow> nat \<Rightarrow> nat list \<Rightarrow> nat list" where
  "restore c v tab = (if c = NUL then tab else tab[ord c := v])"

definition scan822 :: "nat list \<Rightarrow> string \<Rightarrow> char \<Rightarrow> char \<Rightarrow> string list \<Rightarrow> (token822 list \<times> string list \<times> nat list) option" where
  "scan822 tab cs c1 c2 lns =
     (if cs = [] then Some ([], lns, tab)
      else
        let sc1 = tab ! ord c1; tab1 = or_special c1 tab;
            sc2 = tab1 ! ord c2; tab2 = or_special c2 tab1
        in map_option (\<lambda>(tlist, lns). (rev tlist, lns, restore c2 sc2 (restore c1 sc1 tab2))) (scan_loop tab2 cs lns []))"

text \<open>The scanner of unstructured text.\<close>

definition scan_utoken :: "nat list \<Rightarrow> string \<Rightarrow> string list \<Rightarrow> token822 list \<Rightarrow> scanres" where
  "scan_utoken tab cs lns tlist =
     (let c = hd cs
      in if cls tab c C_w then plain_tok Space (run (\<lambda>c. cls tab c C_w) cs) cs lns tlist
         else if cls tab c C_r \<or> cls tab c C_l then scan_fold tab cs lns tlist
         else plain_tok Atom (run (\<lambda>c. \<not> cls tab c (C_w OR C_l OR C_r)) cs) cs lns tlist)"

lemma scan_fold_decreases: "cs \<noteq> [] \<Longrightarrow> length (s_rest (scan_fold tab cs lns tlist)) < length cs"
  by (auto simp: scan_fold_def Let_def plain_tok_decreases run_pos)

lemma scan_utoken_decreases: "cs \<noteq> [] \<Longrightarrow> length (s_rest (scan_utoken tab cs lns tlist)) < length cs"
  by (simp add: scan_utoken_def Let_def plain_tok_decreases run_pos scan_fold_decreases)

function scan_uloop :: "nat list \<Rightarrow> string \<Rightarrow> token822 list \<Rightarrow> token822 list" where
  "scan_uloop tab cs tlist =
     (if cs = [] then tlist
      else let r = scan_utoken tab cs [] tlist
           in scan_uloop tab (s_rest r) (copyToken (s_type r) (s_text r) # s_list r))"
  by pat_completeness auto
termination
  by (relation "measure (\<lambda>(tab, cs, tlist). length cs)") (auto simp: scan_utoken_decreases)

declare scan_uloop.simps [simp del]

definition scan822utext :: "nat list \<Rightarrow> string \<Rightarrow> token822 list" where
  "scan822utext tab cs = rev (scan_uloop tab cs [])"

section \<open>The scanner loses nothing\<close>

text \<open>The text a token stands for in the header.\<close>

definition lexeme :: "token822 \<Rightarrow> string" where
  "lexeme t =
     (case t_type t of
        String \<Rightarrow> [DQUOTE] @ t_pname t @ [DQUOTE]
      | DomainLiteral \<Rightarrow> ''['' @ t_pname t @ '']''
      | Comment \<Rightarrow> ''('' @ t_pname t @ '')''
      | Error \<Rightarrow> []
      | _ \<Rightarrow> t_pname t)"

definition lexemes :: "token822 list \<Rightarrow> string" where
  "lexemes ts = concat (map lexeme ts)"

lemma lexemes_simps [simp]: "lexemes [] = []" "lexemes (t # ts) = lexeme t @ lexemes ts" "lexemes (ts @ us) = lexemes ts @ lexemes us"
  by (simp_all add: lexemes_def)

definition unclosed :: "token822 \<Rightarrow> bool" where
  "unclosed t \<longleftrightarrow> t_type t = Error \<and> take 16 (t_pname t) = ''missing closing ''"

lemma lexeme_MKERROR [simp]: "lexemes (rev (MKERROR m ts)) = lexemes (rev ts)"
  by (simp add: MKERROR_def lexeme_def)

lemma walk_closed:
  "w_rest (walk ty a b cs nest tlist) \<noteq> [] \<Longrightarrow> \<not> w_dang (walk ty a b cs nest tlist) \<and> hd (w_rest (walk ty a b cs nest tlist)) = b"
  by (rule walk_rule [where P = "\<lambda>cs n l w. w_rest w \<noteq> [] \<longrightarrow> \<not> w_dang w \<and> hd (w_rest w) = b", THEN mp]) simp_all

lemma walk_split:
  assumes "w_rest (walk ty a b cs nest tlist) \<noteq> []"
  shows "w_text (walk ty a b cs nest tlist) @ b # List.tl (w_rest (walk ty a b cs nest tlist)) = cs"
proof -
  have "hd (w_rest (walk ty a b cs nest tlist)) # List.tl (w_rest (walk ty a b cs nest tlist)) = w_rest (walk ty a b cs nest tlist)"
    using assms by simp
  then show ?thesis using walk_walked [of ty a b cs nest tlist] walk_closed [OF assms] by (simp add: walked_def)
qed

text \<open>An error is added to the list of tokens; it stands for no text of the header.\<close>

definition grown :: "token822 list \<Rightarrow> token822 list \<Rightarrow> bool" where
  "grown tlist l \<longleftrightarrow> lexemes (rev l) = lexemes (rev tlist) \<and> set tlist \<subseteq> set l"

lemma grown_refl [simp]: "grown l l"
  by (simp add: grown_def)

lemma grown_MKERROR [simp]: "grown l (MKERROR m l)"
  by (auto simp: grown_def MKERROR_def lexeme_def)

lemma grown_trans: "grown a b \<Longrightarrow> grown b c \<Longrightarrow> grown a c"
  by (auto simp: grown_def)

lemma walk_grown: "grown tlist (w_list (walk ty a b cs nest tlist))"
  by (rule walk_rule [where P = "\<lambda>cs n l w. grown l (w_list w)"]) (auto intro: grown_trans [OF grown_MKERROR])

lemma plain_tok_lexeme:
  assumes "ty \<in> {Atom, Fold, Space, Special}" "length cs \<le> 50000"
  shows "lexeme (copyToken (s_type (plain_tok ty k cs lns l)) (s_text (plain_tok ty k cs lns l))) @ s_rest (plain_tok ty k cs lns l) = cs"
proof -
  have "take 50000 (take k cs) = take k cs" using assms(2) by (intro take_all) simp
  then show ?thesis using assms(1) by (auto simp: plain_tok_def copyToken_def lexeme_def simp del: take_take)
qed

lemma plain_tok_list [simp]: "s_list (plain_tok ty k cs lns l) = l" "s_more (plain_tok ty k cs lns l) = lns" "s_type (plain_tok ty k cs lns l) = ty"
  by (simp_all add: plain_tok_def)

text \<open>What one token of a single line keeps of the text.\<close>

definition faithful :: "string \<Rightarrow> token822 list \<Rightarrow> scanres \<Rightarrow> bool" where
  "faithful cs tlist r \<longleftrightarrow>
     s_more r = [] \<and> grown tlist (s_list r) \<and>
     (lexeme (copyToken (s_type r) (s_text r)) @ s_rest r = cs \<or> Bex (set (s_list r)) unclosed)"

lemma faithful_plain [simp]:
  "ty \<in> {Atom, Fold, Space, Special} \<Longrightarrow> length cs \<le> 50000 \<Longrightarrow> faithful cs l (plain_tok ty k cs [] l)"
  "ty \<in> {Atom, Fold, Space, Special} \<Longrightarrow> length cs \<le> 50000 \<Longrightarrow> faithful cs l (plain_tok ty k cs [] (MKERROR m l))"
  using plain_tok_lexeme by (auto simp: faithful_def)

lemma scan_compound_faithful:
  assumes "length cs \<le> 50000" "cs \<noteq> []" "hd cs \<in> {CHR ''('', DQUOTE, CHR ''[''}"
  shows "\<exists>r. scan_compound cs [] tlist = Some r \<and> faithful cs tlist r"
proof -
  obtain ty b where t: "(ty, b) = (if hd cs = DQUOTE then (String, DQUOTE) else if hd cs = CHR ''['' then (DomainLiteral, CHR '']'') else (Comment, CHR '')''))"
    by (metis surj_pair)
  obtain a cs' where cs: "cs = a # cs'" using assms(2) list.exhaust by blast
  define w where "w = walk ty a b cs' (Suc 0) tlist"
  have g: "grown tlist (w_list w)" unfolding w_def by (rule walk_grown)
  have lx: "lexeme (copyToken ty s) = a # s @ [b]" if "length s \<le> 50000" for s
    using t assms(3) that cs by (auto simp: lexeme_def copyToken_def split: if_splits)
  show ?thesis
  proof (cases "w_rest w = []")
    case True
    then show ?thesis unfolding scan_compound_def t [symmetric]
      using g grown_trans [OF g grown_MKERROR [of "w_list w"]]
      by (simp add: Let_def hdr_compound_def cs w_def [symmetric] faithful_def) (simp add: unclosed_def MKERROR_def)
  next
    case False
    have s: "w_text w @ b # List.tl (w_rest w) = cs'" using walk_split [of ty a b cs' "Suc 0" tlist] False unfolding w_def .
    then have "length (w_text w) \<le> 50000" using assms(1) cs by (metis add_leD1 length_Cons length_append Suc_leD)
    then show ?thesis unfolding scan_compound_def t [symmetric]
      using g s False by (simp add: Let_def hdr_compound_def cs w_def [symmetric] faithful_def lx)
  qed
qed

lemma scan_token_faithful:
  assumes "length cs \<le> 50000" "cs \<noteq> []"
  shows "\<exists>r. scan_token tab cs [] tlist = Some r \<and> faithful cs tlist r"
proof -
  have f: "faithful cs tlist (scan_fold tab cs [] tlist)" and i: "faithful cs tlist (scan_illegal tab cs [] tlist)"
    using assms by (simp_all add: scan_fold_def scan_illegal_def Let_def)
  show ?thesis
    using f i scan_compound_faithful [OF assms] assms by (simp add: scan_token_def Let_def)
qed

lemma scan_loop_faithful:
  assumes "length cs \<le> 50000"
  shows "\<exists>l. scan_loop tab cs [] tlist = Some (l, []) \<and> set tlist \<subseteq> set l \<and> (lexemes (rev l) = lexemes (rev tlist) @ cs \<or> Bex (set l) unclosed)"
  using assms
proof (induction cs arbitrary: tlist rule: length_induct)
  case (1 cs)
  show ?case
  proof (cases "cs = []")
    case True
    then show ?thesis by (simp add: scan_loop.simps)
  next
    case False
    obtain r where r: "scan_token tab cs [] tlist = Some r" "faithful cs tlist r"
      using scan_token_faithful [OF 1(2) False] by blast
    have d: "length (s_rest r) < length cs" using scan_token_decreases [OF r(1) False] by simp
    obtain l where l: "scan_loop tab (s_rest r) [] (copyToken (s_type r) (s_text r) # s_list r) = Some (l, [])"
      "set (copyToken (s_type r) (s_text r) # s_list r) \<subseteq> set l"
      "lexemes (rev l) = lexemes (rev (copyToken (s_type r) (s_text r) # s_list r)) @ s_rest r \<or> Bex (set l) unclosed"
      using 1 d by (meson less_imp_le_nat order_trans)
    show ?thesis
      using r l False by (subst scan_loop.simps) (auto simp: faithful_def grown_def)
  qed
qed

text \<open>
  C28: A header line of at most 50000 characters is scanned to the end, and the texts of the tokens, with the delimiters of
  strings, comments and domain literals put back, are the line itself: nothing is lost, added or reordered.  The exception
  is a line with an unclosed compound token, which is reported as an error token.
\<close>

theorem scan822_lossless:
  assumes "length cs \<le> 50000"
  shows "\<exists>toks tab'. scan822 tab cs c1 c2 [] = Some (toks, [], tab') \<and> (lexemes toks = cs \<or> Bex (set toks) unclosed)"
proof -
  obtain l where "scan_loop (or_special c2 (or_special c1 tab)) cs [] [] = Some (l, [])" "lexemes (rev l) = cs \<or> Bex (set l) unclosed"
    using scan_loop_faithful [OF assms] by fastforce
  then show ?thesis by (auto simp: scan822_def Let_def)
qed

theorem scan822_lossless_witness:
  "\<exists>toks tab'. scan822 rfc_ctype ''To: (a (b)) x@y'' NUL NUL [] = Some (toks, [], tab') \<and> (lexemes toks = ''To: (a (b)) x@y'' \<or> Bex (set toks) unclosed)"
  by (rule scan822_lossless) simp

section \<open>The table of classes\<close>

lemma scan822_table:
  "scan822 tab cs c1 c2 lns = Some (toks, lns', tab') \<Longrightarrow> cs \<noteq> [] \<Longrightarrow>
   tab' = restore c2 (or_special c1 tab ! ord c2) (restore c1 (tab ! ord c1) (or_special c2 (or_special c1 tab)))"
  by (auto simp: scan822_def Let_def)

text \<open>
  After a scan with two different additional specials the table of character classes is what it was before.
\<close>

lemma scan822_restores_table:
  assumes "scan822 tab cs c1 c2 lns = Some (toks, lns', tab')" "c1 \<noteq> c2"
  shows "tab' = tab"
proof (cases "cs = []")
  case True
  then show ?thesis using assms by (simp add: scan822_def)
next
  case False
  have "ord c1 \<noteq> ord c2" using assms(2) by (metis char_of_ord)
  then show ?thesis using scan822_table [OF assms(1) False]
    by (auto simp: or_special_def restore_def list_update_swap)
qed

lemma scan822_restores_table_witness:
  "\<forall>toks lns' tab'. scan822 rfc_ctype ''a!b%c'' CHR ''!'' CHR ''%'' [] = Some (toks, lns', tab') \<longrightarrow> tab' = rfc_ctype"
  using scan822_restores_table [of rfc_ctype "''a!b%c''" "CHR ''!''" "CHR ''%''" "[]"] by fastforce

text \<open>
  With the same character twice its old class is saved after the bit has been set, so it stays a special for every later scan.
\<close>

lemma scan822_table_leak:
  assumes "scan822 tab cs c c lns = Some (toks, lns', tab')" "cs \<noteq> []" "c \<noteq> NUL" "length tab = 256"
  shows "tab' = tab[ord c := tab ! ord c OR C_s]"
proof -
  have "ord c < length tab" using assms(4) by simp
  then show ?thesis using scan822_table [OF assms(1,2)] assms(3) by (simp add: or_special_def restore_def)
qed

section \<open>Folded tokens\<close>

lemma skip_folding_budget:
  "skip_folding len p = (len', p') \<Longrightarrow> len' \<le> len \<and> len' + length p = len + length p'"
  by (induction len p arbitrary: len' p' rule: skip_folding.induct) (auto split: if_splits)

lemma unfold_loop_steps:
  "unfold_loop len [] [] = ([], True)" "unfold_loop 0 [] (p # ps) = ([], False)" "unfold_loop 0 (c # cs) ps = ([], False)"
  "0 < len \<Longrightarrow> skip_folding len p = (len', p') \<Longrightarrow>
   unfold_loop len [] (p # ps) = (SPC # fst (unfold_loop (len' - 1) p' ps), snd (unfold_loop (len' - 1) p' ps))"
  "0 < len \<Longrightarrow> unfold_loop len (c # cs) ps =
     ((if c = LF then [] else [c]) @ fst (unfold_loop (len - 1) cs ps), snd (unfold_loop (len - 1) cs ps))"
  by (subst unfold_loop.simps, simp split: prod.splits)+

lemma unfold_loop_fits: "length (fst (unfold_loop len start ps)) \<le> len"
proof (induction len start ps rule: unfold_loop.induct)
  case (1 len start ps)
  note ih = 1
  show ?case
  proof (cases start)
    case Nil
    show ?thesis
    proof (cases "len = 0 \<or> ps = []")
      case True
      then show ?thesis using Nil by (cases ps) (auto simp: unfold_loop_steps)
    next
      case False
      then obtain p qs where p: "ps = p # qs" by (meson list.exhaust)
      obtain len' p' where s: "skip_folding len p = (len', p')" by (meson surj_pair)
      have "length (fst (unfold_loop (len' - 1) p' qs)) \<le> len' - 1" using ih(1) Nil p False s by (metis surj_pair)
      moreover have "len' \<le> len" using skip_folding_budget [OF s] by simp
      ultimately have "length (fst (unfold_loop (len' - 1) p' qs)) \<le> len - 1" by linarith
      then show ?thesis using Nil p s False by (simp add: unfold_loop_steps(4) [of len p len' p'])
    qed
  next
    case (Cons c cs)
    have "length (fst (unfold_loop (len - 1) cs ps)) \<le> len - 1" if "len \<noteq> 0" using ih(2,3) Cons that by blast
    then show ?thesis using Cons by (cases "len = 0") (auto simp: unfold_loop_steps)
  qed
qed

lemma unfold_loop_reaches:
  "length start + sum_list (map (\<lambda>p. length p + 1) ps) \<le> len \<Longrightarrow> snd (unfold_loop len start ps)"
proof (induction len start ps rule: unfold_loop.induct)
  case (1 len start ps)
  note ih = 1
  show ?case
  proof (cases start)
    case Nil
    show ?thesis
    proof (cases ps)
      case Nil
      then show ?thesis using \<open>start = []\<close> by (simp add: unfold_loop_steps)
    next
      case (Cons p qs)
      obtain len' p' where s: "skip_folding len p = (len', p')" by (meson surj_pair)
      have "length p' + sum_list (map (\<lambda>p. length p + 1) qs) \<le> len' - 1" using ih(4) skip_folding_budget [OF s] Nil Cons by simp linarith
      then have "snd (unfold_loop (len' - 1) p' qs)" using ih(1) [OF Nil Cons _ s [symmetric]] ih(4) Nil Cons by simp
      then show ?thesis using Nil Cons s ih(4) by (simp add: unfold_loop_steps(4) [of len p len' p'])
    qed
  next
    case (Cons c cs)
    have "snd (unfold_loop (len - 1) cs ps)" using ih Cons by (cases "c = LF") simp_all
    then show ?thesis using Cons ih(4) by (simp add: unfold_loop_steps)
  qed
qed

text \<open>Without a backslash at the end of a line the length of a compound token is at least that of its pieces.\<close>

definition no_dangling :: "string \<Rightarrow> bool" where
  "no_dangling l \<longleftrightarrow> l = [] \<or> last l \<noteq> BSLASH"

lemma walk_no_dangling: "no_dangling cs \<Longrightarrow> \<not> w_dang (walk ty a b cs nest tlist)"
  using walk_walked [of ty a b cs nest tlist] walk_closed [of ty a b cs nest tlist]
  by (cases "w_rest (walk ty a b cs nest tlist) = []") (auto simp: no_dangling_def walked_def dest: arg_cong [of _ _ last])

definition size_of :: "string list \<Rightarrow> nat" where
  "size_of ps = sum_list (map (\<lambda>p. length p + 1) ps)"

lemma size_of_simps [simp]: "size_of [] = 0" "size_of (p # ps) = length p + 1 + size_of ps" "size_of (ps @ qs) = size_of ps + size_of qs"
  by (simp_all add: size_of_def)

lemma compound_lines_size:
  assumes "\<forall>l\<in>set (cs # lns). no_dangling l" "size_of ps \<le> len"
  shows "size_of (k_pieces (compound_lines ty a b cs lns nest len ps tlist)) \<le> k_len (compound_lines ty a b cs lns nest len ps tlist) + 1
    \<and> k_pieces (compound_lines ty a b cs lns nest len ps tlist) \<noteq> []"
  using assms
proof (induction ty a b cs lns nest len ps tlist rule: compound_lines.induct)
  case (1 ty a b cs nest len ps tlist)
  then show ?case by (simp add: Let_def)
next
  case (2 ty a b cs l lns nest len ps tlist)
  then show ?case using walk_no_dangling [of cs ty a b nest tlist] by (simp add: Let_def)
qed

lemma walk_suffix: "suffix (List.tl (w_rest (walk ty a b cs nest tlist))) cs"
proof (cases "w_rest (walk ty a b cs nest tlist) = []")
  case False
  then show ?thesis using walk_split [OF False] by (metis suffix_ConsD suffixI)
qed simp

lemma compound_lines_more:
  "set (k_more (compound_lines ty a b cs lns nest len ps tlist)) \<subseteq> set lns \<and>
   (\<exists>l\<in>set (cs # lns). suffix (k_rest (compound_lines ty a b cs lns nest len ps tlist)) l)"
proof (induction ty a b cs lns nest len ps tlist rule: compound_lines.induct)
  case (1 ty a b cs nest len ps tlist)
  then show ?case using walk_suffix by (auto simp: Let_def)
next
  case (2 ty a b cs l lns nest len ps tlist)
  then show ?case using walk_suffix [of ty a b cs nest tlist] by (auto simp: Let_def)
qed

lemma unfold_fits: "length (fst (unfold ty len ps)) \<le> len"
proof -
  have "length (strip_spaces s) \<le> length s" for s unfolding strip_spaces_def by (metis length_dropWhile_le length_rev)
  then show ?thesis using unfold_loop_fits [of len "hd ps" "List.tl ps"]
    by (auto simp: unfold_def split: prod.splits) (meson order_trans)
qed

lemma no_dangling_suffix: "suffix k l \<Longrightarrow> no_dangling l \<Longrightarrow> no_dangling k"
  by (auto simp: no_dangling_def suffix_def)

lemma no_dangling_drop: "no_dangling cs \<Longrightarrow> no_dangling (drop k cs)"
  by (rule no_dangling_suffix [OF suffix_drop])

definition clean :: "string \<Rightarrow> string list \<Rightarrow> bool" where
  "clean cs lns \<longleftrightarrow> (\<forall>l\<in>set (cs # lns). no_dangling l)"

lemma clean_plain: "clean cs lns \<Longrightarrow> clean (s_rest (plain_tok ty k cs lns l)) lns"
  by (simp add: clean_def plain_tok_def no_dangling_drop)

lemma scan_compound_total:
  assumes "clean cs lns"
  shows "\<exists>r. scan_compound cs lns tlist = Some r \<and> clean (s_rest r) (s_more r)"
proof -
  obtain ty b where t: "(ty, b) = (if hd cs = DQUOTE then (String, DQUOTE) else if hd cs = CHR ''['' then (DomainLiteral, CHR '']'') else (Comment, CHR '')''))"
    by (metis surj_pair)
  define k where "k = hdr_compound ty (hd cs) b cs lns tlist"
  have c: "clean (List.tl cs) lns" using assms no_dangling_drop [of cs 1] by (simp add: clean_def drop_Suc)
  have m: "set (k_more k) \<subseteq> set lns" "\<exists>l\<in>set (List.tl cs # lns). suffix (k_rest k) l"
    using compound_lines_more [of ty "hd cs" b "List.tl cs" lns 1 1 "[]" tlist] unfolding k_def hdr_compound_def by blast+
  then have cl: "clean (k_rest k) (k_more k)" using c no_dangling_suffix by (auto simp: clean_def)
  have "size_of (k_pieces k) \<le> k_len k + 1 \<and> k_pieces k \<noteq> []"
    using compound_lines_size [of "List.tl cs" lns "[]" 1 ty "hd cs" b 1 tlist] c by (simp add: k_def hdr_compound_def clean_def)
  then have "length (hd (k_pieces k)) + size_of (List.tl (k_pieces k)) \<le> k_len k"
    by (cases "k_pieces k") simp_all
  then have "snd (unfold ty (k_len k) (k_pieces k))"
    using unfold_loop_reaches [of "hd (k_pieces k)" "List.tl (k_pieces k)" "k_len k"] by (auto simp: unfold_def size_of_def split: prod.splits)
  then show ?thesis unfolding scan_compound_def t [symmetric] k_def [symmetric]
    using cl by (auto simp: Let_def k_def [symmetric] split: prod.splits)
qed

lemma scan_token_total:
  assumes "clean cs lns"
  shows "\<exists>r. scan_token tab cs lns tlist = Some r \<and> clean (s_rest r) (s_more r)"
  using scan_compound_total [OF assms] clean_plain [OF assms] by (simp add: scan_token_def scan_fold_def scan_illegal_def Let_def)

lemma scan_loop_total: "clean cs lns \<Longrightarrow> \<exists>l lns'. scan_loop tab cs lns tlist = Some (l, lns')"
proof (induction tab cs lns tlist rule: scan_loop.induct)
  case (1 tab cs lns tlist)
  obtain r where r: "scan_token tab cs lns tlist = Some r" "clean (s_rest r) (s_more r)" using scan_token_total [OF 1(2)] by blast
  show ?case
  proof (cases "cs = []")
    case False
    then show ?thesis using 1(1) [OF False r] r by (simp add: scan_loop.simps [of tab cs])
  qed (simp add: scan_loop.simps)
qed

text \<open>
  C29: The scanner finds the end of every token of a header, however the header is folded and nested, if no line ends with a
  backslash: it ends and never continues at a wrong place of the text.
\<close>

theorem scan822_total:
  assumes "\<forall>l\<in>set (cs # lns). l = [] \<or> last l \<noteq> BSLASH"
  shows "\<exists>toks lns' tab'. scan822 tab cs c1 c2 lns = Some (toks, lns', tab')"
proof -
  have "clean cs lns" using assms by (simp add: clean_def no_dangling_def)
  then show ?thesis using scan_loop_total [of cs lns "or_special c2 (or_special c1 tab)" "[]"] by (auto simp: scan822_def Let_def)
qed

theorem scan822_total_witness:
  "\<exists>toks lns' tab'. scan822 rfc_ctype ''a (b'' NUL NUL ['' c) d''] = Some (toks, lns', tab')"
  by (rule scan822_total) simp

text \<open>
  The length of a folded token leaves out a backslash at the end of a line, while the copy made by \<open>_unfold\<close> counts it.
  The closing delimiter makes up for one and the opening one for another; with three such lines the copy stops before
  the end of the token and the scanner goes on in the middle of it, with the count of characters of another line.
\<close>

lemma unfold_misses_end:
  "scan822 rfc_ctype (''(a'' @ [BSLASH]) NUL NUL [''b'' @ [BSLASH], ''c'' @ [BSLASH], ''d) f''] = None"
  by code_simp

end
