(* ===== verification/Token.thy ===== *)
theory Token
  imports Rfc822scan
begin

text \<open>
  The printing of tokens, \<^verbatim>\<open>lib/token.c\<close>.  Output to a buffer is the text written to it, with the number of bytes
  this takes (the NUL included) beside the size of the buffer; output to a file is the text written and the column of
  the cursor.  The \<open>tend\<close> that stops the printing of a list is \<open>NULL\<close> in every call, so the list is printed to
  its end.
\<close>

section \<open>Printing to a buffer\<close>

definition print_open :: "bool \<Rightarrow> TokenType \<Rightarrow> string" where
  "print_open quotespecials ty =
     (if ty = DomainLiteral then ''['' else if ty = String then [DQUOTE] else if quotespecials \<and> ty = Special then [BSLASH] else [])"

definition print_close :: "TokenType \<Rightarrow> string" where
  "print_close ty = (if ty = DomainLiteral then '']'' else if ty = String then [DQUOTE] else [])"

definition print_one :: "bool \<Rightarrow> token822 \<Rightarrow> string" where
  "print_one quotespecials t = print_open quotespecials (t_type t) @ t_pname t @ print_close (t_type t)"

text \<open>The loop of \<open>printToken\<close> looks at the space left only between two tokens; \<open>room\<close> is \<open>eob - buf\<close>, less the NUL.\<close>

fun printToken_loop :: "nat \<Rightarrow> bool \<Rightarrow> string \<Rightarrow> token822 list \<Rightarrow> string" where
  "printToken_loop room quotespecials out [] = out"
| "printToken_loop room quotespecials out (t # ts) =
     (if length out < room then printToken_loop room quotespecials (out @ print_one quotespecials t) ts else out)"

definition printToken :: "nat \<Rightarrow> token822 list \<Rightarrow> bool \<Rightarrow> string \<times> nat" where
  "printToken bufsize ts quotespecials =
     (let out = printToken_loop (bufsize - 1) quotespecials [] ts in (out, length out + 1))"

text \<open>The doubling of \<open>printdToken\<close>; it does not end on an empty buffer.\<close>

partial_function (option) grow :: "nat \<Rightarrow> nat \<Rightarrow> nat option" where
  "grow need buflen = (if need > buflen then grow need (2 * buflen) else Some buflen)"

fun printdToken_loop :: "bool \<Rightarrow> string \<Rightarrow> nat \<Rightarrow> token822 list \<Rightarrow> (string \<times> nat) option" where
  "printdToken_loop quotespecials out buflen [] = Some (out, buflen)"
| "printdToken_loop quotespecials out buflen (t # ts) =
     (case grow (length out + 3 + length (t_pname t)) buflen of
        None \<Rightarrow> None
      | Some buflen \<Rightarrow> printdToken_loop quotespecials (out @ print_one quotespecials t) buflen ts)"

definition printdToken :: "nat \<Rightarrow> token822 list \<Rightarrow> bool \<Rightarrow> (string \<times> nat) option" where
  "printdToken buflen ts quotespecials = printdToken_loop quotespecials [] buflen ts"

text \<open>\<open>formatToken\<close> has a static buffer of 2560 bytes.\<close>

definition type_name :: "TokenType \<Rightarrow> string" where
  "type_name ty =
     (case ty of
        String \<Rightarrow> ''string'' | Atom \<Rightarrow> ''atom'' | Special \<Rightarrow> ''special'' | DomainLiteral \<Rightarrow> ''domainLiteral''
      | Line \<Rightarrow> ''line'' | Space \<Rightarrow> ''space'' | Fold \<Rightarrow> ''fold'' | Word \<Rightarrow> ''word'' | Comment \<Rightarrow> ''comment''
      | Empty \<Rightarrow> ''empty'' | Error \<Rightarrow> ''error'')"

definition formatToken :: "token822 \<Rightarrow> string \<times> nat" where
  "formatToken t =
     (let name = type_name (t_type t);
          len = (if length (t_pname t) + 4 + length name \<ge> 2560 then 2560 - length name - 4 else length (t_pname t));
          out = [CHR 0x27] @ take len (t_pname t) @ [CHR 0x27] @ '' ('' @ name @ '')''
      in (out, length out + 1))"

section \<open>Printing to a file\<close>

definition file_open :: "TokenType \<Rightarrow> string" where
  "file_open ty = (if ty = DomainLiteral then ''['' else if ty = String then [DQUOTE] else if ty = Error then ''?'' else [])"

definition file_close :: "TokenType \<Rightarrow> string" where
  "file_close ty = (if ty = DomainLiteral then '']'' else if ty = String then [DQUOTE] else if ty = Error then ''?'' else [])"

fun advance :: "nat \<Rightarrow> string \<Rightarrow> nat" where
  "advance col [] = col"
| "advance col (c # cs) = advance (if c = HT then col + (8 - col mod 8) else if c = LF then 0 else col + 1) cs"

text \<open>\<open>fprintToken\<close> with a file: the text and the new column; without one: the length counted on top of \<open>onlylength\<close>.\<close>

definition fprintToken :: "token822 \<Rightarrow> nat \<Rightarrow> string \<times> nat" where
  "fprintToken t onlylength =
     (file_open (t_type t) @ t_pname t @ file_close (t_type t),
      advance (onlylength + length (file_open (t_type t))) (t_pname t) + length (file_close (t_type t)))"

definition fprintToken_length :: "token822 \<Rightarrow> nat \<Rightarrow> nat" where
  "fprintToken_length t onlylength = onlylength + length (file_open (t_type t)) + length (t_pname t) + length (file_close (t_type t))"

definition LINELEN :: nat where "LINELEN = 80"

definition breakable :: "char \<Rightarrow> bool" where
  "breakable c \<longleftrightarrow> ord c < 128 \<and> (isspace c \<or> c = CHR '','')"

fun break_back :: "string \<Rightarrow> nat \<Rightarrow> nat" where
  "break_back cp 0 = 0"
| "break_back cp (Suc i) = (if breakable (cp ! Suc i) then Suc i else break_back cp i)"

definition break_forward :: "string \<Rightarrow> nat \<Rightarrow> nat" where
  "break_forward cp i = i + length (takeWhile (\<lambda>c. \<not> breakable c) (drop i cp))"

definition breakpoint :: "string \<Rightarrow> nat \<Rightarrow> nat" where
  "breakpoint cp col =
     (if col < LINELEN \<and> length cp > LINELEN - col then
        let ncp = break_back cp (LINELEN - col) in if ncp = 0 then break_forward cp (LINELEN - col) else ncp
      else length cp)"

definition is_lwsp :: "char \<Rightarrow> bool" where
  "is_lwsp c \<longleftrightarrow> ord c < 128 \<and> isspace c"

text \<open>The text before the breakpoint, with one space for every run of white space.\<close>

function squeeze :: "string \<Rightarrow> string" where
  "squeeze [] = []"
| "squeeze (c # cs) = (if is_lwsp c then SPC # squeeze (dropWhile is_lwsp cs) else c # squeeze cs)"
  by pat_completeness auto
termination
  by (relation "measure length") (auto simp: le_imp_less_Suc length_dropWhile_le)

definition indent :: "int \<Rightarrow> string" where
  "indent foldcol =
     (if foldcol < 1 then [SPC] else replicate (nat (foldcol div 8)) HT @ replicate (nat (foldcol mod 8)) SPC)"

definition indent_col :: "int \<Rightarrow> nat" where
  "indent_col foldcol = (if foldcol < 1 then 1 else nat foldcol)"

lemma breakpoint_le: "break_back cp i \<le> i"
  by (induction i) auto

lemma breakpoint_pos: "cp \<noteq> [] \<Longrightarrow> 0 < breakpoint cp col"
  by (auto simp: breakpoint_def break_forward_def Let_def)

function fold_loop :: "int \<Rightarrow> string \<Rightarrow> nat \<Rightarrow> string \<times> nat" where
  "fold_loop foldcol cp col =
     (let ncp = breakpoint cp col; out = squeeze (take ncp cp); rest = drop ncp cp
      in if rest \<noteq> [] then
           (case fold_loop foldcol (dropWhile is_lwsp rest) (indent_col foldcol) of
              (out', col') \<Rightarrow> (out @ [LF] @ indent foldcol @ out', col'))
         else (out, col + length out))"
  by pat_completeness auto

termination
proof (relation "measure (\<lambda>(foldcol, cp, col). length cp)", goal_cases)
  case (2 foldcol cp col ncp out rest)
  have "length (dropWhile is_lwsp rest) \<le> length rest" by (rule length_dropWhile_le)
  moreover have "length rest < length cp" using 2 breakpoint_pos [of cp col] by (cases cp) auto
  ultimately show ?case by simp
qed simp

declare fold_loop.simps [simp del]

text \<open>\<open>fprintFold\<close> counts a column for a delimiter whether there is one or not.\<close>

definition fprintFold :: "token822 \<Rightarrow> nat \<Rightarrow> int \<Rightarrow> string \<times> nat" where
  "fprintFold t col foldcol =
     (case fold_loop foldcol (t_pname t) (col + 1) of
        (out, col) \<Rightarrow> (file_open (t_type t) @ out @ file_close (t_type t), col + 1))"

section \<open>Buffers\<close>

lemma grow_enough:
  "0 < buflen \<Longrightarrow> \<exists>b. grow need buflen = Some b \<and> need \<le> b \<and> buflen \<le> b \<and> (b = buflen \<or> b < 2 * need)"
proof (induction "need - buflen" arbitrary: buflen rule: less_induct)
  case less
  show ?case
  proof (cases "need > buflen")
    case True
    have "need - 2 * buflen < need - buflen" "0 < 2 * buflen" using True less(2) by auto
    then obtain b where b: "grow need (2 * buflen) = Some b" "need \<le> b" "2 * buflen \<le> b" "b = 2 * buflen \<or> b < 2 * need"
      using less(1) by blast
    then show ?thesis using True by (subst grow.simps) auto
  qed (subst grow.simps, simp)
qed

lemma print_one_length: "length (print_one q t) \<le> length (t_pname t) + 2"
  by (simp add: print_one_def print_open_def print_close_def)

lemma printdToken_loop_correct:
  assumes "length out < buflen"
  shows "\<exists>b. printdToken_loop q out buflen ts = Some (out @ concat (map (print_one q) ts), b)
    \<and> length (out @ concat (map (print_one q) ts)) < b \<and> buflen \<le> b \<and> (b = buflen \<or> b < 2 * (length (out @ concat (map (print_one q) ts)) + 3))"
  using assms
proof (induction ts arbitrary: out buflen)
  case Nil
  then show ?case by simp
next
  case (Cons t ts)
  obtain b where b: "grow (length out + 3 + length (t_pname t)) buflen = Some b" "length out + 3 + length (t_pname t) \<le> b"
    "buflen \<le> b" "b = buflen \<or> b < 2 * (length out + 3 + length (t_pname t))"
    using grow_enough [of buflen] Cons(2) by (metis gr_implies_not0 gr0I)
  have "buflen \<le> b" "length (out @ print_one q t) < b" using b print_one_length [of q t] by auto
  moreover have "length (t_pname t) \<le> length (print_one q t)" by (simp add: print_one_def)
  moreover note Cons(1) [of "out @ print_one q t" b]
  ultimately show ?case using b by fastforce
qed

text \<open>
  \<open>printdToken\<close> ends for a buffer that is not empty; it writes the texts of all the tokens with their
  delimiters, these and the final NUL are within the buffer it returns, and the buffer is not enlarged to more than twice
  what the text needs.
\<close>

lemma printdToken_correct:
  assumes "0 < buflen"
  shows "\<exists>out b. printdToken buflen ts q = Some (out, b) \<and> out = concat (map (print_one q) ts) \<and> length out + 1 \<le> b
    \<and> (b = buflen \<or> b < 2 * (length out + 3))"
  using printdToken_loop_correct [of "[]" buflen q ts] assms by (auto simp: printdToken_def)

lemma printdToken_correct_witness:
  "\<exists>out b. printdToken 1 [copyToken String ''a b''] False = Some (out, b) \<and> out = concat (map (print_one False) [copyToken String ''a b''])
    \<and> length out + 1 \<le> b \<and> (b = 1 \<or> b < 2 * (length out + 3))"
  by (rule printdToken_correct) simp


lemma scan_word: "scan822 rfc_ctype ''ab'' NUL NUL [] = Some ([copyToken Atom ''ab''], [], rfc_ctype)"
  by (simp add: scan822_def or_special_def restore_def scan_loop.simps scan_token_def cls_def ord_def rfc_ctype_def ctype_defs plain_tok_def run_def)


section \<open>Buffers of a fixed size\<close>

lemma printToken_loop_prefix: "\<exists>k. printToken_loop room q out ts = out @ concat (map (print_one q) (take k ts))"
proof (induction ts arbitrary: out)
  case Nil
  then show ?case by simp
next
  case (Cons t ts)
  show ?case
  proof (cases "length out < room")
    case True
    obtain k where "printToken_loop room q (out @ print_one q t) ts = (out @ print_one q t) @ concat (map (print_one q) (take k ts))"
      using Cons by blast
    then show ?thesis using True by (auto intro: exI [of _ "Suc k"])
  qed (auto intro: exI [of _ 0])
qed

lemma printToken_loop_bound:
  "\<forall>t\<in>set ts. length (t_pname t) \<le> m \<Longrightarrow> length (printToken_loop room q out ts) \<le> max (length out) (room + m + 1)"
proof (induction ts arbitrary: out)
  case Nil
  then show ?case by simp
next
  case (Cons t ts)
  show ?case
  proof (cases "length out < room")
    case True
    have "length (out @ print_one q t) \<le> room + m + 1" using True Cons(2) print_one_length [of q t] by simp
    then show ?thesis using Cons(1) [of "out @ print_one q t"] Cons(2) True by simp
  qed simp
qed

text \<open>
  \<open>printToken\<close> stops at the end of the buffer only between two tokens: a first token that is longer than the
  buffer is written over its end, whatever the other tokens are.
\<close>

lemma printToken_overruns:
  assumes "1 < bufsize" "bufsize \<le> length (t_pname t)"
  shows "bufsize < snd (printToken bufsize (t # ts) q)"
proof -
  obtain k where "printToken_loop (bufsize - 1) q (print_one q t) ts = print_one q t @ concat (map (print_one q) (take k ts))"
    using printToken_loop_prefix by blast
  moreover have "bufsize \<le> length (print_one q t)" using assms(2) by (simp add: print_one_def)
  ultimately show ?thesis using assms(1) by (simp add: printToken_def Let_def)
qed

lemma printToken_overruns_witness:
  "(3::nat) < snd (printToken 3 [\<lparr>t_pname = ''abc'', t_type = Atom\<rparr>] False)"
  by (rule printToken_overruns) simp_all

text \<open>Tokens of at most \<open>m\<close> characters need \<open>m + 2\<close> bytes behind the buffer.\<close>

lemma printToken_bound:
  assumes "\<forall>t\<in>set ts. length (t_pname t) \<le> m"
  shows "snd (printToken bufsize ts q) \<le> bufsize + m + 2"
  using printToken_loop_bound [OF assms, of "bufsize - 1" q "[]"] by (simp add: printToken_def Let_def)

text \<open>
  The limit in \<open>formatToken\<close> does not count the first quote and the final NUL: the description of a token is within
  the static buffer of 2560 bytes exactly if the token and the name of its type have at most 2554 characters, and it is
  written up to two bytes over the end of the buffer otherwise.
\<close>

lemma formatToken_overflow:
  "snd (formatToken t) \<le> 2562 \<and>
   (snd (formatToken t) \<le> 2560 \<longleftrightarrow> length (t_pname t) + length (type_name (t_type t)) \<le> 2554)"
proof -
  have "length (type_name ty) \<le> 13" for ty by (cases ty) (simp_all add: type_name_def)
  from this [of "t_type t"] show ?thesis by (auto simp: formatToken_def Let_def)
qed

section \<open>Folding\<close>

definition visible :: "string \<Rightarrow> string" where
  "visible s = filter (\<lambda>c. \<not> is_lwsp c) s"

lemma visible_simps [simp]: "visible [] = []" "visible (c # s) = (if is_lwsp c then visible s else c # visible s)"
  "visible (s @ t) = visible s @ visible t"
  by (simp_all add: visible_def)

lemma lwsp_chars [simp]: "is_lwsp SPC" "is_lwsp HT" "is_lwsp LF"
  by (simp_all add: is_lwsp_def isspace_def ord_def)

lemma visible_dropWhile [simp]: "visible (dropWhile is_lwsp s) = visible s"
  by (induction s) auto

lemma visible_squeeze [simp]: "visible (squeeze s) = visible s"
  by (induction s rule: squeeze.induct) auto

lemma visible_replicate [simp]: "is_lwsp c \<Longrightarrow> visible (replicate n c) = []"
  by (induction n) auto

lemma visible_indent [simp]: "visible (indent foldcol) = []"
  by (simp add: indent_def)

lemma visible_fold_loop: "visible (fst (fold_loop foldcol cp col)) = visible cp"
proof (induction foldcol cp col rule: fold_loop.induct)
  case (1 foldcol cp col)
  have s: "visible (take k cp) @ visible (drop k cp) = visible cp" for k by (metis append_take_drop_id visible_simps(3))
  show ?case
  proof (cases "drop (breakpoint cp col) cp = []")
    case True
    then show ?thesis using s [of "breakpoint cp col"] by (simp add: fold_loop.simps [of foldcol cp col] Let_def)
  next
    case False
    then show ?thesis using 1 [OF refl refl refl False] s [of "breakpoint cp col"]
      by (subst fold_loop.simps) (simp add: Let_def case_prod_beta)
  qed
qed

text \<open>
  The folding of a long token over several lines ends, and changes nothing but white space: without it, the output is the
  token with its delimiters.
\<close>

lemma fprintFold_keeps_text:
  "visible (fst (fprintFold t col foldcol)) = visible (file_open (t_type t) @ t_pname t @ file_close (t_type t))"
  using visible_fold_loop [of foldcol "t_pname t" "col + 1"] by (simp add: fprintFold_def case_prod_beta)

text \<open>The length that \<open>fprintToken\<close> counts without a file is that of the text it writes with one.\<close>

lemma fprintToken_length_correct: "fprintToken_length t n = n + length (fst (fprintToken t n'))"
  by (simp add: fprintToken_length_def fprintToken_def)

lemma advance_plain: "HT \<notin> set s \<Longrightarrow> LF \<notin> set s \<Longrightarrow> advance col s = col + length s"
  by (induction s arbitrary: col) auto

lemma fprintToken_column:
  "HT \<notin> set (t_pname t) \<Longrightarrow> LF \<notin> set (t_pname t) \<Longrightarrow> snd (fprintToken t col) = fprintToken_length t col"
  by (simp add: fprintToken_def fprintToken_length_def advance_plain)

end
