(* ===== verification/Linebuffer.thy ===== *)
theory Linebuffer
  imports Stdio
begin

text \<open>
  The line reader of the router, \<^verbatim>\<open>lib/linebuffer.c\<close>.  The buffer is its size, the distance of the next byte from its start and the bytes
  that are not consumed; the file is the text that is not read yet.  No block yet is \<open>None\<close>.  \<open>fread\<close> delivers what it is asked for, up to the end of the file.
\<close>

record lbuf =
  getline_bsize :: nat
  lb_off :: nat
  lb_text :: string

definition BUFSIZ :: nat where "BUFSIZ = 8192"

text \<open>The block is allocated at the first call only; the bytes of an earlier file are forgotten.\<close>

definition initzline :: "nat \<Rightarrow> lbuf option \<Rightarrow> lbuf" where
  "initzline blksize b =
     (case b of
        None \<Rightarrow> \<lparr>getline_bsize = max blksize BUFSIZ, lb_off = 0, lb_text = []\<rparr>
      | Some b \<Rightarrow> b\<lparr>lb_text := []\<rparr>)"

definition repos_zgetline :: "nat \<Rightarrow> lbuf \<Rightarrow> string \<Rightarrow> lbuf \<times> string" where
  "repos_zgetline newpos b whole = (b\<lparr>lb_text := []\<rparr>, drop newpos whole)"

definition cut_line :: "string \<Rightarrow> string" where
  "cut_line s = takeWhile (\<lambda>c. c \<noteq> LF) s @ [LF]"

function getline_loop :: "lbuf \<Rightarrow> string \<Rightarrow> string \<times> lbuf \<times> string" where
  "getline_loop b fl =
     (if LF \<in> set (lb_text b) then
        (let l = cut_line (lb_text b) in (l, b\<lparr>lb_off := lb_off b + length l, lb_text := drop (length l) (lb_text b)\<rparr>, fl))
      else
        let n = getline_bsize b - length (lb_text b);
            size = (if n = 0 then 2 * getline_bsize b else getline_bsize b);
            n = (if n = 0 then getline_bsize b else n);
            more_text = take (n - 1) fl
        in if more_text = [] then (lb_text b, b\<lparr>getline_bsize := size, lb_text := []\<rparr>, fl)
           else getline_loop \<lparr>getline_bsize = size, lb_off = 0, lb_text = lb_text b @ more_text\<rparr> (drop (n - 1) fl))"
  by pat_completeness auto
termination
  by (relation "measure (\<lambda>(b, fl). length fl)") (auto simp flip: length_greater_0_conv split: if_splits)

definition zgetline_block :: "lbuf \<Rightarrow> string \<Rightarrow> string \<times> lbuf \<times> string" where
  "zgetline_block b fl =
     (if lb_text b = [] \<or> lb_off b \<ge> getline_bsize b then
        (let t = take (getline_bsize b - 1) fl
         in if t = [] then ([], b\<lparr>lb_text := []\<rparr>, fl)
            else getline_loop (b\<lparr>lb_off := 0, lb_text := t\<rparr>) (drop (getline_bsize b - 1) fl))
      else getline_loop b fl)"

text \<open>A call without a block makes one first.\<close>

definition the_block :: "lbuf option \<Rightarrow> lbuf" where
  "the_block b = (case b of None \<Rightarrow> initzline 512 None | Some b \<Rightarrow> b)"

definition zgetline :: "lbuf option \<Rightarrow> string \<Rightarrow> string \<times> lbuf \<times> string" where
  "zgetline b fl = zgetline_block (the_block b) fl"

definition zlinegetrest :: "lbuf \<Rightarrow> string" where
  "zlinegetrest b = (if lb_text b = [] \<or> lb_off b \<ge> getline_bsize b then [] else lb_text b)"

definition zlineoffset :: "lbuf \<Rightarrow> nat \<Rightarrow> int" where
  "zlineoffset b position = int position - int (length (lb_text b))"

declare getline_loop.simps [simp del]

section \<open>What a call returns\<close>

text \<open>The bytes always leave room for one more.\<close>

definition lbuf_ok :: "lbuf \<Rightarrow> bool" where
  "lbuf_ok b \<longleftrightarrow> 2 \<le> getline_bsize b \<and> lb_off b + length (lb_text b) < getline_bsize b"

definition piece :: "nat \<Rightarrow> string \<Rightarrow> string" where
  "piece n t = (if LF \<in> set (take n t) then cut_line t else take n t)"

lemma cut_line_append: "LF \<in> set s \<Longrightarrow> cut_line (s @ t) = cut_line s"
  by (simp add: cut_line_def)

lemma cut_line_take: "LF \<in> set (take n t) \<Longrightarrow> cut_line (take n t) = cut_line t"
  using cut_line_append [of "take n t" "drop n t"] by simp

lemma cut_line_split: "LF \<in> set s \<Longrightarrow> s = cut_line s @ drop (length (cut_line s)) s"
  by (induction s) (auto simp: cut_line_def)

lemma cut_line_le: "LF \<in> set s \<Longrightarrow> length (cut_line s) \<le> length s"
  using cut_line_split [of s] by (metis length_append le_add1)

lemma getline_loop_spec:
  assumes "lbuf_ok b" "getline_loop b fl = (l, b', fl')" "lb_text b \<noteq> []"
  shows "l = piece (getline_bsize b - 1) (lb_text b @ fl) \<and> lb_text b @ fl = l @ lb_text b' @ fl' \<and>
    lbuf_ok b' \<and> getline_bsize b' = getline_bsize b"
  using assms
proof (induction b fl arbitrary: l b' fl' rule: getline_loop.induct)
  case (1 b fl)
  let ?B = "getline_bsize b" and ?t = "lb_text b"
  have B: "2 \<le> ?B" "length ?t < ?B" using 1(2) by (auto simp: lbuf_ok_def)
  show ?case
  proof (cases "LF \<in> set ?t")
    case True
    have "length (cut_line ?t) \<le> length ?t" using cut_line_le [OF True] .
    moreover have "take (?B - 1) (?t @ fl) = ?t @ take (?B - 1 - length ?t) fl" using B by simp
    ultimately show ?thesis
      using 1(2,3) True cut_line_split [OF True] cut_line_append [OF True, of fl]
      by (subst (asm) getline_loop.simps) (auto simp: piece_def lbuf_ok_def Let_def)
  next
    case False
    let ?n = "?B - length ?t" and ?m = "take (?B - length ?t - 1) fl"
    have n: "?n \<noteq> 0" using B by simp
    have tk: "take (?B - 1) (?t @ fl) = ?t @ ?m" using B by (simp add: diff_commute)
    show ?thesis
    proof (cases "?m = []")
      case True
      then have "getline_loop b fl = (?t, b\<lparr>lb_text := []\<rparr>, fl)"
        using False n by (subst getline_loop.simps) (auto simp: Let_def)
      then show ?thesis using 1(2,3) False True tk B by (auto simp: piece_def lbuf_ok_def)
    next
      case m: False
      let ?b = "\<lparr>getline_bsize = ?B, lb_off = 0, lb_text = ?t @ ?m\<rparr>"
      have e: "getline_loop b fl = getline_loop ?b (drop (?n - 1) fl)"
        using False n m by (subst getline_loop.simps) (auto simp: Let_def)
      have ok: "lbuf_ok ?b" using B by (auto simp: lbuf_ok_def)
      have l2: "getline_loop ?b (drop (?n - 1) fl) = (l, b', fl')" using 1(3) e by simp
      have l3: "lb_text ?b \<noteq> []" using 1(4) by simp
      have "l = piece (?B - 1) ((?t @ ?m) @ drop (?n - 1) fl) \<and> (?t @ ?m) @ drop (?n - 1) fl = l @ lb_text b' @ fl' \<and>
          lbuf_ok b' \<and> getline_bsize b' = ?B"
        using 1(1) [OF False refl refl refl refl, unfolded if_not_P [OF n], OF m ok l2 l3] unfolding lbuf.select_convs by argo
      moreover have "(?t @ ?m) @ drop (?n - 1) fl = ?t @ fl" by simp
      ultimately show ?thesis by argo
    qed
  qed
qed


lemma zgetline_block_pieces:
  assumes "lbuf_ok b" "zgetline_block b fl = (l, b', fl')"
  shows "l = piece (getline_bsize b - 1) (lb_text b @ fl) \<and> lb_text b @ fl = l @ lb_text b' @ fl' \<and>
    lbuf_ok b' \<and> getline_bsize b' = getline_bsize b"
proof -
  have B: "2 \<le> getline_bsize b" "lb_off b < getline_bsize b" using assms(1) by (auto simp: lbuf_ok_def)
  consider "lb_text b \<noteq> []" | "lb_text b = []" "fl = []" | "lb_text b = []" "fl \<noteq> []" by blast
  then show ?thesis
  proof cases
    case 1
    then have "getline_loop b fl = (l, b', fl')" using assms(2) B by (simp add: zgetline_block_def)
    then show ?thesis using getline_loop_spec [OF assms(1) _ 1] by blast
  next
    case 2
    then show ?thesis using assms B by (auto simp: zgetline_block_def piece_def lbuf_ok_def Let_def)
  next
    case 3
    define b1 where "b1 = b\<lparr>lb_off := 0, lb_text := take (getline_bsize b - 1) fl\<rparr>"
    have b1: "getline_bsize b1 = getline_bsize b" "lb_text b1 = take (getline_bsize b - 1) fl" "lb_off b1 = 0" by (simp_all add: b1_def)
    have ne: "lb_text b1 \<noteq> []" using 3 B b1(2) by simp
    then have "getline_loop b1 (drop (getline_bsize b - 1) fl) = (l, b', fl')" using assms(2) 3 b1(2) by (simp add: zgetline_block_def Let_def b1_def)
    moreover have "lbuf_ok b1" using B b1 by (auto simp: lbuf_ok_def)
    ultimately have "l = piece (getline_bsize b1 - 1) (lb_text b1 @ drop (getline_bsize b - 1) fl) \<and>
        lb_text b1 @ drop (getline_bsize b - 1) fl = l @ lb_text b' @ fl' \<and> lbuf_ok b' \<and> getline_bsize b' = getline_bsize b1"
      using getline_loop_spec ne by blast
    moreover have "lb_text b1 @ drop (getline_bsize b - 1) fl = lb_text b @ fl" using 3(1) b1(2) by simp
    ultimately show ?thesis unfolding b1(1) by argo
  qed
qed

text \<open>The block of a first call is empty and has room.\<close>

definition reader_ok :: "lbuf option \<Rightarrow> bool" where
  "reader_ok b \<longleftrightarrow> (case b of None \<Rightarrow> True | Some b \<Rightarrow> lbuf_ok b)"

lemma the_block_ok: "reader_ok b \<Longrightarrow> lbuf_ok (the_block b)"
  by (cases b) (auto simp: reader_ok_def the_block_def initzline_def lbuf_ok_def BUFSIZ_def)

lemma zgetline_pieces:
  assumes "reader_ok b" "zgetline b fl = (l, b', fl')"
  shows "l = piece (getline_bsize (the_block b) - 1) (lb_text (the_block b) @ fl) \<and> lb_text (the_block b) @ fl = l @ lb_text b' @ fl' \<and>
    reader_ok (Some b') \<and> getline_bsize b' = getline_bsize (the_block b)"
proof -
  have "zgetline_block (the_block b) fl = (l, b', fl')" using assms(2) by (simp add: zgetline_def)
  from zgetline_block_pieces [OF the_block_ok [OF assms(1)] this] show ?thesis unfolding reader_ok_def option.case .
qed

section \<open>Properties\<close>



text \<open>In particular a line that does not fit is cut.\<close>

lemma zgetline_cuts:
  assumes "reader_ok b" "LF \<notin> set t" "length t \<ge> getline_bsize (the_block b)" "lb_text (the_block b) @ fl = t @ u" "zgetline b fl = (l, b', fl')"
  shows "l = take (getline_bsize (the_block b) - 1) t"
proof -
  let ?n = "getline_bsize (the_block b) - 1"
  have "take ?n (t @ u) = take ?n t" using assms(3) by simp
  moreover have "LF \<notin> set (take ?n t)" using assms(2) by (meson in_set_takeD)
  ultimately have "piece ?n (t @ u) = take ?n t" unfolding piece_def by argo
  then show ?thesis using conjunct1 [OF zgetline_pieces [OF assms(1,5)]] assms(4) by simp
qed

text \<open>The partial line is moved to the start of the buffer by \<open>memcpy\<close>; the two places overlap when it is longer than what was consumed.\<close>

definition memcpy_overlaps :: "lbuf \<Rightarrow> bool" where
  "memcpy_overlaps b \<longleftrightarrow> LF \<notin> set (lb_text b) \<and> 0 < lb_off b \<and> lb_off b < length (lb_text b)"

lemma memcpy_overlap_reachable:
  "case zgetline (Some \<lparr>getline_bsize = 8, lb_off = 0, lb_text = []\<rparr>) (''a'' @ [LF] @ ''bcdefghij'') of (l, b, fl) \<Rightarrow> l = ''a'' @ [LF] \<and> memcpy_overlaps b"
  by (simp add: the_block_def zgetline_def zgetline_block_def getline_loop.simps cut_line_def memcpy_overlaps_def)

end
