(* ===== verification/Taspoolid.thy ===== *)
theory Taspoolid
  imports Mailfile
begin

text \<open>
  The spool identifiers of \<^verbatim>\<open>lib/taspoolid.c\<close>, which the replies and the logs show for a message, and two small scanners of \<^verbatim>\<open>lib/\<close>:
  \<open>parse_interval\<close> for the times of the configuration and \<open>skip821address\<close> for the addresses of control files.
\<close>

section \<open>Spool identifiers\<close>

definition taspid_encodechars :: string where
  "taspid_encodechars = ''ABCDEFGHIJKLMNOPQRSTUVWXYZ0123abcdefghijklmnopqrstuvwxyz4567890-=''"

text \<open>What \<open>gmtime\<close> gives for the time of the file, with the year in full.\<close>

record tm =
  tm_year :: nat
  tm_mon :: nat
  tm_mday :: nat
  tm_hour :: nat
  tm_min :: nat
  tm_sec :: nat

definition enc :: "nat \<Rightarrow> char" where
  "enc n = taspid_encodechars ! n"

definition enc_bits :: "nat \<Rightarrow> nat \<Rightarrow> char" where
  "enc_bits n k = enc (n div 2 ^ k mod 64)"

definition date_code :: "tm \<Rightarrow> string" where
  "date_code t =
     [enc_bits (tm_year t) 12, enc_bits (tm_year t) 6, enc_bits (tm_year t) 0, enc (tm_mon t), enc (tm_mday t - 1), enc (tm_hour t), enc (tm_min t), enc (tm_sec t)]"

definition nsec_code :: "nat \<Rightarrow> string" where
  "nsec_code ns = (if ns = 0 then [] else [enc_bits ns 24, enc_bits ns 18, enc_bits ns 12, enc_bits ns 6, enc_bits ns 0])"

definition taspoolid :: "nat \<Rightarrow> tm \<Rightarrow> nat \<Rightarrow> string" where
  "taspoolid inodenum t mtimens = ''S'' @ dec_text inodenum @ date_code t @ nsec_code mtimens"

text \<open>The dates the calendar has, a leap second included.\<close>

definition tm_ok :: "tm \<Rightarrow> bool" where
  "tm_ok t \<longleftrightarrow> tm_mon t < 12 \<and> 1 \<le> tm_mday t \<and> tm_mday t \<le> 31 \<and> tm_hour t < 24 \<and> tm_min t < 60 \<and> tm_sec t \<le> 60"

lemma enc_table: "length taspid_encodechars = 65" "distinct (take 62 taspid_encodechars)"
  by code_simp+

lemma enc_inject: "m < 62 \<Longrightarrow> n < 62 \<Longrightarrow> enc m = enc n \<longleftrightarrow> m = n"
  using nth_eq_iff_index_eq [OF enc_table(2), of m n] enc_table(1) by (simp add: enc_def)

text \<open>The 27th and the 63rd character are the same.\<close>

lemma enc_collision: "enc 26 = enc 62"
  by (simp add: enc_def taspid_encodechars_def)

text \<open>
  C38: Spool identifiers.  The identifiers of two files whose time stamps have no fractions of a second are the same only for the same inode
  number and second, for the years whose codes avoid the character that is twice in the table.  An identifier fits the buffers of 30 bytes of
  the callers exactly when the inode number has at most 15 digits, or 20 without fractions.
\<close>

theorem taspoolid_correct:
  assumes "tm_ok t" "tm_ok u" "tm_year t mod 64 < 62" "tm_year u mod 64 < 62" "tm_year t < 62 * 64" "tm_year u < 62 * 64"
  shows "(taspoolid i t 0 = taspoolid j u 0 \<longleftrightarrow> i = j \<and> t = u) \<and>
    (length (taspoolid i t ns) + 1 \<le> 30 \<longleftrightarrow> i < 10 ^ (if ns = 0 then 20 else 15))"
proof -
  have y: "n div 4096 = 0" "n div 64 mod 64 = n div 64" "n div 64 < 62" if "n < 62 * 64" for n :: nat using that by auto
  have "date_code t = date_code u \<Longrightarrow> t = u"
  proof -
    assume "date_code t = date_code u"
    then have e: "enc (tm_year t div 64) = enc (tm_year u div 64)" "enc (tm_year t mod 64) = enc (tm_year u mod 64)" "enc (tm_mon t) = enc (tm_mon u)"
      "enc (tm_mday t - 1) = enc (tm_mday u - 1)" "enc (tm_hour t) = enc (tm_hour u)" "enc (tm_min t) = enc (tm_min u)" "enc (tm_sec t) = enc (tm_sec u)"
      using y [OF assms(5)] y [OF assms(6)] by (simp_all add: date_code_def enc_bits_def)
    have "tm_year t div 64 = tm_year u div 64" "tm_year t mod 64 = tm_year u mod 64"
      using e(1,2) y(3) [OF assms(5)] y(3) [OF assms(6)] assms(3,4) by (simp_all add: enc_inject)
    then have "tm_year t = tm_year u" by (metis div_mult_mod_eq)
    moreover have "tm_mon t = tm_mon u" "tm_mday t = tm_mday u" "tm_hour t = tm_hour u" "tm_min t = tm_min u" "tm_sec t = tm_sec u"
      using e(3-7) assms(1,2) by (auto simp: tm_ok_def enc_inject)
    ultimately show "t = u" by simp
  qed
  moreover have "length (date_code v) = 8" for v by (simp add: date_code_def)
  ultimately have 1: "taspoolid i t 0 = taspoolid j u 0 \<longleftrightarrow> i = j \<and> t = u"
    by (auto simp: taspoolid_def nsec_code_def)
  have "length (taspoolid i t ns) + 1 \<le> 30 \<longleftrightarrow> length (dec_text i) \<le> (if ns = 0 then 20 else 15)"
    by (simp add: taspoolid_def date_code_def nsec_code_def)
  then show ?thesis using 1 dec_text_length [of "if ns = 0 then 20 else 15" i] by simp
qed

definition tm0 :: tm where
  "tm0 = \<lparr>tm_year = 2003, tm_mon = 5, tm_mday = 14, tm_hour = 12, tm_min = 30, tm_sec = 59\<rparr>"

theorem taspoolid_correct_witness:
  "taspoolid 7 tm0 0 \<noteq> taspoolid 8 tm0 0 \<and> length (taspoolid (10 ^ 15) tm0 1) + 1 > 30"
  using taspoolid_correct [of tm0 tm0 7 8 0] taspoolid_correct [of tm0 tm0 "10 ^ 15" 8 1] by (simp add: tm_ok_def tm0_def)

text \<open>Two identifiers of the same file with different fractions can be equal.\<close>

lemma taspoolid_collision: "taspoolid i t 26 = taspoolid i t 62"
  using enc_collision by (simp add: taspoolid_def nsec_code_def enc_bits_def)

section \<open>Intervals\<close>

text \<open>The units fall through: a day is 24 hours of 60 minutes of 60 seconds.\<close>

definition unit_factor :: "char \<Rightarrow> nat option" where
  "unit_factor c =
     (if c = CHR ''d'' then Some 86400 else if c = CHR ''h'' then Some 3600 else if c = CHR ''m'' then Some 60
      else if c = CHR ''s'' then Some 1 else None)"

text \<open>
  The loop steps over the unit and then over one more character, as the increment of the \<open>for\<close> comes on top of the one in the switch;
  behind the last unit it steps over the NUL, which is \<open>None\<close>.  Numbers are unbounded here; the code has \<open>long\<close> for them.
\<close>

function parse_interval :: "string \<Rightarrow> nat \<Rightarrow> (nat \<times> string) option" where
  "parse_interval s intvl =
     (if s = [] then Some (intvl, [])
      else
        let val = dec_value (takeWhile isdigit s); t = dropWhile isdigit s
        in case unit_factor (cur t) of
             None \<Rightarrow> Some (intvl + val, t)
           | Some f \<Rightarrow> if tl t = [] then None else parse_interval (tl (tl t)) (intvl + val * f))"
  by pat_completeness auto
termination
proof (relation "measure (\<lambda>(s, intvl). length s)")
  fix s intvl val t f
  assume "s \<noteq> []" "t = dropWhile isdigit s"
  moreover have "length (dropWhile isdigit s) \<le> length s" by (rule length_dropWhile_le)
  ultimately have "length (tl (tl t)) < length s" by (cases s; simp; linarith)
  then show "((tl (tl t), intvl + val * f), s, intvl) \<in> measure (\<lambda>(s, intvl). length s)" by simp
qed simp


declare parse_interval.simps [simp del]

text \<open>
  An interval that ends with its unit is read over the end: the increments of the switch and of the loop step over the NUL behind the last
  unit, for every number and unit.
\<close>

lemma parse_interval_overruns:
  assumes "\<forall>c\<in>set ds. isdigit c" "u \<in> {CHR ''d'', CHR ''h'', CHR ''m'', CHR ''s''}"
  shows "parse_interval (ds @ [u]) intvl = None"
proof -
  have "\<not> isdigit u" "unit_factor u \<noteq> None" using assms(2) by (auto simp: isdigit_def ord_def unit_factor_def)
  moreover have "dropWhile isdigit (ds @ [u]) = dropWhile isdigit [u]" using assms(1) by (simp add: dropWhile_append)
  ultimately show ?thesis by (subst parse_interval.simps) (auto simp: Let_def)
qed

text \<open>Between units the first digit of the next number is lost: one hour and 30 is one hour and 0.\<close>

lemma parse_interval_loses_digit: "parse_interval ''1h30'' 0 = Some (3600, [])"
proof -
  have "parse_interval ''1h30'' 0 = parse_interval ''0'' 3600"
    by (subst parse_interval.simps) (simp add: unit_factor_def isdigit_def ord_def dec_value_def)
  also have "\<dots> = Some (3600, [])"
    by (subst parse_interval.simps) (simp add: unit_factor_def isdigit_def ord_def dec_value_def)
  finally show ?thesis .
qed

section \<open>Addresses in control files\<close>

fun skip821 :: "bool \<Rightarrow> string \<Rightarrow> string" where
  "skip821 quote [] = []"
| "skip821 quote (c # s) =
     (if c = BSLASH then (case s of [] \<Rightarrow> [] | d # t \<Rightarrow> skip821 quote t)
      else if c = DQUOTE then skip821 (\<not> quote) s
      else if \<not> quote \<and> (c = SPC \<or> c = HT) then c # s
      else skip821 quote s)"

definition skip821address :: "string \<Rightarrow> string" where
  "skip821address s = skip821 False s"

text \<open>The rest starts with a blank, and an address without blanks, quotes and backslashes is skipped whole.\<close>

lemma skip821_stops: "skip821 q s = [] \<or> blank (hd (skip821 q s))"
proof (induction q s rule: skip821.induct)
  case (2 quote c s)
  note IH = 2
  consider "c = BSLASH" | "c = DQUOTE" | "c \<noteq> BSLASH" "c \<noteq> DQUOTE" "\<not> quote \<and> (c = SPC \<or> c = HT)"
    | "c \<noteq> BSLASH" "c \<noteq> DQUOTE" "\<not> (\<not> quote \<and> (c = SPC \<or> c = HT))" by blast
  then show ?case
  proof cases
    case 1
    then show ?thesis using IH(1) by (cases s) simp_all
  next
    case 2
    then show ?thesis using IH(2) by simp
  next
    case 3
    then show ?thesis by (auto simp: blank_def)
  next
    case 4
    then have "skip821 quote (c # s) = skip821 quote s" by auto
    then show ?thesis using IH(3) 4 by auto
  qed
qed simp

lemma skip821address_plain:
  assumes "\<forall>c\<in>set a. c \<notin> {BSLASH, DQUOTE, SPC, HT}"
  shows "skip821address (a @ SPC # rest) = SPC # rest"
  using assms unfolding skip821address_def by (induction a) auto

end
