(* ===== verification/Allocate.thy ===== *)
theory Allocate
  imports Prelude "HOL-Library.Multiset" "HOL-Library.Sublist"
begin

text \<open>
  The temporary storage of \<^verbatim>\<open>lib/allocate.c\<close>: blocks from which pieces are cut off, one list of blocks for each kind of memory, which is used
  either until everything is freed at once or as a stack.  Sizes are those of a 64-bit machine, without the debugging mode.
\<close>

section \<open>Blocks and arenas\<close>

definition NALIGN :: nat where "NALIGN = 8"
definition MALLOC_OVERHEAD :: nat where "MALLOC_OVERHEAD = 24"
definition CLICK_FIRST :: nat where "CLICK_FIRST = 15"
definition CLICK_FINAL :: nat where "CLICK_FINAL = 15"
definition BLOCK_WASTE :: int where "BLOCK_WASTE = 40"

text \<open>\<open>sizeof (struct block)\<close>: three pointers and the first bytes of the area, which starts behind the pointers.\<close>

definition sizeof_block :: nat where "sizeof_block = 32"
definition area_offset :: nat where "area_offset = 24"

definition BLOCK_SIZE :: "nat \<Rightarrow> nat" where
  "BLOCK_SIZE x = x - MALLOC_OVERHEAD - sizeof_block"

text \<open>A block is the address of its area and the distances of \<open>endp\<close> and of \<open>cur\<close> from there.\<close>

record block =
  b_area :: nat
  b_endp :: nat
  b_cur :: nat

text \<open>
  The variables of one kind of memory.  The list from \<open>blockhead\<close> is \<open>a_pre\<close>, the block \<open>blockinuse\<close> points to, and \<open>a_post\<close>; when there is
  no block in use there is no block at all.
\<close>

record arena =
  a_pre :: "block list"
  blockinuse :: "block option"
  a_post :: "block list"
  blockfull :: "block list"
  stackflag :: bool
  a_size :: nat

definition arena_new :: arena where
  "arena_new = \<lparr>a_pre = [], blockinuse = None, a_post = [], blockfull = [], stackflag = False, a_size = 0\<rparr>"

definition blockhead :: "arena \<Rightarrow> block list" where
  "blockhead A = a_pre A @ (case blockinuse A of None \<Rightarrow> [] | Some u \<Rightarrow> [u]) @ a_post A"

definition ALIGN :: "nat \<Rightarrow> nat" where
  "ALIGN x = (x + (NALIGN - 1)) div NALIGN * NALIGN"

definition has_room :: "nat \<Rightarrow> block \<Rightarrow> bool" where
  "has_room n b \<longleftrightarrow> \<not> b_cur b + n \<ge> b_endp b"

text \<open>\<open>while (size[i] < n) size[i] = CLICK_INCR(size[i])\<close>; the size is never 0 there.\<close>

function fit_size :: "nat \<Rightarrow> nat \<Rightarrow> nat" where
  "fit_size n sz = (if sz < n \<and> 0 < sz then fit_size n (2 * sz) else sz)"
  by pat_completeness auto
termination by (relation "measure (\<lambda>(n, sz). n - sz)") auto

declare fit_size.simps [simp del]

definition next_size :: "nat \<Rightarrow> arena \<Rightarrow> nat" where
  "next_size n A =
     fit_size n (if blockinuse A = None then 2 ^ CLICK_FIRST else if a_size A < 2 ^ CLICK_FINAL then 2 * a_size A else a_size A)"

definition new_block :: "nat \<Rightarrow> nat \<Rightarrow> arena \<Rightarrow> block" where
  "new_block n at A = \<lparr>b_area = at, b_endp = BLOCK_SIZE (next_size n A), b_cur = 0\<rparr>"

text \<open>The blocks at the head that are nearly full are taken out of the list, but never the last one.\<close>

fun retire :: "block list \<Rightarrow> block list \<Rightarrow> block list \<times> block list" where
  "retire (b # bs) full = (if int (b_endp b) - int (b_cur b) < BLOCK_WASTE then retire bs (b # full) else (b # bs, full))"
| "retire [] full = ([], full)"

text \<open>
  \<open>moremem\<close> is called when the block in use has no room.  A stack looks for room behind the block in use; otherwise that block is the
  last one and the search starts at the head.  The block that is found, or a new one with its area at \<open>at\<close>, becomes the block in use.
\<close>

definition moremem_stack :: "nat \<Rightarrow> nat \<Rightarrow> block \<Rightarrow> arena \<Rightarrow> arena" where
  "moremem_stack n at u A =
     (case List.extract (has_room n) (a_post A) of
        None \<Rightarrow> A\<lparr>a_pre := a_pre A @ [u], blockinuse := Some (new_block n at A), a_size := next_size n A\<rparr>
      | Some (xs, b, ys) \<Rightarrow> A\<lparr>a_pre := a_pre A @ [u], blockinuse := Some b, a_post := xs @ ys\<rparr>)"

definition moremem_list :: "nat \<Rightarrow> nat \<Rightarrow> block \<Rightarrow> arena \<Rightarrow> arena" where
  "moremem_list n at u A =
     (let A = (case List.extract (has_room n) (a_pre A) of
                 None \<Rightarrow> A\<lparr>a_pre := a_pre A @ [u], blockinuse := Some (new_block n at A), a_size := next_size n A\<rparr>
               | Some (xs, b, ys) \<Rightarrow> A\<lparr>a_pre := xs @ ys @ [u], blockinuse := Some b\<rparr>)
      in case retire (a_pre A) (blockfull A) of (bs, full) \<Rightarrow> A\<lparr>a_pre := bs, blockfull := full\<rparr>)"

definition moremem :: "nat \<Rightarrow> nat \<Rightarrow> arena \<Rightarrow> arena" where
  "moremem n at A =
     (case blockinuse A of
        None \<Rightarrow> A\<lparr>blockinuse := Some (new_block n at A), a_size := next_size n A\<rparr>
      | Some u \<Rightarrow> if stackflag A then moremem_stack n at u A else moremem_list n at u A)"

text \<open>The next piece starts at the current place, aligned or not.\<close>

definition ready :: "nat \<Rightarrow> nat \<Rightarrow> arena \<Rightarrow> arena" where
  "ready n at A = (if (case blockinuse A of None \<Rightarrow> False | Some u \<Rightarrow> has_room n u) then A else moremem n at A)"

definition get_from :: "(nat \<Rightarrow> nat) \<Rightarrow> nat \<Rightarrow> nat \<Rightarrow> arena \<Rightarrow> nat \<times> arena" where
  "get_from align n at A =
     (let A = ready n at A; u = the (blockinuse A); cp = align (b_area u + b_cur u)
      in (cp, A\<lparr>blockinuse := Some (u\<lparr>b_cur := cp + n - b_area u\<rparr>)\<rparr>))"

definition GETALIGNED :: "nat \<Rightarrow> nat \<Rightarrow> arena \<Rightarrow> nat \<times> arena" where
  "GETALIGNED n at A = get_from ALIGN n at A"

definition GETMEMORY :: "nat \<Rightarrow> nat \<Rightarrow> arena \<Rightarrow> nat \<times> arena" where
  "GETMEMORY n at A = get_from (\<lambda>x. x) n at A"

definition empty_block :: "block \<Rightarrow> block" where
  "empty_block b = b\<lparr>b_cur := 0\<rparr>"

definition tfree :: "arena \<Rightarrow> arena" where
  "tfree A =
     A\<lparr>a_pre := map empty_block (rev (blockfull A) @ a_pre A), blockinuse := map_option empty_block (blockinuse A),
       a_post := map empty_block (a_post A), blockfull := []\<rparr>"

definition getlevel :: "nat \<Rightarrow> arena \<Rightarrow> nat \<times> arena" where
  "getlevel at A =
     (let A = A\<lparr>stackflag := True\<rparr>;
          A = (if blockinuse A = None then moremem 0 at A else A);
          u = the (blockinuse A)
      in (b_area u + b_cur u, A))"

definition INBLOCK :: "nat \<Rightarrow> block \<Rightarrow> bool" where
  "INBLOCK s b \<longleftrightarrow> b_area b \<le> s \<and> b_area b + b_cur b \<ge> s"

text \<open>The blocks behind the one of the level are emptied; the first component tells whether the pointer was accepted.\<close>

definition setlevel :: "nat \<Rightarrow> arena \<Rightarrow> bool \<times> arena" where
  "setlevel s A =
     (if \<not> stackflag A \<or> blockfull A \<noteq> [] then (False, A)
      else case blockinuse A of
        Some u \<Rightarrow>
          (if INBLOCK s u then (True, A\<lparr>blockinuse := Some (u\<lparr>b_cur := s - b_area u\<rparr>)\<rparr>)
           else case List.extract (INBLOCK s) (blockhead A) of
             None \<Rightarrow> (False, A)
           | Some (xs, b, ys) \<Rightarrow> (True, A\<lparr>a_pre := xs, blockinuse := Some (b\<lparr>b_cur := s - b_area b\<rparr>), a_post := map empty_block ys\<rparr>))
      | None \<Rightarrow> (False, A))"

text \<open>
  The arenas by kind of memory, and the calls the program makes.  Kind \<open>MEM_MALLOC\<close> goes to \<open>emalloc\<close>, which gives \<open>at\<close>.  Memory is a
  function from addresses to bytes.
\<close>

datatype memtypes = MEM_PERM | MEM_MALLOC | MEM_TEMP | MEM_SHCMD | MEM_SHRET

type_synonym arenas = "memtypes \<Rightarrow> arena"

definition smalloc :: "memtypes \<Rightarrow> nat \<Rightarrow> nat \<Rightarrow> arenas \<Rightarrow> nat \<times> arenas" where
  "smalloc memtype n at As =
     (if memtype = MEM_MALLOC then (at, As) else let (cp, A) = GETALIGNED n at (As memtype) in (cp, As(memtype := A)))"

definition tmalloc :: "memtypes \<Rightarrow> nat \<Rightarrow> nat \<Rightarrow> arenas \<Rightarrow> nat \<times> arenas" where
  "tmalloc stickymem n at As = smalloc stickymem n at As"

definition mem_write :: "nat \<Rightarrow> string \<Rightarrow> (nat \<Rightarrow> char) \<Rightarrow> nat \<Rightarrow> char" where
  "mem_write cp s m = (\<lambda>a. if cp \<le> a \<and> a < cp + length s then s ! (a - cp) else m a)"

definition strnsave :: "memtypes \<Rightarrow> string \<Rightarrow> nat \<Rightarrow> nat \<Rightarrow> arenas \<Rightarrow> (nat \<Rightarrow> char) \<Rightarrow> nat \<times> arenas \<times> (nat \<Rightarrow> char)" where
  "strnsave stickymem s n at As m =
     (let (cp, As) = (if stickymem = MEM_MALLOC then (at, As)
                      else let (cp, A) = GETMEMORY (n + 1) at (As stickymem) in (cp, As(stickymem := A)))
      in (cp, As, mem_write cp (take n s @ [NUL]) m))"

definition strsave :: "memtypes \<Rightarrow> string \<Rightarrow> nat \<Rightarrow> arenas \<Rightarrow> (nat \<Rightarrow> char) \<Rightarrow> nat \<times> arenas \<times> (nat \<Rightarrow> char)" where
  "strsave stickymem s at As m = strnsave stickymem s (length s) at As m"

section \<open>Sizes\<close>

text \<open>The malloc'ed area behind \<open>b_area\<close> has room for 8 bytes more than \<open>endp\<close> says.\<close>

definition capacity :: "block \<Rightarrow> nat" where
  "capacity b = b_endp b + 8"

lemma fit_size_ge: "0 < sz \<Longrightarrow> n \<le> fit_size n sz \<and> sz \<le> fit_size n sz"
proof (induction n sz rule: fit_size.induct)
  case (1 n sz)
  show ?case
  proof (cases "sz < n")
    case True
    then have "fit_size n sz = fit_size n (2 * sz)" using 1(2) by (subst fit_size.simps) simp
    then show ?thesis using 1(1) True 1(2) by simp
  next
    case False
    then show ?thesis by (subst fit_size.simps, subst fit_size.simps) simp
  qed
qed

lemma fit_size_le: "n \<le> sz \<Longrightarrow> fit_size n sz = sz"
  by (subst fit_size.simps) simp

text \<open>A block of 32768 bytes is made for requests that leave no room for its pointers and the overhead: the piece ends behind the area.\<close>

lemma GETALIGNED_overflows:
  assumes "2 ^ 15 - 48 < n" "n \<le> 2 ^ 15" "NALIGN dvd at" "GETALIGNED n at arena_new = (cp, A)"
  shows "\<exists>u. blockinuse A = Some u \<and> cp = b_area u \<and> cp + n > b_area u + capacity u"
proof -
  have "fit_size n (2 ^ 15) = 2 ^ 15" using assms(2) by (rule fit_size_le)
  moreover have "ALIGN at = at" using assms(3) by (auto simp: ALIGN_def NALIGN_def)
  ultimately show ?thesis using assms
    by (auto simp: GETALIGNED_def get_from_def ready_def moremem_def arena_new_def new_block_def next_size_def capacity_def BLOCK_SIZE_def
        CLICK_FIRST_def MALLOC_OVERHEAD_def sizeof_block_def)
qed


section \<open>Clients\<close>

text \<open>
  A client holds pieces \<open>(address, length)\<close> and levels, each with the arena and the pieces of the time when it was taken.  A level that is
  returned to ends the pieces and levels that came later; \<open>tfree\<close> ends all.  A new block comes from \<open>emalloc\<close>: it is aligned and no byte of it
  belongs to another block.  Requests have to fit the block that \<open>moremem\<close> would make for them.
\<close>

type_synonym mpiece = "nat \<times> nat"

definition all_blocks :: "arena \<Rightarrow> block list" where
  "all_blocks A = blockfull A @ blockhead A"

definition apart :: "nat \<Rightarrow> nat \<Rightarrow> nat \<Rightarrow> nat \<Rightarrow> bool" where
  "apart a n b m \<longleftrightarrow> a + n \<le> b \<or> b + m \<le> a"

text \<open>The bytes of a block, its pointers included.\<close>

definition blocks_apart :: "block \<Rightarrow> block \<Rightarrow> bool" where
  "blocks_apart b c \<longleftrightarrow> b_area b + capacity b + area_offset \<le> b_area c \<or> b_area c + capacity c + area_offset \<le> b_area b"

definition emalloc_ok :: "nat \<Rightarrow> nat \<Rightarrow> arena \<Rightarrow> bool" where
  "emalloc_ok n at A \<longleftrightarrow> NALIGN dvd at \<and> (\<forall>b\<in>set (all_blocks A). blocks_apart b (new_block n at A))"

definition request_ok :: "nat \<Rightarrow> arena \<Rightarrow> bool" where
  "request_ok n A \<longleftrightarrow> n + MALLOC_OVERHEAD + area_offset \<le> next_size n A"

type_synonym mlevel = "nat \<times> arena \<times> mpiece list"

inductive client :: "arena \<Rightarrow> mpiece list \<Rightarrow> mlevel list \<Rightarrow> bool" where
  c_start: "client arena_new [] []"
| c_aligned: "\<lbrakk>client A P L; emalloc_ok n at A; request_ok n A; GETALIGNED n at A = (cp, B)\<rbrakk> \<Longrightarrow> client B (P @ [(cp, n)]) L"
| c_unaligned: "\<lbrakk>client A P L; emalloc_ok n at A; request_ok n A; GETMEMORY n at A = (cp, B)\<rbrakk> \<Longrightarrow> client B (P @ [(cp, n)]) L"
| c_free: "client A P L \<Longrightarrow> client (tfree A) [] []"
| c_level: "\<lbrakk>client A P L; emalloc_ok 0 at A; getlevel at A = (s, B)\<rbrakk> \<Longrightarrow> client B P (L @ [(s, B, P)])"
| c_back: "\<lbrakk>client A P (L @ (s, B, Q) # M); setlevel s A = (ok, C)\<rbrakk> \<Longrightarrow> client C Q (L @ [(s, B, Q)])"

section \<open>Invariant\<close>

definition shape :: "block \<Rightarrow> nat \<times> nat" where
  "shape b = (b_area b, b_endp b)"

definition areas_ok :: "block list \<Rightarrow> bool" where
  "areas_ok bs \<longleftrightarrow> sorted_wrt blocks_apart bs"

definition held_by :: "block \<Rightarrow> mpiece \<Rightarrow> bool" where
  "held_by b p \<longleftrightarrow> b_area b \<le> fst p \<and> fst p + snd p \<le> b_area b + b_cur b"

definition piece_blocks :: "arena \<Rightarrow> block list" where
  "piece_blocks A = blockfull A @ a_pre A @ (case blockinuse A of None \<Rightarrow> [] | Some u \<Rightarrow> [u])"

definition held :: "arena \<Rightarrow> mpiece list \<Rightarrow> bool" where
  "held A P \<longleftrightarrow> (\<forall>p\<in>set P. \<exists>b\<in>set (piece_blocks A). held_by b p)"

definition pieces_apart :: "mpiece list \<Rightarrow> bool" where
  "pieces_apart P \<longleftrightarrow> sorted_wrt (\<lambda>p q. apart (fst p) (snd p) (fst q) (snd q)) P"

definition arena_ok :: "arena \<Rightarrow> bool" where
  "arena_ok A \<longleftrightarrow> areas_ok (all_blocks A) \<and> (\<forall>b\<in>set (all_blocks A). b_cur b \<le> capacity b) \<and> (\<forall>b\<in>set (a_post A). b_cur b = 0) \<and>
     (\<not> stackflag A \<longrightarrow> a_post A = []) \<and> (blockinuse A = None \<longrightarrow> all_blocks A = []) \<and> (blockinuse A \<noteq> None \<longrightarrow> 2 ^ 15 \<le> a_size A)"

lemma blocks_apart_sym: "blocks_apart b c \<longleftrightarrow> blocks_apart c b"
  by (auto simp: blocks_apart_def)

lemma sorted_wrt_mset:
  assumes "\<And>x y. R x y \<longleftrightarrow> R y x" "mset xs = mset ys"
  shows "sorted_wrt R xs \<longleftrightarrow> sorted_wrt R ys"
  using assms(2)
proof (induction xs arbitrary: ys)
  case (Cons x xs)
  then have "x \<in> set ys" by (metis list.set_intros(1) mset_eq_setD)
  then obtain us vs where ys: "ys = us @ x # vs" by (meson split_list)
  then have "mset xs = mset (us @ vs)" using Cons(2) by simp
  from Cons(1) [OF this] mset_eq_setD [OF this] show ?case using assms(1) by (auto simp: ys sorted_wrt_append)
qed simp

lemma areas_ok_shape: "areas_ok bs \<longleftrightarrow> sorted_wrt (\<lambda>(a, m) (b, n). a + m + 8 + area_offset \<le> b \<or> b + n + 8 + area_offset \<le> a) (map shape bs)"
  by (simp add: areas_ok_def sorted_wrt_map blocks_apart_def [abs_def] shape_def capacity_def algebra_simps)

lemma areas_ok_mset:
  assumes "mset (map shape bs) = mset (map shape cs)"
  shows "areas_ok bs \<longleftrightarrow> areas_ok cs"
  unfolding areas_ok_shape by (rule sorted_wrt_mset [OF _ assms]) auto

lemma next_size_ge: "blockinuse A = None \<or> 2 ^ 15 \<le> a_size A \<Longrightarrow> n \<le> next_size n A \<and> 2 ^ 15 \<le> next_size n A"
  using fit_size_ge [of "2 ^ 15" n] fit_size_ge [of "a_size A" n] by (auto simp: next_size_def CLICK_FIRST_def CLICK_FINAL_def)

lemma retire_mset: "retire bs full = (cs, gull) \<Longrightarrow> mset gull + mset cs = mset full + mset bs"
  by (induction bs full rule: retire.induct) (auto split: if_splits)


lemma moremem_blocks:
  assumes "moremem n at A = B" "arena_ok A"
  shows "mset (all_blocks B) = mset (all_blocks A) \<or> mset (all_blocks B) = add_mset (new_block n at A) (mset (all_blocks A))"
proof (cases "blockinuse A")
  case None
  then show ?thesis using assms by (auto simp: moremem_def arena_ok_def all_blocks_def blockhead_def)
next
  case (Some u)
  show ?thesis
  proof (cases "stackflag A")
    case True
    then show ?thesis using assms(1) Some
      by (auto simp: moremem_def moremem_stack_def all_blocks_def blockhead_def dest!: extract_SomeE split: option.splits)
  next
    case False
    then have p: "a_post A = []" using assms(2) by (simp add: arena_ok_def)
    obtain cs gull where r: "retire (case List.extract (has_room n) (a_pre A) of None \<Rightarrow> a_pre A @ [u] | Some (xs, b, ys) \<Rightarrow> xs @ ys @ [u]) (blockfull A) = (cs, gull)"
      by fastforce
    show ?thesis using assms(1) Some False p r retire_mset [OF r]
      by (auto simp: moremem_def moremem_list_def all_blocks_def blockhead_def Let_def dest!: extract_SomeE split: option.splits)
  qed
qed

definition fresh_or_room :: "nat \<Rightarrow> block \<Rightarrow> bool" where
  "fresh_or_room n u \<longleftrightarrow> has_room n u \<or> b_cur u = 0 \<and> n \<le> capacity u \<and> NALIGN dvd b_area u"

lemma new_block_fits:
  assumes "emalloc_ok n at A" "request_ok n A"
  shows "fresh_or_room n (new_block n at A)"
  using assms by (auto simp: fresh_or_room_def emalloc_ok_def request_ok_def new_block_def capacity_def BLOCK_SIZE_def MALLOC_OVERHEAD_def sizeof_block_def area_offset_def)

lemma moremem_inuse:
  assumes "emalloc_ok n at A" "request_ok n A"
  shows "\<exists>u. blockinuse (moremem n at A) = Some u \<and> fresh_or_room n u"
proof -
  have "fresh_or_room n b" if "List.extract (has_room n) bs = Some (xs, b, ys)" for bs xs b ys
    using that by (auto simp: fresh_or_room_def dest: extract_SomeE)
  then show ?thesis using new_block_fits [OF assms]
    by (auto simp: moremem_def moremem_stack_def moremem_list_def Let_def split: option.splits prod.splits)
qed


lemma moremem_areas:
  assumes "arena_ok A" "emalloc_ok n at A"
  shows "areas_ok (all_blocks (moremem n at A)) \<and> (\<forall>b\<in>set (all_blocks (moremem n at A)). b_cur b \<le> capacity b)"
proof -
  let ?B = "moremem n at A" and ?b = "new_block n at A"
  have ok: "areas_ok (all_blocks A)" "\<forall>b\<in>set (all_blocks A). b_cur b \<le> capacity b" using assms(1) by (auto simp: arena_ok_def)
  have new: "areas_ok (?b # all_blocks A)" "b_cur ?b \<le> capacity ?b"
    using ok(1) assms(2) blocks_apart_sym by (auto simp: areas_ok_def emalloc_ok_def new_block_def)
  from moremem_blocks [OF refl assms(1)] show ?thesis
  proof
    assume m: "mset (all_blocks ?B) = mset (all_blocks A)"
    then show ?thesis using ok areas_ok_mset [of "all_blocks ?B" "all_blocks A"] mset_eq_setD [OF m] by simp
  next
    assume "mset (all_blocks ?B) = add_mset ?b (mset (all_blocks A))"
    then have m: "mset (all_blocks ?B) = mset (?b # all_blocks A)" by simp
    have "mset (map shape (all_blocks ?B)) = mset (map shape (?b # all_blocks A))" unfolding mset_map m ..
    from areas_ok_mset [OF this] show ?thesis using ok(2) new mset_eq_setD [OF m] by auto
  qed
qed

lemma moremem_fields:
  assumes "arena_ok A"
  shows "set (a_post (moremem n at A)) \<subseteq> set (a_post A)" "stackflag (moremem n at A) = stackflag A" "2 ^ 15 \<le> a_size (moremem n at A)"
proof -
  have "2 ^ 15 \<le> next_size n A" "blockinuse A \<noteq> None \<Longrightarrow> 2 ^ 15 \<le> a_size A" using assms next_size_ge [of A n] by (auto simp: arena_ok_def)
  then show "2 ^ 15 \<le> a_size (moremem n at A)"
    by (auto simp: moremem_def moremem_stack_def moremem_list_def Let_def split: option.splits prod.splits)
qed (auto simp: moremem_def moremem_stack_def moremem_list_def Let_def dest!: extract_SomeE split: option.splits prod.splits)

lemma moremem_ok:
  assumes "arena_ok A" "emalloc_ok n at A" "request_ok n A"
  shows "arena_ok (moremem n at A)"
  using moremem_areas [OF assms(1,2)] moremem_fields [OF assms(1), of n at] moremem_inuse [OF assms(2,3)] assms(1)
  unfolding arena_ok_def by auto

lemma retire_set: "retire bs full = (cs, gull) \<Longrightarrow> set gull \<union> set cs = set full \<union> set bs"
  using mset_eq_setD [of "gull @ cs" "full @ bs"] retire_mset [of bs full cs gull] by simp

lemma moremem_keeps: "set (piece_blocks A) \<subseteq> set (piece_blocks (moremem n at A))"
proof (cases "blockinuse A")
  case (Some u)
  show ?thesis
  proof (cases "stackflag A")
    case True
    then show ?thesis using Some by (auto simp: moremem_def moremem_stack_def piece_blocks_def split: option.splits)
  next
    case False
    obtain cs gull where r: "retire (case List.extract (has_room n) (a_pre A) of None \<Rightarrow> a_pre A @ [u] | Some (xs, b, ys) \<Rightarrow> xs @ ys @ [u]) (blockfull A) = (cs, gull)"
      by fastforce
    show ?thesis using Some False r retire_set [OF r]
      by (auto simp: moremem_def moremem_list_def piece_blocks_def Let_def dest!: extract_SomeE split: option.splits)
  qed
qed (auto simp: moremem_def piece_blocks_def)

lemma ready_ok:
  assumes "arena_ok A" "emalloc_ok n at A" "request_ok n A"
  shows "arena_ok (ready n at A) \<and> set (piece_blocks A) \<subseteq> set (piece_blocks (ready n at A)) \<and> stackflag (ready n at A) = stackflag A \<and>
    (\<exists>u. blockinuse (ready n at A) = Some u \<and> fresh_or_room n u)"
proof (cases "case blockinuse A of None \<Rightarrow> False | Some u \<Rightarrow> has_room n u")
  case True
  then show ?thesis using assms(1) by (auto simp: ready_def fresh_or_room_def split: option.splits)
next
  case False
  then have "ready n at A = moremem n at A" unfolding ready_def by (rule if_not_P)
  then show ?thesis using moremem_ok [OF assms] moremem_keeps [of A n at] moremem_fields(2) [OF assms(1)] moremem_inuse [OF assms(2,3)] by simp
qed

definition aligner :: "(nat \<Rightarrow> nat) \<Rightarrow> bool" where
  "aligner f \<longleftrightarrow> (\<forall>x. x \<le> f x \<and> f x < x + NALIGN \<and> (NALIGN dvd x \<longrightarrow> f x = x))"

lemma aligner_ALIGN: "aligner ALIGN"
proof -
  have "x \<le> ALIGN x \<and> ALIGN x < x + NALIGN \<and> (NALIGN dvd x \<longrightarrow> ALIGN x = x)" for x
  proof -
    have "x + 7 = ALIGN x + (x + 7) mod 8" by (simp add: ALIGN_def NALIGN_def)
    moreover have "(x + 7) mod 8 < 8" by simp
    ultimately show ?thesis by (auto simp: ALIGN_def NALIGN_def)
  qed
  then show ?thesis by (simp add: aligner_def)
qed

lemma aligner_id: "aligner (\<lambda>x. x)"
  by (simp add: aligner_def NALIGN_def)

lemma cut_in_block:
  assumes "aligner f" "fresh_or_room n u" "cp = f (b_area u + b_cur u)"
  shows "b_area u + b_cur u \<le> cp" "cp + n \<le> b_area u + capacity u"
proof -
  show "b_area u + b_cur u \<le> cp" using assms(1,3) by (simp add: aligner_def)
  have "cp < b_area u + b_cur u + 8" "b_cur u = 0 \<and> NALIGN dvd b_area u \<Longrightarrow> cp = b_area u"
    using assms(1,3) by (auto simp: aligner_def NALIGN_def)
  then show "cp + n \<le> b_area u + capacity u" using assms(2) by (auto simp: fresh_or_room_def has_room_def capacity_def)
qed

lemma held_mono: "held A P \<Longrightarrow> set (piece_blocks A) \<subseteq> set (piece_blocks B) \<Longrightarrow> held B P"
  unfolding held_def by blast

lemma get_from_safe:
  assumes "aligner f" "arena_ok A" "emalloc_ok n at A" "request_ok n A" "get_from f n at A = (cp, B)" "held A P" "pieces_apart P"
  shows "arena_ok B \<and> held B (P @ [(cp, n)]) \<and> pieces_apart (P @ [(cp, n)]) \<and> stackflag B = stackflag A"
proof -
  define R where "R = ready n at A"
  obtain u where R: "arena_ok R" "stackflag R = stackflag A" "blockinuse R = Some u" "fresh_or_room n u" "held R P"
    using ready_ok [OF assms(2-4)] held_mono [OF assms(6)] unfolding R_def by blast
  define v where "v = u\<lparr>b_cur := cp + n - b_area u\<rparr>"
  have B: "B = R\<lparr>blockinuse := Some v\<rparr>" "cp = f (b_area u + b_cur u)"
    using assms(5) R(3) by (auto simp: get_from_def Let_def v_def simp flip: R_def)
  note cp = cut_in_block [OF assms(1) R(4) B(2)]
  have v: "b_area v = b_area u" "capacity v = capacity u" "b_cur u \<le> b_cur v" "b_area u + b_cur v = cp + n" "shape v = shape u"
    using cp by (auto simp: v_def capacity_def shape_def)
  have all: "all_blocks R = blockfull R @ a_pre R @ u # a_post R" "all_blocks B = blockfull R @ a_pre R @ v # a_post R"
    using R(3) B(1) by (auto simp: all_blocks_def blockhead_def)
  have "areas_ok (all_blocks B)" using R(1) areas_ok_mset [of "all_blocks B" "all_blocks R"] v(5) by (simp add: all arena_ok_def)
  moreover have "\<forall>b\<in>set (all_blocks B). b_cur b \<le> capacity b" unfolding all(2) using R(1) v cp(2) by (auto simp: arena_ok_def all(1))
  moreover have "blockinuse B = Some v" "a_post B = a_post R" "stackflag B = stackflag R" "a_size B = a_size R" by (simp_all add: B(1))
  ultimately have okB: "arena_ok B" using R(1,3) unfolding arena_ok_def by simp
  have new: "held_by v (cp, n)" using v cp(1) by (simp add: held_by_def)
  have old: "(\<exists>b\<in>set (piece_blocks B). held_by b p) \<and> apart (fst p) (snd p) cp n" if pP: "p \<in> set P" for p
  proof -
    obtain b where b: "b \<in> set (piece_blocks R)" "held_by b p" using R(5) pP by (auto simp: held_def)
    show ?thesis
    proof (cases "b = u")
      case True
      then have "held_by v p" "fst p + snd p \<le> cp" using b(2) v(1,3) cp(1) by (auto simp: held_by_def)
      then show ?thesis using B(1) by (auto simp: piece_blocks_def apart_def)
    next
      case False
      then have m: "b \<in> set (blockfull R @ a_pre R)" using b(1) R(3) by (auto simp: piece_blocks_def)
      then have "blocks_apart b u" "b_cur b \<le> capacity b" using R(1) by (auto simp: arena_ok_def all areas_ok_def sorted_wrt_append)
      then have "apart (fst p) (snd p) cp n" using b(2) cp by (auto simp: apart_def blocks_apart_def held_by_def)
      then show ?thesis using m b(2) B(1) by (auto simp: piece_blocks_def)
    qed
  qed
  have "held B (P @ [(cp, n)])" using old new B(1) by (auto simp: held_def piece_blocks_def)
  moreover have "pieces_apart (P @ [(cp, n)])" using old assms(7) by (simp add: pieces_apart_def sorted_wrt_append)
  ultimately show ?thesis using okB B(1) R(2) by simp
qed


text \<open>In a stack the blocks up to the block in use of a level stay where they are, and only the last of them is filled further.\<close>

definition filled_up :: "block \<Rightarrow> block \<Rightarrow> bool" where
  "filled_up b c \<longleftrightarrow> c = b\<lparr>b_cur := b_cur c\<rparr> \<and> b_cur b \<le> b_cur c"

definition front :: "arena \<Rightarrow> block list" where
  "front A = a_pre A @ (case blockinuse A of None \<Rightarrow> [] | Some u \<Rightarrow> [u])"

definition extends :: "arena \<Rightarrow> arena \<Rightarrow> bool" where
  "extends A B \<longleftrightarrow> stackflag B \<and> blockfull B = blockfull A \<and>
     (\<exists>u v vs. blockinuse A = Some u \<and> front B = a_pre A @ v # vs \<and> filled_up u v) \<and> blockinuse B \<noteq> None"

lemma filled_up_refl: "filled_up b b"
  by (simp add: filled_up_def)

lemma filled_up_trans:
  assumes "filled_up a b" "filled_up b c"
  shows "filled_up a c"
proof -
  have "c = b\<lparr>b_cur := b_cur c\<rparr>" "b = a\<lparr>b_cur := b_cur b\<rparr>" using assms unfolding filled_up_def by blast+
  then have "c = a\<lparr>b_cur := b_cur c\<rparr>" by (metis block.update_convs(3) block.surjective)
  then show ?thesis using assms unfolding filled_up_def by (meson le_trans)
qed

lemma extends_refl: "stackflag A \<Longrightarrow> blockinuse A \<noteq> None \<Longrightarrow> extends A A"
  using filled_up_refl by (auto simp: extends_def front_def)

lemma extends_trans:
  assumes "extends A B" "extends B C"
  shows "extends A C"
proof -
  obtain u v vs where 1: "blockinuse A = Some u" "front B = a_pre A @ v # vs" "filled_up u v" using assms(1) unfolding extends_def by blast
  obtain x y ys where 2: "blockinuse B = Some x" "front C = a_pre B @ y # ys" "filled_up x y" using assms(2) unfolding extends_def by blast
  have "a_pre B @ [x] = a_pre A @ v # vs" using 1(2) 2(1) by (simp add: front_def)
  then consider "a_pre B = a_pre A" "v = x" "vs = []" | ws where "a_pre B = a_pre A @ v # ws"
    by (cases vs rule: rev_cases) auto
  then have "\<exists>v vs. front C = a_pre A @ v # vs \<and> filled_up u v"
  proof cases
    case 1
    then show ?thesis using 2(2,3) \<open>filled_up u v\<close> filled_up_trans by metis
  next
    case 2
    then show ?thesis using \<open>front C = _\<close> \<open>filled_up u v\<close> by auto
  qed
  then show ?thesis using 1(1) assms unfolding extends_def by auto
qed

lemma ready_extends:
  assumes "stackflag A" "blockinuse A = Some x"
  shows "extends A (ready n at A)"
proof (cases "has_room n x")
  case True
  then show ?thesis using assms extends_refl by (simp add: ready_def)
next
  case False
  then have "ready n at A = moremem_stack n at x A" using assms by (simp add: ready_def moremem_def)
  then show ?thesis using assms filled_up_refl by (auto simp: moremem_stack_def extends_def front_def split: option.splits)
qed

lemma get_from_extends:
  assumes "aligner f" "stackflag A" "blockinuse A = Some x" "get_from f n at A = (cp, B)"
  shows "extends A B"
proof -
  define R where "R = ready n at A"
  have R: "extends A R" using ready_extends [OF assms(2,3)] by (simp add: R_def)
  then obtain u where u: "blockinuse R = Some u" "stackflag R" by (auto simp: extends_def)
  define v where "v = u\<lparr>b_cur := cp + n - b_area u\<rparr>"
  have B: "B = R\<lparr>blockinuse := Some v\<rparr>" "cp = f (b_area u + b_cur u)"
    using assms(4) u(1) by (auto simp: get_from_def Let_def v_def simp flip: R_def)
  have "b_area u + b_cur u \<le> cp" using assms(1) B(2) by (simp add: aligner_def)
  then have "filled_up u v" by (simp add: filled_up_def v_def)
  then have "extends R B" using u B(1) by (auto simp: extends_def front_def)
  with R show ?thesis by (rule extends_trans)
qed


section \<open>Returning to a level\<close>

text \<open>What the state of a level knows.\<close>

definition level_at :: "mlevel \<Rightarrow> bool" where
  "level_at l \<longleftrightarrow> (case l of (s, B, Q) \<Rightarrow> held B Q \<and> (\<exists>u. blockinuse B = Some u \<and> s = b_area u + b_cur u) \<and> stackflag B)"

lemma INBLOCK_unique:
  assumes "blocks_apart b c" "b_cur b \<le> capacity b" "b_cur c \<le> capacity c" "INBLOCK s b"
  shows "\<not> INBLOCK s c"
  using assms by (auto simp: blocks_apart_def INBLOCK_def area_offset_def)

lemma setlevel_exact:
  assumes "arena_ok A" "extends B A" "blockinuse B = Some u" "s = b_area u + b_cur u" "blockfull A = []"
  shows "\<exists>bs. setlevel s A = (True, A\<lparr>a_pre := a_pre B, blockinuse := Some u, a_post := map empty_block bs\<rparr>) \<and>
    mset (map shape (all_blocks A)) = mset (map shape (a_pre B @ u # bs))"
proof -
  obtain v vs x where A: "front A = a_pre B @ v # vs" "filled_up u v" "stackflag A" "blockinuse A = Some x"
    using assms(2,3) unfolding extends_def by auto
  have v: "b_area v = b_area u" "shape v = shape u" "v\<lparr>b_cur := b_cur u\<rparr> = u" "INBLOCK s v"
    using A(2) assms(4) unfolding filled_up_def INBLOCK_def shape_def by (metis block.select_convs block.surjective block.update_convs(3) add_le_cancel_left le_add1)+
  have hd: "blockhead A = a_pre B @ v # vs @ a_post A" using A(1,4) by (simp add: blockhead_def front_def)
  have all: "all_blocks A = a_pre B @ v # vs @ a_post A" using hd assms(5) by (simp add: all_blocks_def)
  have ok: "sorted_wrt blocks_apart (a_pre B @ v # vs @ a_post A)" "\<forall>b\<in>set (a_pre B @ v # vs @ a_post A). b_cur b \<le> capacity b"
    using assms(1) by (auto simp: arena_ok_def areas_ok_def all)
  have no: "\<not> INBLOCK s b" if "b \<in> set (a_pre B) \<union> set vs" for b
    using INBLOCK_unique [of v b s] that v(4) ok blocks_apart_sym by (auto simp: sorted_wrt_append)
  show ?thesis
  proof (cases vs rule: rev_cases)
    case Nil
    then have e: "a_pre A = a_pre B" "x = v" using A(1,4) by (auto simp: front_def)
    have "\<forall>b\<in>set (a_post A). b_cur b = 0" using assms(1) by (simp add: arena_ok_def)
    then have "map empty_block (a_post A) = a_post A" by (intro map_idI) (simp add: empty_block_def)
    then have "setlevel s A = (True, A\<lparr>a_pre := a_pre B, blockinuse := Some u, a_post := map empty_block (a_post A)\<rparr>)"
      using A(3,4) e v assms(4,5) by (simp add: setlevel_def)
    then show ?thesis using all v(2) Nil by auto
  next
    case (snoc ws y)
    then have e: "x = y" "y \<in> set vs" using A(1,4) by (auto simp: front_def)
    have "List.extract (INBLOCK s) (blockhead A) = Some (a_pre B, v, vs @ a_post A)" using hd v(4) no by (auto simp: extract_Some_iff)
    then have "setlevel s A = (True, A\<lparr>a_pre := a_pre B, blockinuse := Some u, a_post := map empty_block (vs @ a_post A)\<rparr>)"
      using A(3,4) e no v assms(4,5) by (simp add: setlevel_def)
    then show ?thesis using all v(2) by (intro exI [of _ "vs @ a_post A"]) simp
  qed
qed


lemma shape_empty [simp]: "shape (empty_block b) = shape b" "b_cur (empty_block b) = 0"
  by (simp_all add: shape_def empty_block_def)

lemma setlevel_ok:
  assumes "arena_ok A" "extends B A" "held B Q" "blockinuse B = Some u" "s = b_area u + b_cur u" "blockfull A = []" "setlevel s A = (ok, C)"
  shows "ok \<and> a_pre C = a_pre B \<and> blockinuse C = blockinuse B \<and> arena_ok C \<and> extends B C \<and> held C Q"
proof -
  obtain bs where C: "ok" "C = A\<lparr>a_pre := a_pre B, blockinuse := Some u, a_post := map empty_block bs\<rparr>"
    and m: "mset (map shape (all_blocks A)) = mset (map shape (a_pre B @ u # bs))"
    using setlevel_exact [OF assms(1,2,4,5,6)] assms(7) by auto
  obtain v vs where v: "front A = a_pre B @ v # vs" "filled_up u v" "stackflag A" "blockfull B = []"
    using assms(2,4,6) unfolding extends_def by auto
  have in_A: "set (a_pre B) \<subseteq> set (all_blocks A)" "v \<in> set (all_blocks A)"
  proof -
    have "set (front A) \<subseteq> set (all_blocks A)" by (auto simp: all_blocks_def blockhead_def front_def)
    then show "set (a_pre B) \<subseteq> set (all_blocks A)" "v \<in> set (all_blocks A)" unfolding v(1) by auto
  qed
  have "b_cur v \<le> capacity v" using in_A(2) assms(1) by (simp add: arena_ok_def)
  moreover have "capacity v = capacity u" using v(2) unfolding filled_up_def capacity_def by (metis block.select_convs(2) block.surjective block.update_convs(3))
  ultimately have "b_cur u \<le> capacity u" using v(2) by (simp add: filled_up_def)
  then have cur: "\<forall>b\<in>set (all_blocks C). b_cur b \<le> capacity b"
    using in_A(1) assms(1,6) C(2) by (auto simp: arena_ok_def all_blocks_def blockhead_def)
  have "mset (map shape (all_blocks C)) = mset (map shape (all_blocks A))"
    unfolding m using C(2) assms(6) by (simp add: all_blocks_def blockhead_def multiset.map_comp comp_def)
  from areas_ok_mset [OF this] have "areas_ok (all_blocks C)" using assms(1) by (simp add: arena_ok_def)
  moreover have "2 ^ 15 \<le> a_size C" using assms(1,2) C(2) by (simp add: arena_ok_def extends_def)
  ultimately have "arena_ok C" using cur C(2) v(3) by (auto simp: arena_ok_def)
  moreover have "extends B C" using C(2) v(3,4) assms(4,6) filled_up_refl by (auto simp: extends_def front_def)
  moreover have "held C Q" by (rule held_mono [OF assms(3)]) (use C(2) v(4) assms(4,6) in \<open>auto simp: piece_blocks_def\<close>)
  ultimately show ?thesis using C assms(4) by simp
qed

definition level_le :: "arena \<times> mpiece list \<Rightarrow> arena \<times> mpiece list \<Rightarrow> bool" where
  "level_le x y \<longleftrightarrow> extends (fst x) (fst y) \<and> prefix (snd x) (snd y)"

definition client_ok :: "arena \<Rightarrow> mpiece list \<Rightarrow> mlevel list \<Rightarrow> bool" where
  "client_ok A P L \<longleftrightarrow> arena_ok A \<and> held A P \<and> pieces_apart P \<and> (\<forall>l\<in>set L. level_at l) \<and> sorted_wrt level_le (map snd L @ [(A, P)])"

lemma level_le_trans: "level_le x y \<Longrightarrow> level_le y z \<Longrightarrow> level_le x z"
  unfolding level_le_def using extends_trans prefix_order.trans by blast

lemma client_ok_get:
  assumes "aligner f" "client_ok A P L" "emalloc_ok n at A" "request_ok n A" "get_from f n at A = (cp, B)"
  shows "client_ok B (P @ [(cp, n)]) L"
proof -
  have ok: "arena_ok A" "held A P" "pieces_apart P" using assms(2) by (auto simp: client_ok_def)
  have "level_le (snd l) (B, P @ [(cp, n)])" if "l \<in> set L" for l
  proof -
    have l: "level_le (snd l) (A, P)" using assms(2) that by (auto simp: client_ok_def sorted_wrt_append)
    then obtain x where "stackflag A" "blockinuse A = Some x" by (auto simp: level_le_def extends_def)
    from get_from_extends [OF assms(1) this assms(5)] have "level_le (A, P) (B, P @ [(cp, n)])" by (simp add: level_le_def)
    then show ?thesis using l level_le_trans by blast
  qed
  then show ?thesis using get_from_safe [OF assms(1) ok(1) assms(3,4,5) ok(2,3)] assms(2) by (auto simp: client_ok_def sorted_wrt_append)
qed

lemma client_ok_tfree:
  assumes "client_ok A P L"
  shows "client_ok (tfree A) [] []"
proof -
  have ok: "arena_ok A" using assms by (simp add: client_ok_def)
  have "mset (map shape (all_blocks (tfree A))) = mset (map shape (all_blocks A))"
    by (auto simp: all_blocks_def blockhead_def tfree_def multiset.map_comp comp_def split: option.splits)
  from areas_ok_mset [OF this] have "areas_ok (all_blocks (tfree A))" using ok by (simp add: arena_ok_def)
  moreover have "\<forall>b\<in>set (all_blocks (tfree A)). b_cur b = 0"
    by (auto simp: all_blocks_def blockhead_def tfree_def split: option.splits)
  moreover have "blockinuse A = None \<Longrightarrow> all_blocks (tfree A) = []"
    using ok by (simp add: arena_ok_def all_blocks_def blockhead_def tfree_def)
  moreover have "\<forall>b\<in>set (a_post (tfree A)). b_cur b = 0" by (simp add: tfree_def)
  ultimately have "arena_ok (tfree A)" using ok by (simp add: arena_ok_def tfree_def)
  then show ?thesis by (simp add: client_ok_def held_def pieces_apart_def)
qed

lemma client_ok_getlevel:
  assumes "client_ok A P L" "emalloc_ok 0 at A" "getlevel at A = (s, B)"
  shows "client_ok B P (L @ [(s, B, P)])"
proof -
  define S where "S = A\<lparr>stackflag := True\<rparr>"
  have A: "arena_ok A" "held A P" using assms(1) by (auto simp: client_ok_def)
  have S: "arena_ok S" "emalloc_ok 0 at S" "request_ok 0 S" "held S P"
    using A assms(2) next_size_ge [of A 0] unfolding S_def
    by (auto simp: arena_ok_def emalloc_ok_def request_ok_def all_blocks_def blockhead_def new_block_def next_size_def held_def piece_blocks_def
        MALLOC_OVERHEAD_def area_offset_def)
  have B: "arena_ok B \<and> held B P \<and> stackflag B \<and> (\<exists>u. blockinuse B = Some u \<and> s = b_area u + b_cur u)"
  proof (cases "blockinuse A")
    case None
    then have "B = moremem 0 at S" "s = b_area (the (blockinuse B)) + b_cur (the (blockinuse B))"
      using assms(3) by (auto simp: getlevel_def Let_def S_def)
    then show ?thesis using moremem_ok [OF S(1-3)] moremem_inuse [OF S(2,3)] moremem_fields(2) [OF S(1), of 0 at] held_mono [OF S(4) moremem_keeps]
      by (auto simp: S_def)
  next
    case (Some u)
    then show ?thesis using assms(3) S(1,4) by (auto simp: getlevel_def Let_def S_def)
  qed
  have refl: "level_le (B, P) (B, P)" using B extends_refl by (auto simp: level_le_def)
  have "level_le (snd l) (B, P)" if "l \<in> set L" for l
  proof -
    have l: "level_le (snd l) (A, P)" using assms(1) that by (auto simp: client_ok_def sorted_wrt_append)
    then have "stackflag A" "blockinuse A \<noteq> None" by (auto simp: level_le_def extends_def)
    then have "B = A" using assms(3) by (auto simp: getlevel_def Let_def)
    then show ?thesis using l by simp
  qed
  then show ?thesis using B refl assms(1) by (auto simp: client_ok_def sorted_wrt_append level_at_def)
qed

lemma client_ok_setlevel:
  assumes "client_ok A P (L @ (s, B, Q) # M)" "setlevel s A = (ok, C)"
  shows "client_ok C Q (L @ [(s, B, Q)])" "blockfull A = [] \<Longrightarrow> ok \<and> a_pre C = a_pre B \<and> blockinuse C = blockinuse B"
proof -
  have A: "arena_ok A" "held A P" "pieces_apart P" "extends B A" "prefix Q P" "\<forall>l\<in>set L. level_le (snd l) (B, Q)"
    "\<forall>l\<in>set L. level_at l" "sorted_wrt level_le (map snd L)" and lv: "level_at (s, B, Q)"
    using assms(1) by (auto simp: client_ok_def sorted_wrt_append level_le_def)
  obtain u where u: "held B Q" "blockinuse B = Some u" "s = b_area u + b_cur u" "stackflag B" using lv by (auto simp: level_at_def)
  have pQ: "pieces_apart Q" "held A Q" using A(2,3,5) by (auto simp: prefix_def pieces_apart_def sorted_wrt_append held_def)
  have 1: "ok \<and> a_pre C = a_pre B \<and> blockinuse C = blockinuse B \<and> arena_ok C \<and> extends B C \<and> held C Q" if "blockfull A = []"
    using setlevel_ok [OF A(1,4) u(1,2,3) that assms(2)] .
  then show "blockfull A = [] \<Longrightarrow> ok \<and> a_pre C = a_pre B \<and> blockinuse C = blockinuse B" by blast
  have "blockfull A \<noteq> [] \<Longrightarrow> C = A" using assms(2) by (auto simp: setlevel_def)
  then have C: "arena_ok C" "extends B C" "held C Q" using 1 A(1,4) pQ(2) by auto
  have le: "level_le (B, Q) (C, Q)" using C(2) by (simp add: level_le_def)
  then have "\<forall>l\<in>set L. level_le (snd l) (C, Q)" using A(6) level_le_trans by blast
  then show "client_ok C Q (L @ [(s, B, Q)])" using C pQ(1) A(6-8) lv le by (auto simp: client_ok_def sorted_wrt_append)
qed

lemma client_invariant: "client A P L \<Longrightarrow> client_ok A P L"
proof (induction rule: client.induct)
  case c_start
  show ?case by (simp add: client_ok_def arena_ok_def arena_new_def all_blocks_def blockhead_def areas_ok_def held_def pieces_apart_def)
next
  case (c_aligned A P L n at cp B)
  then show ?case using client_ok_get [OF aligner_ALIGN] by (simp add: GETALIGNED_def)
next
  case (c_unaligned A P L n at cp B)
  then show ?case using client_ok_get [OF aligner_id] by (simp add: GETMEMORY_def)
next
  case (c_free A P L)
  then show ?case using client_ok_tfree by blast
next
  case (c_level A P L at s B)
  then show ?case using client_ok_getlevel by blast
next
  case (c_back A P L s B Q M ok C)
  then show ?case using client_ok_setlevel(1) by blast
qed


lemma GETALIGNED_aligned: "GETALIGNED n at A = (cp, B) \<Longrightarrow> NALIGN dvd cp"
  by (auto simp: GETALIGNED_def get_from_def ALIGN_def Let_def)

lemma client_pieces:
  assumes "client A P L"
  shows "pieces_apart P \<and> (\<forall>p\<in>set P. \<exists>b\<in>set (all_blocks A). b_area b \<le> fst p \<and> fst p + snd p \<le> b_area b + capacity b)"
proof -
  have ok: "arena_ok A" "held A P" "pieces_apart P" using client_invariant [OF assms] by (auto simp: client_ok_def)
  have sub: "set (piece_blocks A) \<subseteq> set (all_blocks A)" by (auto simp: piece_blocks_def all_blocks_def blockhead_def)
  have "\<exists>b\<in>set (all_blocks A). b_area b \<le> fst p \<and> fst p + snd p \<le> b_area b + capacity b" if pP: "p \<in> set P" for p
  proof -
    obtain b where b: "b \<in> set (piece_blocks A)" "held_by b p" using ok(2) pP by (auto simp: held_def)
    then have "b_cur b \<le> capacity b" using ok(1) sub by (auto simp: arena_ok_def)
    then show ?thesis using b sub by (intro bexI [of _ b]) (auto simp: held_by_def)
  qed
  then show ?thesis using ok(3) by blast
qed

section \<open>Properties\<close>


definition block0 :: "nat \<Rightarrow> block" where
  "block0 c = \<lparr>b_area = 4096, b_endp = 32712, b_cur = c\<rparr>"

definition arena0 :: "nat \<Rightarrow> bool \<Rightarrow> arena" where
  "arena0 c fl = \<lparr>a_pre = [], blockinuse = Some (block0 c), a_post = [], blockfull = [], stackflag = fl, a_size = 32768\<rparr>"

lemmas arena_eval = emalloc_ok_def request_ok_def arena_new_def arena0_def block0_def all_blocks_def blockhead_def NALIGN_def next_size_def fit_size_le
  CLICK_FIRST_def CLICK_FINAL_def MALLOC_OVERHEAD_def area_offset_def new_block_def BLOCK_SIZE_def sizeof_block_def blocks_apart_def capacity_def
  GETMEMORY_def GETALIGNED_def get_from_def ready_def has_room_def moremem_def ALIGN_def

lemma client_arena0:
  "client (arena0 108 False) [(4096, 5), (4104, 100)] []"
  "client (arena0 108 True) [(4096, 5), (4104, 100)] [(4204, arena0 108 True, [(4096, 5), (4104, 100)])]"
proof -
  have "client (arena0 5 False) ([] @ [(4096, 5)]) []" by (rule c_unaligned [OF c_start, of _ 4096]) (simp_all add: arena_eval)
  then have "client (arena0 108 False) (([] @ [(4096, 5)]) @ [(4104, 100)]) []" by (rule c_aligned [where at = 40960]) (simp_all add: arena_eval)
  then show 1: "client (arena0 108 False) [(4096, 5), (4104, 100)] []" by simp
  show "client (arena0 108 True) [(4096, 5), (4104, 100)] [(4204, arena0 108 True, [(4096, 5), (4104, 100)])]"
    using c_level [OF 1, of 40960 4204 "arena0 108 True"] by (simp add: getlevel_def arena_eval)
qed


text \<open>
  C39: Returning to a level gives back exactly what was taken since: the blocks up to the one in use and its current place are those of the time
  of \<open>getlevel\<close>, so that the next piece starts where it would have started then.  It always works, unless blocks were set aside as full before the
  memory was used as a stack.
\<close>

theorem setlevel_restores:
  assumes "client A P (L @ (s, B, Q) # M)" "blockfull A = []" "setlevel s A = (ok, C)"
  shows "ok \<and> a_pre C = a_pre B \<and> blockinuse C = blockinuse B"
  by (rule client_ok_setlevel(2) [OF client_invariant [OF assms(1)] assms(3,2)])

theorem setlevel_restores_witness:
  "blockinuse (snd (setlevel 4204 (arena0 120 True))) = Some (block0 108)"
proof -
  have "client (arena0 120 True) ([(4096, 5), (4104, 100)] @ [(4204, 12)]) [(4204, arena0 108 True, [(4096, 5), (4104, 100)])]"
    by (rule c_unaligned [OF client_arena0(2), of _ 40960]) (simp_all add: arena_eval)
  then have "client (arena0 120 True) ([(4096, 5), (4104, 100)] @ [(4204, 12)]) ([] @ (4204, arena0 108 True, [(4096, 5), (4104, 100)]) # [])" by simp
  from setlevel_restores [OF this _ prod.collapse [symmetric]] show ?thesis by (simp add: arena0_def)
qed



end
