(* ===== verification/Spec2Isabelle.thy ===== *)
theory Spec2Isabelle
  imports Symbol Base64 Delivery Replies Spool Rfc821gram Strmatch Lockaddr Agenda Token Linebuffer Taspoolid Allocate
begin

text \<open>
  Verification of the ZMailer mail transport agent.

  \<^bold>\<open>The program.\<close>  A message enters through \<^verbatim>\<open>smtpserver/\<close>, which writes an envelope and the text into a file of
  the spool directory.  \<^verbatim>\<open>router/\<close> parses the headers and decides where every recipient goes.  \<^verbatim>\<open>scheduler/\<close> groups
  the recipients by channel and host and feeds the groups to transport agents in \<^verbatim>\<open>transports/\<close>, which lock
  each recipient in the control file, deliver, and report back.  The agent \<^verbatim>\<open>transports/smtp\<close> is the client of the next
  SMTP server.  \<^verbatim>\<open>lib/\<close> holds what the processes share: splay trees, symbol tables, scanners, printing.

  \<^bold>\<open>The theories\<close>, from the bottom up.

  \<^item> \<open>Prelude\<close>: characters and C text (a pointer into a buffer is the rest of its text), codecs as step functions, and three
    of the interfaces of the library as locales: \<open>keyed_store\<close> (a dictionary), \<open>interning\<close> (unique keys for
    strings) and \<open>byte_codec\<close> (an encoder and a decoder that run in step).
  \<^item> \<open>Splay\<close>: \<^verbatim>\<open>lib/splay.c\<close>.  A location is a zipper, as the code walks with parent pointers.  The operations implement
    \<open>keyed_store\<close>, keep order and links, and a scan visits the keys in ascending order.
  \<^item> \<open>Hash\<close>, \<open>Symbol\<close>: \<^verbatim>\<open>lib/crc32.c\<close>, \<^verbatim>\<open>lib/pjwhash32.c\<close>, \<^verbatim>\<open>lib/symbol.c\<close>.  Symbols are interned through hash chains in a splay
    tree; hash collisions are part of the model.  The table implements \<open>interning\<close>.
  \<^item> \<open>Stdio\<close>: output streams with an error flag and a limit of space, and the comparison functions of \<^verbatim>\<open>lib/stringlib.c\<close>.
  \<^item> \<open>Smtpdata\<close>, \<open>Base64\<close>: \<open>mvdata\<close> with its state table and its header scan, \<open>mvbdata\<close>, \<open>parsestatcode\<close> and the base64
    codec of \<^verbatim>\<open>smtpserver/smtpdata.c\<close>.
  \<^item> \<open>Appendlet\<close>: \<open>writebuf\<close>, \<open>writemimeline\<close> and \<open>appendlet\<close> of \<^verbatim>\<open>transports/smtp/appendlet.c\<close>, with quoted-printable output.
  \<^item> \<open>DataPath\<close>: client and server put together.  \<open>byte_codec\<close> is interpreted for DATA and for BDAT.
  \<^item> \<open>Rfc821scn\<close>, \<open>Rfc821gram\<close>: the address scanners of \<^verbatim>\<open>smtpserver/rfc821scn.c\<close> with their error reports, and the grammar they accept.
  \<^item> \<open>Smtpargs\<close>: the path and the parameters of MAIL and RCPT, \<^verbatim>\<open>smtpserver/smtpcmds.c\<close>.
  \<^item> \<open>Session\<close>: the handlers \<open>smtp_helo\<close>, \<open>smtp_mail\<close>, \<open>smtp_rcpt\<close>, \<open>smtp_data\<close>, \<open>smtp_bdata\<close> and the dispatch of the command loop
    of \<^verbatim>\<open>smtpserver/smtpserver.c\<close>.  The record \<open>SmtpState\<close> is the structure of that name.  The answers of policy,
    router, file system and peer during one command are an argument (\<open>answers\<close>); nothing is assumed of them.
  \<^item> \<open>Sessioninv\<close>, \<open>Transaction\<close>, \<open>Replies\<close>, \<open>Delivery\<close>: sessions as an inductive relation; the invariant of the transaction, what is
    committed, faults on a missing file, the count of replies, and the whole way of a message from the client into the queue.
  \<^item> \<open>Mailfile\<close>, \<open>Spool\<close>: the message files of \<^verbatim>\<open>libc/mail.c\<close> over a file system of names and inodes, and any number of processes that
    open, close and abort them while the router takes finished ones; the kernel is assumed to give a new file an inode without a name and a free
    descriptor.
  \<^item> \<open>Linebuffer\<close>, \<open>Taspoolid\<close>: the line reader \<^verbatim>\<open>lib/linebuffer.c\<close>, the spool identifiers \<^verbatim>\<open>lib/taspoolid.c\<close>, and the scanners
    \<^verbatim>\<open>lib/parseintv.c\<close> and \<^verbatim>\<open>lib/skip821address.c\<close>.
  \<^item> \<open>Allocate\<close>: the temporary storage of \<^verbatim>\<open>lib/allocate.c\<close>, with clients that allocate, take levels, return to them and free all.
  \<^item> \<open>Strmatch\<close>: the wildcard matcher of \<^verbatim>\<open>lib/strmatch.c\<close> against a semantics of its patterns.
  \<^item> \<open>Lockaddr\<close>: the recipient locks of \<^verbatim>\<open>transports/libta/lockaddr.c\<close>, with every outcome of the system calls; the locale \<open>agent_lock\<close>
    states what the agents rely on.
  \<^item> \<open>Rfc822scan\<close>, \<open>Token\<close>: the header scanner \<^verbatim>\<open>lib/rfc822scan.c\<close> and the printing of its tokens, \<^verbatim>\<open>lib/token.c\<close>.
  \<^item> \<open>Webs\<close>, \<open>Chains\<close>, \<open>Threads\<close>, \<open>Threadinv\<close>, \<open>Threadqueue\<close>, \<open>Shuffle\<close>, \<open>Ranny\<close>, \<open>Agenda\<close>, \<open>Reachable\<close>: \<^verbatim>\<open>scheduler/threads.c\<close>, the loop of
    \<^verbatim>\<open>scheduler/agenda.c\<close> and \<^verbatim>\<open>lib/ranny.c\<close>.  Threads, groups, vertices and webs are objects in an explicit heap with
    their link fields, so that the pointer assignments are the ones of the code.  The chains implement the
    locale \<open>fifo\<close>, and the heap implements a map from channel and host to queues of recipient groups.

  \<^bold>\<open>What is shown.\<close>  Refinement: splay tree to map, scheduler heap to queues (linking in, detangling, shuffling).  Invariants:
  of the tree, of the scheduler's heap, of an SMTP session, of the spool directory, of the temporary storage.  Round trips: SMTP data and whole messages, base64, header scanning and
  printing, locks.  Safety: a message is queued only with its envelope; closing a message file is atomic and overwrites nothing; scanners stay in the buffer; one agent wins
  a lock; encoded output has safe lines.  Liveness and termination: the agenda reaches every thread in turn, rescheduling moves into the
  future, the scanner ends.  Errors: each finding about the code that has a theorem is proved on the definitions, as a general
  statement or as a session or an input that shows it.

  \<^bold>\<open>Bounds and partiality.\<close>  Buffers with a fixed size are kept: the 4000 bytes of the header line in \<open>mvdata\<close>, the sizes of
  the token buffers, the 31 bits of the CRC, the 64-bit words of the random numbers, the limits of SIZE and BY.
  No fuel is used.  Loops over text are total functions with termination proofs.  Walks along heap links are
  \<open>partial_function\<close>s in the option type, where \<open>None\<close> is a walk that does not end; that they end is proved for
  reachable states.  Null pointers, reads behind the end of a line and use after free are values of the result types.

  \<^bold>\<open>Not modelled.\<close>  The router (its configuration shell \<^verbatim>\<open>libsh/\<close>, address rewriting and the database interfaces), since its behaviour is the
  configuration scripts run by the shell; the policy engine \<^verbatim>\<open>smtpserver/policytest.c\<close> and the subdaemons, whose answers are arguments
  of the session; TLS, AUTH mechanisms, ETRN, VRFY, EXPN and reports of the server; the connection management of the SMTP client and
  the other transport agents; the processes, sockets and control files of the scheduler (\<^verbatim>\<open>transport.c\<close>, \<^verbatim>\<open>update.c\<close>, \<^verbatim>\<open>scheduler.c\<close>); the queue printers;
  utilities; the bundled libraries \<^verbatim>\<open>sfio/\<close>, the rest of \<^verbatim>\<open>libc/\<close>, \<^verbatim>\<open>libresolv/\<close>, \<^verbatim>\<open>libident/\<close>, \<^verbatim>\<open>libmalloc/\<close> and \<^verbatim>\<open>intl/\<close>.  Texts of replies and log lines, statistics,
  alarms and tarpit delays are left out of the parts that are modelled.
\<close>

end
